(* ===== verification/Prelude.thy ===== *)
theory Prelude
  imports Main "HOL-Library.Monad_Syntax" "HOL-Library.Word"
begin

text \<open>
  Shared vocabulary of the development: the fragments of the Go language that every component
  uses, and generic lemmas.

  \<^item> A Go run-time panic (an index or a slice bound out of range) is the value \<open>None\<close>; a
    computation that may panic is written in the option monad.  \<open>go_nth\<close>, \<open>go_slice_from\<close>
    and \<open>go_slice_to\<close> are \<open>xs[i]\<close>, \<open>xs[i:]\<close> and \<open>xs[:i]\<close> with
    their bounds checks.
  \<^item> \<open>wrap64\<close> is the value an \<open>int\<close> expression has after 64-bit two's complement
    wrap-around; \<open>shl1\<close> is \<open>1 << uint(i)\<close> on \<open>uint64\<close>, which is 0 when
    the count is not below 64.
  \<^item> Two majorities of a finite set meet: the locale \<open>quorum_system\<close> states what the
    election argument needs, and its interpretation discharges it for \<open>len(peers)/2 + 1\<close>.
\<close>

named_theorems go_simps \<open>bounds-checked accesses whose bounds hold\<close>
named_theorems frame_simps \<open>fields an operation leaves unchanged\<close>


section \<open>Bounds-checked slices\<close>

definition go_nth :: "'a list \<Rightarrow> int \<Rightarrow> 'a option" where
  "go_nth xs i = (if 0 \<le> i \<and> i < int (length xs) then Some (xs ! nat i) else None)"

definition go_slice_from :: "'a list \<Rightarrow> int \<Rightarrow> 'a list option" where
  "go_slice_from xs i = (if 0 \<le> i \<and> i \<le> int (length xs) then Some (drop (nat i) xs) else None)"

text \<open>
  Go allows \<open>xs[:i]\<close> up to the capacity of the slice; the only such expression of the program
  is guarded by \<open>i\<close> being below the length, so the model stops at the length.
\<close>

definition go_slice_to :: "'a list \<Rightarrow> int \<Rightarrow> 'a list option" where
  "go_slice_to xs i = (if 0 \<le> i \<and> i \<le> int (length xs) then Some (take (nat i) xs) else None)"

definition go_update :: "'a list \<Rightarrow> int \<Rightarrow> 'a \<Rightarrow> 'a list option" where
  "go_update xs i v = (if 0 \<le> i \<and> i < int (length xs) then Some (xs[nat i := v]) else None)"


section \<open>Machine integers\<close>

definition wrap64 :: "int \<Rightarrow> int" where
  "wrap64 x = (x + 9223372036854775808) mod 18446744073709551616 - 9223372036854775808"

definition in_int64 :: "int \<Rightarrow> bool" where
  "in_int64 x \<longleftrightarrow> - 9223372036854775808 \<le> x \<and> x < 9223372036854775808"

definition shl1 :: "int \<Rightarrow> 64 word" where
  "shl1 i = (if 0 \<le> i \<and> i < 64 then push_bit (nat i) 1 else 0)"


section \<open>Lemmas on slices\<close>

lemma go_nth_Some [go_simps]: "0 \<le> i \<Longrightarrow> i < int (length xs) \<Longrightarrow> go_nth xs i = Some (xs ! nat i)"
  by (simp add: go_nth_def)

lemma go_nth_Some_iff: "go_nth xs i = Some x \<longleftrightarrow> 0 \<le> i \<and> i < int (length xs) \<and> x = xs ! nat i"
  by (auto simp: go_nth_def)

lemma go_nth_of_nat [simp]: "k < length xs \<Longrightarrow> go_nth xs (int k) = Some (xs ! k)"
  by (simp add: go_nth_def)

lemma go_slice_from_Some [go_simps]:
  "0 \<le> i \<Longrightarrow> i \<le> int (length xs) \<Longrightarrow> go_slice_from xs i = Some (drop (nat i) xs)"
  by (simp add: go_slice_from_def)

lemma go_slice_from_Some_iff:
  "go_slice_from xs i = Some ys \<longleftrightarrow> 0 \<le> i \<and> i \<le> int (length xs) \<and> ys = drop (nat i) xs"
  by (auto simp: go_slice_from_def)

lemma go_slice_to_Some [go_simps]:
  "0 \<le> i \<Longrightarrow> i \<le> int (length xs) \<Longrightarrow> go_slice_to xs i = Some (take (nat i) xs)"
  by (simp add: go_slice_to_def)

lemma go_slice_to_Some_iff:
  "go_slice_to xs i = Some ys \<longleftrightarrow> 0 \<le> i \<and> i \<le> int (length xs) \<and> ys = take (nat i) xs"
  by (auto simp: go_slice_to_def)

lemma go_update_Some [go_simps]:
  "0 \<le> i \<Longrightarrow> i < int (length xs) \<Longrightarrow> go_update xs i v = Some (xs[nat i := v])"
  by (simp add: go_update_def)

lemma go_update_Some_iff:
  "go_update xs i v = Some ys \<longleftrightarrow> 0 \<le> i \<and> i < int (length xs) \<and> ys = xs[nat i := v]"
  by (auto simp: go_update_def)

lemma go_update_length: "go_update xs i v = Some ys \<Longrightarrow> length ys = length xs"
  by (auto simp: go_update_Some_iff)

lemma bind_Some_conv: "Option.bind m f = Some y \<longleftrightarrow> (\<exists>x. m = Some x \<and> f x = Some y)"
  by (cases m) auto


section \<open>Lemmas on machine integers\<close>

lemma wrap64_id [simp]: "in_int64 x \<Longrightarrow> wrap64 x = x"
  by (simp add: wrap64_def in_int64_def)

lemma wrap64_range: "in_int64 (wrap64 x)"
  unfolding in_int64_def wrap64_def by simp

lemma bit_shl1: "bit (shl1 i) k \<longleftrightarrow> 0 \<le> i \<and> i < 64 \<and> k = nat i"
  by (auto simp: shl1_def bit_simps)

lemma word64_eq_0_iff: "(w :: 64 word) = 0 \<longleftrightarrow> (\<forall>k < 64. \<not> bit w k)"
  by (auto simp: bit_eq_iff)


section \<open>Majorities\<close>

locale quorum_system =
  fixes quorum :: "'a set \<Rightarrow> bool"
  assumes quorum_meet: "quorum Q \<Longrightarrow> quorum Q' \<Longrightarrow> \<exists>p. p \<in> Q \<and> p \<in> Q'"
begin

text \<open>
  If every member of a quorum backs one value, two quorums back the same value, provided a
  member backs at most one.
\<close>

lemma quorum_agree:
  assumes "quorum Q" and "quorum Q'"
    and "\<And>p. p \<in> Q \<Longrightarrow> backs p v" and "\<And>p. p \<in> Q' \<Longrightarrow> backs p v'"
    and "\<And>p a b. backs p a \<Longrightarrow> backs p b \<Longrightarrow> a = b"
  shows "v = v'"
proof -
  obtain p where "p \<in> Q" and "p \<in> Q'" using quorum_meet assms(1,2) by blast
  with assms(3-5) show ?thesis by blast
qed

end

text \<open>The majority test of the source, \<open>count >= len(peers)/2 + 1\<close>, as a predicate on sets.\<close>

definition majority :: "nat \<Rightarrow> nat set \<Rightarrow> bool" where
  "majority n Q \<longleftrightarrow> Q \<subseteq> {..<n} \<and> n div 2 + 1 \<le> card Q"

lemma majority_meet:
  assumes "majority n Q" and "majority n Q'"
  shows "\<exists>p. p \<in> Q \<and> p \<in> Q'"
proof (rule ccontr)
  assume none: "\<not> ?thesis"
  have fin: "finite Q" "finite Q'"
    using assms by (auto simp: majority_def intro: finite_subset)
  have "card Q + card Q' = card (Q \<union> Q')"
    using fin none by (intro card_Un_disjoint [symmetric]) auto
  also have "\<dots> \<le> card {..<n}"
    using assms by (intro card_mono) (auto simp: majority_def)
  finally have "card Q + card Q' \<le> n" by simp
  with assms show False by (simp add: majority_def) arith
qed

interpretation peers_quorum: quorum_system "majority n" for n
  by unfold_locales (rule majority_meet)

end
