(* ===== verification/Raft_Types.thy ===== *)
theory Raft_Types
  imports Prelude
begin

text \<open>
  The data of the Raft package: log entries, messages to the service, the arguments and replies
  of the three RPCs (\<open>src/internal/raft/raft.go\<close>), the peer addresses
  (\<open>rpc.go\<close>) and the persister (\<open>persister.go\<close>).

  A command is a value of a type \<open>'c\<close>; the \<open>interface{}\<close> field holds \<open>Some c\<close>,
  or \<open>None\<close> for \<open>nil\<close>.  A \<open>[]byte\<close> produced by \<open>encoding/gob\<close> is the
  list of the values encoded into it: \<open>Encode\<close> appends one value, \<open>Decode\<close> takes the
  first value and fails when there is none or when it has another type.  The service's snapshot is
  a list over an unspecified type \<open>'b\<close>, since Raft never looks inside it.
\<close>

record 'c LogEntry =
  eTerm :: int
  eCommand :: "'c option"

record ('c, 'b) ApplyMsg =
  CommandValid :: bool
  amCommand :: "'c option"
  CommandIndex :: int
  SnapshotValid :: bool
  amSnapshot :: "'b list"
  SnapshotTerm :: int
  SnapshotIndex :: int

record RequestVoteArgs =
  rvTerm :: int
  rvCandidateId :: int
  rvLastLogIndex :: int
  rvLastLogTerm :: int

record RequestVoteReply =
  rvrTerm :: int
  rvrVoteGranted :: bool

record 'c AppendEntriesArgs =
  aeTerm :: int
  aeLeaderId :: int
  aePrevLogIndex :: int
  aePrevLogTerm :: int
  aeEntries :: "'c LogEntry list"
  aeLeaderCommit :: int

record AppendEntriesReply =
  aerTerm :: int
  aerSuccess :: bool
  aerConflictTerm :: int
  aerConflictIndex :: int

record 'b InstallSnapshotArgs =
  isTerm :: int
  isLeaderId :: int
  isLastIncludedIndex :: int
  isLastIncludedTerm :: int
  isData :: "'b list"

record InstallSnapshotReply =
  isrTerm :: int

record Peer =
  addr :: string

definition NewPeer :: "string \<Rightarrow> Peer" where
  "NewPeer a = \<lparr>addr = a\<rparr>"


section \<open>Gob streams\<close>

datatype 'c gob = GobInt int | GobLog "'c LogEntry list"

definition EncodeInt :: "int \<Rightarrow> 'c gob list \<Rightarrow> 'c gob list" where
  "EncodeInt i w = w @ [GobInt i]"

definition EncodeLog :: "'c LogEntry list \<Rightarrow> 'c gob list \<Rightarrow> 'c gob list" where
  "EncodeLog l w = w @ [GobLog l]"

fun DecodeInt :: "'c gob list \<Rightarrow> (int \<times> 'c gob list) option" where
  "DecodeInt (GobInt i # r) = Some (i, r)"
| "DecodeInt _ = None"

fun DecodeLog :: "'c gob list \<Rightarrow> ('c LogEntry list \<times> 'c gob list) option" where
  "DecodeLog (GobLog l # r) = Some (l, r)"
| "DecodeLog _ = None"


section \<open>The persister\<close>

record ('c, 'b) Persister =
  raftstate :: "'c gob list"
  snapshot :: "'b list"

definition MakePersister :: "('c, 'b) Persister" where
  "MakePersister = \<lparr>raftstate = [], snapshot = []\<rparr>"

definition ReadRaftState :: "('c, 'b) Persister \<Rightarrow> 'c gob list" where
  "ReadRaftState ps = raftstate ps"

definition ReadSnapshot :: "('c, 'b) Persister \<Rightarrow> 'b list" where
  "ReadSnapshot ps = snapshot ps"

definition Save :: "'c gob list \<Rightarrow> 'b list \<Rightarrow> ('c, 'b) Persister \<Rightarrow> ('c, 'b) Persister" where
  "Save rs sn ps = ps\<lparr>raftstate := rs, snapshot := sn\<rparr>"

definition Copy :: "('c, 'b) Persister \<Rightarrow> ('c, 'b) Persister" where
  "Copy ps = MakePersister\<lparr>raftstate := raftstate ps, snapshot := snapshot ps\<rparr>"

lemma persister_simps [simp]:
  "ReadRaftState (Save rs sn ps) = rs" "ReadSnapshot (Save rs sn ps) = sn"
  "ReadRaftState MakePersister = []" "ReadSnapshot MakePersister = []"
  "Copy ps = \<lparr>raftstate = ReadRaftState ps, snapshot = ReadSnapshot ps\<rparr>"
  by (simp_all add: ReadRaftState_def ReadSnapshot_def Save_def MakePersister_def Copy_def)

end
