(* ===== verification/Raft_Node.thy ===== *)
theory Raft_Node
  imports Raft_Types
begin

text \<open>
  One Raft peer, \<open>src/internal/raft/raft.go\<close>: the fields of \<open>Raft\<close> and one definition
  per function.

  Everything a goroutine does while it holds \<open>rf.mu\<close> is one definition, so a goroutine that
  releases the lock to make an RPC or to send on a channel is split there:
  \<^item> \<open>startElection\<close> and \<open>onVoteReply\<close> are the election and the part of its
    per-peer goroutine that handles the reply (\<open>votes\<close> is the variable the goroutines share);
  \<^item> \<open>sendHeartbeats_begin\<close>, \<open>sendHeartbeats_peer\<close> and \<open>onAppendReply\<close> are the
    three critical sections of \<open>sendHeartbeats\<close>; \<open>snapshotArgs\<close> and
    \<open>onSnapshotReply\<close> the two of \<open>sendSnapshot\<close>;
  \<^item> \<open>applyTop\<close> and \<open>applyGap\<close> run \<open>applyLoop\<close> up to the next message it sends.

  \<open>None\<close> is a run-time panic.  The clock value a function reads is an argument \<open>now\<close>.
  Terms and indices are unbounded integers.  No slice of \<open>rf.log\<close> is shared with another
  variable (the entries of a message are copied), so the log is a value.
\<close>

datatype role = follower | candidate | leader

record ('c, 'b) Raft =
  peers :: "Peer list"
  persister :: "('c, 'b) Persister"
  me :: int
  dead :: bool
  currentTerm :: int
  votedFor :: int
  log :: "'c LogEntry list"
  lastIncludedIndex :: int
  lastIncludedTerm :: int
  commitIndex :: int
  lastApplied :: int
  nextIndex :: "int list"
  matchIndex :: "int list"
  state :: role
  lastHeartbeat :: int
  pendingSnapshot :: "('c, 'b) ApplyMsg option"

definition GetState :: "('c, 'b) Raft \<Rightarrow> int \<times> bool" where
  "GetState rf = (currentTerm rf, state rf = leader)"


section \<open>Snapshot index helpers\<close>

definition logIndex :: "('c, 'b) Raft \<Rightarrow> int \<Rightarrow> int" where
  "logIndex rf absoluteIndex = absoluteIndex - lastIncludedIndex rf"

definition lastLogIndex :: "('c, 'b) Raft \<Rightarrow> int" where
  "lastLogIndex rf = lastIncludedIndex rf + int (length (log rf)) - 1"

definition logTerm :: "('c, 'b) Raft \<Rightarrow> int \<Rightarrow> int option" where
  "logTerm rf absoluteIndex =
     (if absoluteIndex = lastIncludedIndex rf then Some (lastIncludedTerm rf)
      else do { e \<leftarrow> go_nth (log rf) (logIndex rf absoluteIndex); Some (eTerm e) })"


section \<open>Persistence\<close>

definition encodeState :: "('c, 'b) Raft \<Rightarrow> 'c gob list" where
  "encodeState rf =
     EncodeInt (lastIncludedTerm rf) (EncodeInt (lastIncludedIndex rf) (EncodeLog (log rf)
       (EncodeInt (votedFor rf) (EncodeInt (currentTerm rf) []))))"

definition persistWithSnapshot :: "'b list \<Rightarrow> ('c, 'b) Raft \<Rightarrow> ('c, 'b) Raft" where
  "persistWithSnapshot sn rf = rf\<lparr>persister := Save (encodeState rf) sn (persister rf)\<rparr>"

definition persist :: "('c, 'b) Raft \<Rightarrow> ('c, 'b) Raft" where
  "persist rf = persistWithSnapshot (ReadSnapshot (persister rf)) rf"

definition decodeState :: "'c gob list \<Rightarrow> (int \<times> int \<times> 'c LogEntry list \<times> int \<times> int) option" where
  "decodeState data =
     do { (ct, d) \<leftarrow> DecodeInt data;
          (vf, d) \<leftarrow> DecodeInt d;
          (l, d) \<leftarrow> DecodeLog d;
          (li, d) \<leftarrow> DecodeInt d;
          (lt, d) \<leftarrow> DecodeInt d;
          Some (ct, vf, l, li, lt) }"

definition readPersist :: "'c gob list \<Rightarrow> ('c, 'b) Raft \<Rightarrow> ('c, 'b) Raft" where
  "readPersist data rf =
     (if data = [] then rf
      else case decodeState data of
             None \<Rightarrow> rf
           | Some (ct, vf, l, li, lt) \<Rightarrow>
               rf\<lparr>currentTerm := ct, votedFor := vf, log := l,
                  lastIncludedIndex := li, lastIncludedTerm := lt\<rparr>)"

definition Make :: "Peer list \<Rightarrow> int \<Rightarrow> ('c, 'b) Persister \<Rightarrow> int \<Rightarrow> ('c, 'b) Raft" where
  "Make ps m pr now =
     (let rf = \<lparr>peers = ps, persister = pr, me = m, dead = False, currentTerm = 0, votedFor = - 1,
                log = [\<lparr>eTerm = 0, eCommand = None\<rparr>], lastIncludedIndex = 0, lastIncludedTerm = 0,
                commitIndex = 0, lastApplied = 0, nextIndex = [], matchIndex = [], state = follower,
                lastHeartbeat = now, pendingSnapshot = None\<rparr>;
          rf = readPersist (ReadRaftState pr) rf
      in rf\<lparr>lastApplied := lastIncludedIndex rf, commitIndex := lastIncludedIndex rf\<rparr>)"

definition Kill :: "('c, 'b) Raft \<Rightarrow> ('c, 'b) Raft" where
  "Kill rf = rf\<lparr>dead := True\<rparr>"

definition killed :: "('c, 'b) Raft \<Rightarrow> bool" where
  "killed rf = dead rf"


section \<open>Compaction by the service\<close>

definition Snapshot :: "int \<Rightarrow> 'b list \<Rightarrow> ('c, 'b) Raft \<Rightarrow> ('c, 'b) Raft option" where
  "Snapshot index sn rf =
     (if index \<le> lastIncludedIndex rf then Some rf
      else do {
        t \<leftarrow> logTerm rf index;
        l \<leftarrow> go_slice_from (log rf) (logIndex rf index);
        s \<leftarrow> go_nth l 0;
        l \<leftarrow> go_update l 0 (s\<lparr>eCommand := None\<rparr>);
        Some (persistWithSnapshot sn
          (rf\<lparr>log := l, lastIncludedIndex := index, lastIncludedTerm := t\<rparr>)) })"


section \<open>Elections\<close>

text \<open>A higher term in a request or a reply: adopt it and follow, without a vote.\<close>

definition stepDown :: "int \<Rightarrow> ('c, 'b) Raft \<Rightarrow> ('c, 'b) Raft" where
  "stepDown t rf = persist (rf\<lparr>currentTerm := t, state := follower, votedFor := - 1\<rparr>)"

definition RequestVote ::
    "int \<Rightarrow> RequestVoteArgs \<Rightarrow> ('c, 'b) Raft \<Rightarrow> (RequestVoteReply \<times> ('c, 'b) Raft) option" where
  "RequestVote now args rf =
     (let reply = \<lparr>rvrTerm = currentTerm rf, rvrVoteGranted = False\<rparr> in
      if rvTerm args < currentTerm rf then Some (reply, rf)
      else
        let rf = (if currentTerm rf < rvTerm args then stepDown (rvTerm args) rf else rf) in
        if votedFor rf \<noteq> - 1 \<and> votedFor rf \<noteq> rvCandidateId args then Some (reply, rf)
        else do {
          let lastIndex = lastLogIndex rf;
          lastTerm \<leftarrow> logTerm rf lastIndex;
          let logOk = (lastTerm < rvLastLogTerm args \<or>
                       rvLastLogTerm args = lastTerm \<and> lastIndex \<le> rvLastLogIndex args);
          if \<not> logOk then Some (reply, rf)
          else Some (reply\<lparr>rvrVoteGranted := True\<rparr>,
                     (persist (rf\<lparr>votedFor := rvCandidateId args\<rparr>))\<lparr>lastHeartbeat := now\<rparr>) })"

definition becomeLeader :: "('c, 'b) Raft \<Rightarrow> ('c, 'b) Raft" where
  "becomeLeader rf =
     rf\<lparr>state := leader,
        nextIndex := replicate (length (peers rf)) (lastLogIndex rf + 1),
        matchIndex := replicate (length (peers rf)) 0\<rparr>"

text \<open>The requests are those of the goroutines \<open>startElection\<close> starts, one per other peer.\<close>

definition startElection ::
    "('c, 'b) Raft \<Rightarrow> (('c, 'b) Raft \<times> (nat \<times> RequestVoteArgs) list) option" where
  "startElection rf =
     (let rf = persist (rf\<lparr>state := candidate, currentTerm := currentTerm rf + 1, votedFor := me rf\<rparr>);
          others = filter (\<lambda>i. int i \<noteq> me rf) [0..<length (peers rf)] in
      if others = [] then Some (rf, [])
      else do {
        let lastIdx = lastLogIndex rf;
        lastTerm \<leftarrow> logTerm rf lastIdx;
        Some (rf, map (\<lambda>i. (i, \<lparr>rvTerm = currentTerm rf, rvCandidateId = me rf,
                                 rvLastLogIndex = lastIdx, rvLastLogTerm = lastTerm\<rparr>)) others) })"

definition electionTimeout ::
    "int \<Rightarrow> int \<Rightarrow> ('c, 'b) Raft \<Rightarrow> (('c, 'b) Raft \<times> (nat \<times> RequestVoteArgs) list) option" where
  "electionTimeout now sleepDuration rf =
     (if state rf \<noteq> leader \<and> sleepDuration \<le> now - lastHeartbeat rf then startElection rf
      else Some (rf, []))"

definition onVoteReply ::
    "int \<Rightarrow> RequestVoteReply \<Rightarrow> int \<Rightarrow> ('c, 'b) Raft \<Rightarrow> ('c, 'b) Raft \<times> int" where
  "onVoteReply t reply votes rf =
     (if currentTerm rf \<noteq> t \<or> state rf \<noteq> candidate then (rf, votes)
      else if currentTerm rf < rvrTerm reply then (stepDown (rvrTerm reply) rf, votes)
      else if rvrVoteGranted reply then
        (if int (length (peers rf)) div 2 + 1 \<le> votes + 1 then becomeLeader rf else rf, votes + 1)
      else (rf, votes))"


section \<open>Replication: the leader\<close>

text \<open>On success a goroutine for \<open>sendHeartbeats\<close> is started; the result says whether.\<close>

definition Start :: "'c \<Rightarrow> ('c, 'b) Raft \<Rightarrow> (int \<times> int \<times> bool) \<times> ('c, 'b) Raft" where
  "Start command rf =
     (if state rf \<noteq> leader then ((- 1, currentTerm rf, False), rf)
      else
        let rf = rf\<lparr>log := log rf @ [\<lparr>eTerm = currentTerm rf, eCommand = Some command\<rparr>]\<rparr>
        in ((lastLogIndex rf, currentTerm rf, True), persist rf))"

definition sendHeartbeats_begin :: "('c, 'b) Raft \<Rightarrow> int \<times> int \<times> int" where
  "sendHeartbeats_begin rf = (currentTerm rf, me rf, commitIndex rf)"

definition snapshotArgs :: "('c, 'b) Raft \<Rightarrow> 'b InstallSnapshotArgs" where
  "snapshotArgs rf =
     \<lparr>isTerm = currentTerm rf, isLeaderId = me rf, isLastIncludedIndex = lastIncludedIndex rf,
      isLastIncludedTerm = lastIncludedTerm rf, isData = ReadSnapshot (persister rf)\<rparr>"

datatype ('c, 'b) outgoing =
    NoRequest
  | AppendRequest "'c AppendEntriesArgs"
  | SnapshotRequest "'b InstallSnapshotArgs"

definition sendHeartbeats_peer ::
    "int \<times> int \<times> int \<Rightarrow> nat \<Rightarrow> ('c, 'b) Raft \<Rightarrow> ('c, 'b) outgoing option" where
  "sendHeartbeats_peer hb peer rf =
     (case hb of (t, leaderId, commit) \<Rightarrow>
        if state rf \<noteq> leader then Some NoRequest
        else do {
          ni \<leftarrow> go_nth (nextIndex rf) (int peer);
          if ni \<le> lastIncludedIndex rf then Some (SnapshotRequest (snapshotArgs rf))
          else do {
            let prevLogIndex = ni - 1;
            prevLogTerm \<leftarrow> logTerm rf prevLogIndex;
            entries \<leftarrow> go_slice_from (log rf) (logIndex rf ni);
            Some (AppendRequest \<lparr>aeTerm = t, aeLeaderId = leaderId, aePrevLogIndex = prevLogIndex,
                    aePrevLogTerm = prevLogTerm, aeEntries = entries, aeLeaderCommit = commit\<rparr>) } })"

fun countReplicas :: "('c, 'b) Raft \<Rightarrow> int \<Rightarrow> nat list \<Rightarrow> int \<Rightarrow> int option" where
  "countReplicas rf n [] count = Some count"
| "countReplicas rf n (i # is) count =
     (if int i \<noteq> me rf then
        do { m \<leftarrow> go_nth (matchIndex rf) (int i);
             countReplicas rf n is (if n \<le> m then count + 1 else count) }
      else countReplicas rf n is count)"

function advanceLoop :: "int \<Rightarrow> ('c, 'b) Raft \<Rightarrow> ('c, 'b) Raft option" where
  "advanceLoop n rf =
     (if n \<le> lastLogIndex rf then
        do { t \<leftarrow> logTerm rf n;
             if t \<noteq> currentTerm rf then advanceLoop (n + 1) rf
             else do {
               count \<leftarrow> countReplicas rf n [0..<length (peers rf)] 1;
               advanceLoop (n + 1)
                 (if int (length (peers rf)) div 2 + 1 \<le> count then rf\<lparr>commitIndex := n\<rparr> else rf) } }
      else Some rf)"
  by pat_completeness auto
termination
  by (relation "measure (\<lambda>(n, rf). nat (lastLogIndex rf + 1 - n))") (auto simp: lastLogIndex_def)

declare advanceLoop.simps [simp del]

definition maybeAdvanceCommitIndex :: "('c, 'b) Raft \<Rightarrow> ('c, 'b) Raft option" where
  "maybeAdvanceCommitIndex rf = advanceLoop (commitIndex rf + 1) rf"

text \<open>The search backwards for the last entry of a term; -1 when there is none.\<close>

function findTerm :: "('c, 'b) Raft \<Rightarrow> int \<Rightarrow> int \<Rightarrow> int option" where
  "findTerm rf t j =
     (if lastIncludedIndex rf < j then
        do { tj \<leftarrow> logTerm rf j; if tj = t then Some (j + 1) else findTerm rf t (j - 1) }
      else Some (- 1))"
  by pat_completeness auto
termination
  by (relation "measure (\<lambda>(rf, t, j). nat (j - lastIncludedIndex rf))") auto

declare findTerm.simps [simp del]

definition backUp :: "nat \<Rightarrow> AppendEntriesReply \<Rightarrow> ('c, 'b) Raft \<Rightarrow> ('c, 'b) Raft option" where
  "backUp peer reply rf =
     do {
       ni \<leftarrow> (if aerConflictTerm reply = - 1 then Some (aerConflictIndex reply)
              else do {
                newIndex \<leftarrow> findTerm rf (aerConflictTerm reply) (lastLogIndex rf);
                Some (if newIndex = - 1 then aerConflictIndex reply else newIndex) });
       nx \<leftarrow> go_update (nextIndex rf) (int peer) (if ni < 1 then 1 else ni);
       Some (rf\<lparr>nextIndex := nx\<rparr>) }"

definition onAppendReply ::
    "nat \<Rightarrow> 'c AppendEntriesArgs \<Rightarrow> AppendEntriesReply \<Rightarrow> ('c, 'b) Raft \<Rightarrow> ('c, 'b) Raft option" where
  "onAppendReply peer args reply rf =
     (if state rf \<noteq> leader \<or> currentTerm rf \<noteq> aeTerm args then Some rf
      else
        let rf = (if currentTerm rf < aerTerm reply then stepDown (aerTerm reply) rf else rf) in
        if aerSuccess reply then
          do {
            let newMatch = aePrevLogIndex args + int (length (aeEntries args));
            m \<leftarrow> go_nth (matchIndex rf) (int peer);
            let m' = (if m < newMatch then newMatch else m);
            mx \<leftarrow> go_update (matchIndex rf) (int peer) m';
            nx \<leftarrow> go_update (nextIndex rf) (int peer) (m' + 1);
            maybeAdvanceCommitIndex (rf\<lparr>matchIndex := mx, nextIndex := nx\<rparr>) }
        else backUp peer reply rf)"

definition onSnapshotReply ::
    "nat \<Rightarrow> 'b InstallSnapshotArgs \<Rightarrow> InstallSnapshotReply \<Rightarrow> ('c, 'b) Raft \<Rightarrow> ('c, 'b) Raft option" where
  "onSnapshotReply peer args reply rf =
     (if state rf \<noteq> leader \<or> currentTerm rf \<noteq> isTerm args then Some rf
      else if currentTerm rf < isrTerm reply then Some (stepDown (isrTerm reply) rf)
      else do {
        m \<leftarrow> go_nth (matchIndex rf) (int peer);
        let m' = (if m < isLastIncludedIndex args then isLastIncludedIndex args else m);
        mx \<leftarrow> go_update (matchIndex rf) (int peer) m';
        nx \<leftarrow> go_update (nextIndex rf) (int peer) (m' + 1);
        Some (rf\<lparr>matchIndex := mx, nextIndex := nx\<rparr>) })"


section \<open>Replication: the follower\<close>

function conflictStart :: "('c, 'b) Raft \<Rightarrow> int \<Rightarrow> int \<Rightarrow> int option" where
  "conflictStart rf ct ci =
     (if lastIncludedIndex rf + 1 < ci then
        do { t \<leftarrow> logTerm rf (ci - 1); if t = ct then conflictStart rf ct (ci - 1) else Some ci }
      else Some ci)"
  by pat_completeness auto
termination
  by (relation "measure (\<lambda>(rf, ct, ci). nat (ci - lastIncludedIndex rf))") auto

declare conflictStart.simps [simp del]

fun appendLoop :: "int \<Rightarrow> 'c LogEntry list \<Rightarrow> ('c, 'b) Raft \<Rightarrow> ('c, 'b) Raft option" where
  "appendLoop idx [] rf = Some rf"
| "appendLoop idx (entry # rest) rf =
     (if idx < lastLogIndex rf + 1 then
        do { t \<leftarrow> logTerm rf idx;
             if t \<noteq> eTerm entry then
               do { l \<leftarrow> go_slice_to (log rf) (logIndex rf idx);
                    Some (rf\<lparr>log := l @ entry # rest\<rparr>) }
             else appendLoop (idx + 1) rest rf }
      else Some (rf\<lparr>log := log rf @ entry # rest\<rparr>))"

definition AppendEntries ::
    "int \<Rightarrow> 'c AppendEntriesArgs \<Rightarrow> ('c, 'b) Raft \<Rightarrow> (AppendEntriesReply \<times> ('c, 'b) Raft) option" where
  "AppendEntries now args rf =
     (let reply = \<lparr>aerTerm = currentTerm rf, aerSuccess = False, aerConflictTerm = - 1, aerConflictIndex = 0\<rparr> in
      if aeTerm args < currentTerm rf then Some (reply, rf)
      else
        let rf = persist (rf\<lparr>lastHeartbeat := now, state := follower, currentTerm := aeTerm args\<rparr>);
            reply = reply\<lparr>aerTerm := currentTerm rf\<rparr> in
        if aePrevLogIndex args < lastIncludedIndex rf then
          Some (reply\<lparr>aerConflictIndex := lastIncludedIndex rf + 1\<rparr>, rf)
        else if lastLogIndex rf < aePrevLogIndex args then
          Some (reply\<lparr>aerConflictIndex := lastLogIndex rf + 1\<rparr>, rf)
        else do {
          t \<leftarrow> logTerm rf (aePrevLogIndex args);
          if t \<noteq> aePrevLogTerm args then
            do { ci \<leftarrow> conflictStart rf t (aePrevLogIndex args);
                 Some (reply\<lparr>aerConflictTerm := t, aerConflictIndex := ci\<rparr>, rf) }
          else do {
            rf \<leftarrow> appendLoop (aePrevLogIndex args + 1) (aeEntries args) rf;
            let rf = persist rf;
            let lastNewIndex = aePrevLogIndex args + int (length (aeEntries args));
            let rf = (if commitIndex rf < aeLeaderCommit args then
                        rf\<lparr>commitIndex := (if aeLeaderCommit args < lastNewIndex
                                          then aeLeaderCommit args else lastNewIndex)\<rparr>
                      else rf);
            Some (reply\<lparr>aerSuccess := True\<rparr>, rf) } })"

definition InstallSnapshot ::
    "int \<Rightarrow> 'b InstallSnapshotArgs \<Rightarrow> ('c, 'b) Raft \<Rightarrow> (InstallSnapshotReply \<times> ('c, 'b) Raft) option" where
  "InstallSnapshot now args rf =
     (let reply = \<lparr>isrTerm = currentTerm rf\<rparr> in
      if isTerm args < currentTerm rf then Some (reply, rf)
      else
        let rf = (if currentTerm rf < isTerm args
                  then rf\<lparr>currentTerm := isTerm args, votedFor := - 1\<rparr> else rf);
            rf = rf\<lparr>state := follower, lastHeartbeat := now\<rparr> in
        if isLastIncludedIndex args \<le> lastIncludedIndex rf then Some (reply, rf)
        else do {
          l \<leftarrow> (if isLastIncludedIndex args \<le> lastLogIndex rf
                then go_slice_from (log rf) (logIndex rf (isLastIncludedIndex args))
                else Some [\<lparr>eTerm = isLastIncludedTerm args, eCommand = None\<rparr>]);
          let rf = rf\<lparr>log := l, lastIncludedIndex := isLastIncludedIndex args,
                      lastIncludedTerm := isLastIncludedTerm args\<rparr>;
          let rf = (if commitIndex rf < isLastIncludedIndex args
                    then rf\<lparr>commitIndex := isLastIncludedIndex args\<rparr> else rf);
          let rf = (if lastApplied rf < isLastIncludedIndex args
                    then rf\<lparr>lastApplied := isLastIncludedIndex args\<rparr> else rf);
          let rf = persistWithSnapshot (isData args) rf;
          Some (reply, rf\<lparr>pendingSnapshot :=
            Some \<lparr>CommandValid = False, amCommand = None, CommandIndex = 0, SnapshotValid = True,
                  amSnapshot = isData args, SnapshotTerm = isLastIncludedTerm args,
                  SnapshotIndex = isLastIncludedIndex args\<rparr>\<rparr>) })"


section \<open>The apply loop\<close>

definition commandMsg :: "'c option \<Rightarrow> int \<Rightarrow> ('c, 'b) ApplyMsg" where
  "commandMsg c i =
     \<lparr>CommandValid = True, amCommand = c, CommandIndex = i, SnapshotValid = False,
      amSnapshot = [], SnapshotTerm = 0, SnapshotIndex = 0\<rparr>"

text \<open>The inner loop up to its next send: the message, if any, and the state in which it is sent.\<close>

function applyGap :: "('c, 'b) Raft \<Rightarrow> (('c, 'b) ApplyMsg option \<times> ('c, 'b) Raft) option" where
  "applyGap rf =
     (if lastApplied rf < commitIndex rf then
        (let rf' = rf\<lparr>lastApplied := lastApplied rf + 1\<rparr> in
         if lastApplied rf' \<le> lastIncludedIndex rf' then
           applyGap (rf'\<lparr>lastApplied := lastIncludedIndex rf'\<rparr>)
         else do {
           e \<leftarrow> go_nth (log rf') (logIndex rf' (lastApplied rf'));
           Some (Some (commandMsg (eCommand e) (lastApplied rf')), rf') })
      else Some (None, rf))"
  by pat_completeness auto
termination
  by (relation "measure (\<lambda>rf. nat (commitIndex rf - lastApplied rf))") (auto simp: Let_def)

declare applyGap.simps [simp del]

text \<open>One turn of the outer loop up to its first send.\<close>

definition applyTop :: "('c, 'b) Raft \<Rightarrow> (('c, 'b) ApplyMsg option \<times> ('c, 'b) Raft) option" where
  "applyTop rf =
     (case pendingSnapshot rf of
        Some msg \<Rightarrow> Some (Some msg, rf\<lparr>pendingSnapshot := None\<rparr>)
      | None \<Rightarrow> applyGap rf)"

end
