(* ===== verification/Raft_Local.thy ===== *)
theory Raft_Local
  imports Raft_Node
begin

text \<open>
  Terms, votes and stable storage of one peer (\<open>src/internal/raft/raft.go\<close>).

  \<^item> Field lemmas for the operations that only touch some of the state, and an equation for every
    branch of the handlers \<open>AppendEntries\<close> and \<open>InstallSnapshot\<close>.
  \<^item> \<open>durable\<close> is what a restart would read back from the persister; \<open>Make\<close> restores exactly it.
  \<^item> \<open>event\<close> lists the critical sections of a peer and \<open>handle\<close> runs one of them; no event
    lowers the term or changes a vote within a term, and what a grant promises is on stable
    storage before the reply leaves.
\<close>

section \<open>Frames and the durable state\<close>

lemma persist_fields [simp]:
  "peers (persist rf) = peers rf" "me (persist rf) = me rf" "dead (persist rf) = dead rf"
  "currentTerm (persist rf) = currentTerm rf" "votedFor (persist rf) = votedFor rf"
  "log (persist rf) = log rf" "lastIncludedIndex (persist rf) = lastIncludedIndex rf"
  "lastIncludedTerm (persist rf) = lastIncludedTerm rf" "commitIndex (persist rf) = commitIndex rf"
  "lastApplied (persist rf) = lastApplied rf" "nextIndex (persist rf) = nextIndex rf"
  "matchIndex (persist rf) = matchIndex rf" "state (persist rf) = state rf"
  "lastHeartbeat (persist rf) = lastHeartbeat rf" "pendingSnapshot (persist rf) = pendingSnapshot rf"
  by (simp_all add: persist_def persistWithSnapshot_def)

lemma persistWithSnapshot_fields [simp]:
  "peers (persistWithSnapshot sn rf) = peers rf" "me (persistWithSnapshot sn rf) = me rf"
  "dead (persistWithSnapshot sn rf) = dead rf" "currentTerm (persistWithSnapshot sn rf) = currentTerm rf"
  "votedFor (persistWithSnapshot sn rf) = votedFor rf" "log (persistWithSnapshot sn rf) = log rf"
  "lastIncludedIndex (persistWithSnapshot sn rf) = lastIncludedIndex rf"
  "lastIncludedTerm (persistWithSnapshot sn rf) = lastIncludedTerm rf"
  "commitIndex (persistWithSnapshot sn rf) = commitIndex rf"
  "lastApplied (persistWithSnapshot sn rf) = lastApplied rf"
  "nextIndex (persistWithSnapshot sn rf) = nextIndex rf" "matchIndex (persistWithSnapshot sn rf) = matchIndex rf"
  "state (persistWithSnapshot sn rf) = state rf" "lastHeartbeat (persistWithSnapshot sn rf) = lastHeartbeat rf"
  "pendingSnapshot (persistWithSnapshot sn rf) = pendingSnapshot rf"
  by (simp_all add: persistWithSnapshot_def)

lemma stepDown_fields [simp]:
  "peers (stepDown t rf) = peers rf" "me (stepDown t rf) = me rf" "dead (stepDown t rf) = dead rf"
  "currentTerm (stepDown t rf) = t" "votedFor (stepDown t rf) = - 1" "log (stepDown t rf) = log rf"
  "lastIncludedIndex (stepDown t rf) = lastIncludedIndex rf"
  "lastIncludedTerm (stepDown t rf) = lastIncludedTerm rf" "commitIndex (stepDown t rf) = commitIndex rf"
  "lastApplied (stepDown t rf) = lastApplied rf" "nextIndex (stepDown t rf) = nextIndex rf"
  "matchIndex (stepDown t rf) = matchIndex rf" "state (stepDown t rf) = follower"
  "pendingSnapshot (stepDown t rf) = pendingSnapshot rf"
  by (simp_all add: stepDown_def)

text \<open>The state a restart would read back: the fields of the last save, or those of a first boot.\<close>

definition durable :: "('c, 'b) Raft \<Rightarrow> int \<times> int \<times> 'c LogEntry list \<times> int \<times> int" where
  "durable rf =
     (case decodeState (ReadRaftState (persister rf)) of
        None \<Rightarrow> (0, - 1, [\<lparr>eTerm = 0, eCommand = None\<rparr>], 0, 0)
      | Some s \<Rightarrow> s)"

definition volatileImage :: "('c, 'b) Raft \<Rightarrow> int \<times> int \<times> 'c LogEntry list \<times> int \<times> int" where
  "volatileImage rf =
     (currentTerm rf, votedFor rf, log rf, lastIncludedIndex rf, lastIncludedTerm rf)"

lemma decode_encode: "decodeState (encodeState rf) = Some (volatileImage rf)"
  by (simp add: decodeState_def encodeState_def EncodeInt_def EncodeLog_def volatileImage_def)

lemma encodeState_nonempty [simp]: "encodeState rf \<noteq> []"
  by (simp add: encodeState_def EncodeInt_def)

lemma encodeState_cong:
  "volatileImage rf = volatileImage rf' \<Longrightarrow> encodeState rf = encodeState rf'"
  by (simp add: encodeState_def volatileImage_def)

lemma durable_persist [simp]: "durable (persist rf) = volatileImage rf"
  by (simp add: durable_def persist_def persistWithSnapshot_def decode_encode)

lemma durable_persistWithSnapshot [simp]: "durable (persistWithSnapshot sn rf) = volatileImage rf"
  by (simp add: durable_def persistWithSnapshot_def decode_encode)

lemma durable_cong: "persister rf = persister rf' \<Longrightarrow> durable rf = durable rf'"
  by (simp add: durable_def)

lemma readPersist_durable:
  "volatileImage (Make ps m (persister rf) now) = durable rf"
  by (auto simp: Make_def Let_def readPersist_def durable_def volatileImage_def decodeState_def
      split: option.splits)

lemma Make_fields [simp]:
  "peers (Make ps m pr now) = ps" "me (Make ps m pr now) = m" "persister (Make ps m pr now) = pr"
  "state (Make ps m pr now) = follower" "pendingSnapshot (Make ps m pr now) = None"
  "lastApplied (Make ps m pr now) = lastIncludedIndex (Make ps m pr now)"
  "commitIndex (Make ps m pr now) = lastIncludedIndex (Make ps m pr now)"
  by (auto simp: Make_def Let_def readPersist_def split: option.splits)


section \<open>The log as a sequence of absolute indices\<close>

definition entryAt :: "('c, 'b) Raft \<Rightarrow> int \<Rightarrow> 'c LogEntry option" where
  "entryAt rf i = (if i \<le> lastIncludedIndex rf then None else go_nth (log rf) (logIndex rf i))"

lemma lastLogIndex_cong:
  "lastIncludedIndex rf = lastIncludedIndex rf' \<Longrightarrow> length (log rf) = length (log rf') \<Longrightarrow>
     lastLogIndex rf = lastLogIndex rf'"
  by (simp add: lastLogIndex_def)

lemma logTerm_cong:
  "lastIncludedIndex rf = lastIncludedIndex rf' \<Longrightarrow> lastIncludedTerm rf = lastIncludedTerm rf' \<Longrightarrow>
     log rf = log rf' \<Longrightarrow> logTerm rf i = logTerm rf' i"
  by (simp add: logTerm_def logIndex_def)

lemma logTerm_in_range:
  assumes "lastIncludedIndex rf \<le> i" "i \<le> lastLogIndex rf"
  shows "\<exists>t. logTerm rf i = Some t"
  using assms by (auto simp: logTerm_def logIndex_def lastLogIndex_def go_simps)

lemma logTerm_entryAt: "lastIncludedIndex rf < i \<Longrightarrow> logTerm rf i = map_option eTerm (entryAt rf i)"
  by (cases "go_nth (log rf) (logIndex rf i)") (auto simp: logTerm_def entryAt_def)

lemma entryAt_range: "entryAt rf i = Some e \<Longrightarrow> lastIncludedIndex rf < i \<and> i \<le> lastLogIndex rf"
  by (auto simp: entryAt_def go_nth_Some_iff logIndex_def lastLogIndex_def split: if_splits)

lemma entryAt_in_range:
  assumes "lastIncludedIndex rf < i" "i \<le> lastLogIndex rf"
  shows "entryAt rf i = Some (log rf ! nat (i - lastIncludedIndex rf))"
  using assms by (auto simp: entryAt_def logIndex_def lastLogIndex_def go_simps)

lemma entryAt_cong: "log rf' = log rf \<Longrightarrow> lastIncludedIndex rf' = lastIncludedIndex rf \<Longrightarrow> entryAt rf' k = entryAt rf k"
  by (simp add: entryAt_def logIndex_def)



section \<open>Events of one peer\<close>

text \<open>Every critical section of a peer, as one step on its state.\<close>

datatype ('c, 'b) event =
    EvRequestVote int RequestVoteArgs
  | EvTimeout int int
  | EvVoteReply int RequestVoteReply int
  | EvStart 'c
  | EvAppendEntries int "'c AppendEntriesArgs"
  | EvAppendReply nat "'c AppendEntriesArgs" AppendEntriesReply
  | EvInstallSnapshot int "'b InstallSnapshotArgs"
  | EvSnapshotReply nat "'b InstallSnapshotArgs" InstallSnapshotReply
  | EvSnapshot int "'b list"
  | EvApplyTop
  | EvApplyGap
  | EvKill

fun handle :: "('c, 'b) event \<Rightarrow> ('c, 'b) Raft \<Rightarrow> ('c, 'b) Raft option" where
  "handle (EvRequestVote now args) rf = map_option snd (RequestVote now args rf)"
| "handle (EvTimeout now sleep) rf = map_option fst (electionTimeout now sleep rf)"
| "handle (EvVoteReply t reply votes) rf = Some (fst (onVoteReply t reply votes rf))"
| "handle (EvStart c) rf = Some (snd (Start c rf))"
| "handle (EvAppendEntries now args) rf = map_option snd (AppendEntries now args rf)"
| "handle (EvAppendReply peer args reply) rf = onAppendReply peer args reply rf"
| "handle (EvInstallSnapshot now args) rf = map_option snd (InstallSnapshot now args rf)"
| "handle (EvSnapshotReply peer args reply) rf = onSnapshotReply peer args reply rf"
| "handle (EvSnapshot index sn) rf = Snapshot index sn rf"
| "handle EvApplyTop rf = map_option snd (applyTop rf)"
| "handle EvApplyGap rf = map_option snd (applyGap rf)"
| "handle EvKill rf = Some (Kill rf)"


section \<open>Terms and votes\<close>

lemma appendLoop_frame:
  "appendLoop idx es rf = Some rf' \<Longrightarrow> \<exists>l. rf' = rf\<lparr>log := l\<rparr>"
proof (induction idx es rf rule: appendLoop.induct)
  case (1 idx rf)
  then show ?case by (intro exI [of _ "log rf"]) simp
next
  case (2 idx entry rest rf)
  then show ?case
    by (cases "idx < lastLogIndex rf + 1"; cases "logTerm rf idx")
      (auto simp: bind_Some_conv split: if_splits)
qed

lemma advanceLoop_frame:
  "advanceLoop n rf = Some rf' \<Longrightarrow> \<exists>c. rf' = rf\<lparr>commitIndex := c\<rparr>"
proof (induction n rf arbitrary: rf' rule: advanceLoop.induct)
  case (1 n rf)
  show ?case
  proof (cases "n \<le> lastLogIndex rf")
    case False
    with "1.prems" have "rf' = rf\<lparr>commitIndex := commitIndex rf\<rparr>" by (simp add: advanceLoop.simps [of n rf])
    then show ?thesis ..
  next
    case True
    then show ?thesis using 1
      by (fastforce simp: advanceLoop.simps [of n rf] bind_Some_conv split: if_splits)
  qed
qed

lemma applyGap_frame:
  "applyGap rf = Some (m, rf') \<Longrightarrow> \<exists>a. rf' = rf\<lparr>lastApplied := a\<rparr>"
proof (induction rf arbitrary: m rf' rule: applyGap.induct)
  case (1 rf)
  show ?case
  proof (cases "lastApplied rf < commitIndex rf")
    case False
    with "1.prems" have "rf' = rf\<lparr>lastApplied := lastApplied rf\<rparr>" by (simp add: applyGap.simps [of rf])
    then show ?thesis ..
  next
    case True
    then show ?thesis using 1
      by (fastforce simp: applyGap.simps [of rf] Let_def bind_Some_conv split: if_splits)
  qed
qed

text \<open>
  What no critical section does: lower the term, or change a vote within a term.  What it leaves
  on stable storage: the previous save, or the term and vote it ends with.
\<close>

definition vote_kept :: "('c, 'b) Raft \<Rightarrow> ('c, 'b) Raft \<Rightarrow> bool" where
  "vote_kept rf rf' \<longleftrightarrow>
     currentTerm rf \<le> currentTerm rf'
     \<and> (currentTerm rf' = currentTerm rf \<longrightarrow> votedFor rf \<noteq> - 1 \<longrightarrow> votedFor rf' = votedFor rf)
     \<and> (durable rf' = durable rf \<or>
        fst (durable rf') = currentTerm rf' \<and> fst (snd (durable rf')) = votedFor rf')"

lemma vote_kept_refl [simp]: "vote_kept rf rf"
  by (simp add: vote_kept_def)

lemma vote_kept_same:
  "currentTerm rf' = currentTerm rf \<Longrightarrow> votedFor rf' = votedFor rf \<Longrightarrow> persister rf' = persister rf \<Longrightarrow>
     vote_kept rf rf'"
  by (simp add: vote_kept_def durable_cong [of rf' rf])

lemma durable_fields:
  "durable (rf\<lparr>log := l\<rparr>) = durable rf" "durable (rf\<lparr>commitIndex := c\<rparr>) = durable rf"
  "durable (rf\<lparr>lastHeartbeat := c\<rparr>) = durable rf" "durable (rf\<lparr>state := s\<rparr>) = durable rf"
  "durable (rf\<lparr>pendingSnapshot := p\<rparr>) = durable rf" "durable (rf\<lparr>lastApplied := c\<rparr>) = durable rf"
  "durable (rf\<lparr>currentTerm := c\<rparr>) = durable rf" "durable (rf\<lparr>votedFor := c\<rparr>) = durable rf"
  "durable (rf\<lparr>nextIndex := x\<rparr>) = durable rf" "durable (rf\<lparr>matchIndex := x\<rparr>) = durable rf"
  by (simp_all add: durable_def)

lemma durable_stepDown [simp]:
  "durable (stepDown t rf) = (t, - 1, log rf, lastIncludedIndex rf, lastIncludedTerm rf)"
  by (simp add: stepDown_def volatileImage_def)

lemma RequestVote_vote_kept: "RequestVote now args rf = Some (reply, rf') \<Longrightarrow> vote_kept rf rf'"
  by (auto simp: RequestVote_def Let_def bind_Some_conv vote_kept_def durable_fields volatileImage_def
      split: if_splits)

lemma startElection_vote_kept: "startElection rf = Some (rf', reqs) \<Longrightarrow> vote_kept rf rf'"
  by (auto simp: startElection_def Let_def bind_Some_conv vote_kept_def durable_fields volatileImage_def
      split: if_splits)

lemma onVoteReply_vote_kept: "onVoteReply t reply votes rf = (rf', votes') \<Longrightarrow> vote_kept rf rf'"
  by (auto simp: onVoteReply_def vote_kept_def becomeLeader_def durable_fields split: if_splits)

lemma Start_vote_kept: "Start c rf = (r, rf') \<Longrightarrow> vote_kept rf rf'"
  by (auto simp: Start_def Let_def vote_kept_def durable_fields volatileImage_def split: if_splits)

text \<open>The branches of the two replication handlers.\<close>

definition aeAccepted :: "int \<Rightarrow> 'c AppendEntriesArgs \<Rightarrow> ('c, 'b) Raft \<Rightarrow> ('c, 'b) Raft" where
  "aeAccepted now args rf =
     persist (rf\<lparr>lastHeartbeat := now, state := follower, currentTerm := aeTerm args\<rparr>)"

definition aeCommitted :: "'c AppendEntriesArgs \<Rightarrow> ('c, 'b) Raft \<Rightarrow> ('c, 'b) Raft" where
  "aeCommitted args rf =
     (if commitIndex rf < aeLeaderCommit args then
        rf\<lparr>commitIndex := min (aeLeaderCommit args) (aePrevLogIndex args + int (length (aeEntries args)))\<rparr>
      else rf)"

lemma aeAccepted_fields [simp]:
  "peers (aeAccepted now args rf) = peers rf" "me (aeAccepted now args rf) = me rf"
  "currentTerm (aeAccepted now args rf) = aeTerm args" "votedFor (aeAccepted now args rf) = votedFor rf"
  "log (aeAccepted now args rf) = log rf" "lastIncludedIndex (aeAccepted now args rf) = lastIncludedIndex rf"
  "lastIncludedTerm (aeAccepted now args rf) = lastIncludedTerm rf"
  "commitIndex (aeAccepted now args rf) = commitIndex rf" "lastApplied (aeAccepted now args rf) = lastApplied rf"
  "nextIndex (aeAccepted now args rf) = nextIndex rf" "matchIndex (aeAccepted now args rf) = matchIndex rf"
  "state (aeAccepted now args rf) = follower" "pendingSnapshot (aeAccepted now args rf) = pendingSnapshot rf"
  "lastLogIndex (aeAccepted now args rf) = lastLogIndex rf"
  "logTerm (aeAccepted now args rf) i = logTerm rf i"
  "durable (aeAccepted now args rf) = (aeTerm args, votedFor rf, log rf, lastIncludedIndex rf, lastIncludedTerm rf)"
  by (simp_all add: aeAccepted_def lastLogIndex_def logTerm_def logIndex_def volatileImage_def)

lemma aeCommitted_fields [simp]:
  "peers (aeCommitted args rf) = peers rf" "me (aeCommitted args rf) = me rf"
  "currentTerm (aeCommitted args rf) = currentTerm rf" "votedFor (aeCommitted args rf) = votedFor rf"
  "log (aeCommitted args rf) = log rf" "lastIncludedIndex (aeCommitted args rf) = lastIncludedIndex rf"
  "lastIncludedTerm (aeCommitted args rf) = lastIncludedTerm rf" "lastApplied (aeCommitted args rf) = lastApplied rf"
  "nextIndex (aeCommitted args rf) = nextIndex rf" "matchIndex (aeCommitted args rf) = matchIndex rf"
  "state (aeCommitted args rf) = state rf" "persister (aeCommitted args rf) = persister rf"
  "pendingSnapshot (aeCommitted args rf) = pendingSnapshot rf" "durable (aeCommitted args rf) = durable rf"
  "lastLogIndex (aeCommitted args rf) = lastLogIndex rf"
  by (simp_all add: aeCommitted_def durable_fields lastLogIndex_def)

definition aeReply :: "int \<Rightarrow> bool \<Rightarrow> int \<Rightarrow> int \<Rightarrow> AppendEntriesReply" where
  "aeReply t ok ct ci = \<lparr>aerTerm = t, aerSuccess = ok, aerConflictTerm = ct, aerConflictIndex = ci\<rparr>"

lemma aeReply_fields [simp]:
  "aerTerm (aeReply t ok ct ci) = t" "aerSuccess (aeReply t ok ct ci) = ok"
  "aerConflictTerm (aeReply t ok ct ci) = ct" "aerConflictIndex (aeReply t ok ct ci) = ci"
  by (simp_all add: aeReply_def)

lemma AppendEntries_stale:
  "aeTerm args < currentTerm rf \<Longrightarrow>
     AppendEntries now args rf = Some (aeReply (currentTerm rf) False (- 1) 0, rf)"
  by (simp add: AppendEntries_def aeReply_def)

lemma AppendEntries_behind:
  "currentTerm rf \<le> aeTerm args \<Longrightarrow> aePrevLogIndex args < lastIncludedIndex rf \<Longrightarrow>
     AppendEntries now args rf
       = Some (aeReply (aeTerm args) False (- 1) (lastIncludedIndex rf + 1), aeAccepted now args rf)"
  by (simp add: AppendEntries_def aeReply_def aeAccepted_def)

lemma AppendEntries_short:
  "currentTerm rf \<le> aeTerm args \<Longrightarrow> lastIncludedIndex rf \<le> aePrevLogIndex args \<Longrightarrow>
     lastLogIndex rf < aePrevLogIndex args \<Longrightarrow>
     AppendEntries now args rf
       = Some (aeReply (aeTerm args) False (- 1) (lastLogIndex rf + 1), aeAccepted now args rf)"
  unfolding AppendEntries_def aeAccepted_def [symmetric] Let_def by (simp add: aeReply_def)

lemma AppendEntries_mismatch:
  "currentTerm rf \<le> aeTerm args \<Longrightarrow> lastIncludedIndex rf \<le> aePrevLogIndex args \<Longrightarrow>
     aePrevLogIndex args \<le> lastLogIndex rf \<Longrightarrow> logTerm rf (aePrevLogIndex args) = Some t \<Longrightarrow>
     t \<noteq> aePrevLogTerm args \<Longrightarrow>
     AppendEntries now args rf
       = do { ci \<leftarrow> conflictStart (aeAccepted now args rf) t (aePrevLogIndex args);
              Some (aeReply (aeTerm args) False t ci, aeAccepted now args rf) }"
  unfolding AppendEntries_def aeAccepted_def [symmetric] Let_def by (simp add: aeReply_def)

lemma AppendEntries_match:
  "currentTerm rf \<le> aeTerm args \<Longrightarrow> lastIncludedIndex rf \<le> aePrevLogIndex args \<Longrightarrow>
     aePrevLogIndex args \<le> lastLogIndex rf \<Longrightarrow> logTerm rf (aePrevLogIndex args) = Some (aePrevLogTerm args) \<Longrightarrow>
     AppendEntries now args rf
       = do { rf1 \<leftarrow> appendLoop (aePrevLogIndex args + 1) (aeEntries args) (aeAccepted now args rf);
              Some (aeReply (aeTerm args) True (- 1) 0, aeCommitted args (persist rf1)) }"
  unfolding AppendEntries_def aeAccepted_def [symmetric] Let_def aeCommitted_def
  by (simp add: aeReply_def min_def cong: if_cong)

lemmas AppendEntries_branches =
  AppendEntries_stale AppendEntries_behind AppendEntries_short AppendEntries_mismatch AppendEntries_match

lemma AppendEntries_cases:
  assumes "AppendEntries now args rf = Some (reply, rf')"
  obtains (stale) "aeTerm args < currentTerm rf" "rf' = rf" "\<not> aerSuccess reply" "aerTerm reply = currentTerm rf"
  | (rejected) "currentTerm rf \<le> aeTerm args" "rf' = aeAccepted now args rf" "\<not> aerSuccess reply"
      "aerTerm reply = aeTerm args"
  | (appended) l where "currentTerm rf \<le> aeTerm args" "lastIncludedIndex rf \<le> aePrevLogIndex args"
      "aePrevLogIndex args \<le> lastLogIndex rf" "logTerm rf (aePrevLogIndex args) = Some (aePrevLogTerm args)"
      "appendLoop (aePrevLogIndex args + 1) (aeEntries args) (aeAccepted now args rf)
         = Some ((aeAccepted now args rf)\<lparr>log := l\<rparr>)"
      "rf' = aeCommitted args (persist ((aeAccepted now args rf)\<lparr>log := l\<rparr>))" "aerSuccess reply"
      "aerTerm reply = aeTerm args"
proof -
  consider "aeTerm args < currentTerm rf"
    | "currentTerm rf \<le> aeTerm args" "aePrevLogIndex args < lastIncludedIndex rf"
    | "currentTerm rf \<le> aeTerm args" "lastIncludedIndex rf \<le> aePrevLogIndex args"
      "lastLogIndex rf < aePrevLogIndex args"
    | t where "currentTerm rf \<le> aeTerm args" "lastIncludedIndex rf \<le> aePrevLogIndex args"
      "aePrevLogIndex args \<le> lastLogIndex rf" "logTerm rf (aePrevLogIndex args) = Some t"
    using logTerm_in_range [of rf "aePrevLogIndex args"] by force
  then show ?thesis
  proof cases
    case 1
    with assms show ?thesis by (intro stale) (auto simp: AppendEntries_stale)
  next
    case 2
    with assms show ?thesis by (intro rejected) (auto simp: AppendEntries_behind)
  next
    case 3
    with assms show ?thesis by (intro rejected) (auto simp: AppendEntries_short)
  next
    case 4
    show ?thesis
    proof (cases "t = aePrevLogTerm args")
      case True
      with 4 assms obtain rf1 where
        "appendLoop (aePrevLogIndex args + 1) (aeEntries args) (aeAccepted now args rf) = Some rf1"
        "rf' = aeCommitted args (persist rf1)" "aerSuccess reply" "aerTerm reply = aeTerm args"
        by (auto simp: AppendEntries_match bind_Some_conv)
      with appendLoop_frame [OF this(1)] 4 True appended show ?thesis by blast
    next
      case False
      with 4 assms show ?thesis by (intro rejected) (auto simp: AppendEntries_mismatch bind_Some_conv)
    qed
  qed
qed

definition isAccepted :: "int \<Rightarrow> 'b InstallSnapshotArgs \<Rightarrow> ('c, 'b) Raft \<Rightarrow> ('c, 'b) Raft" where
  "isAccepted now args rf =
     (if currentTerm rf < isTerm args then rf\<lparr>currentTerm := isTerm args, votedFor := - 1\<rparr> else rf)
       \<lparr>state := follower, lastHeartbeat := now\<rparr>"

definition isInstalled :: "'b InstallSnapshotArgs \<Rightarrow> 'c LogEntry list \<Rightarrow> ('c, 'b) Raft \<Rightarrow> ('c, 'b) Raft" where
  "isInstalled args l rf =
     rf\<lparr>log := l, lastIncludedIndex := isLastIncludedIndex args, lastIncludedTerm := isLastIncludedTerm args,
        commitIndex := max (commitIndex rf) (isLastIncludedIndex args),
        lastApplied := max (lastApplied rf) (isLastIncludedIndex args)\<rparr>"

definition snapshotMsg :: "'b InstallSnapshotArgs \<Rightarrow> ('c, 'b) ApplyMsg" where
  "snapshotMsg args =
     \<lparr>CommandValid = False, amCommand = None, CommandIndex = 0, SnapshotValid = True,
      amSnapshot = isData args, SnapshotTerm = isLastIncludedTerm args,
      SnapshotIndex = isLastIncludedIndex args\<rparr>"

lemma isAccepted_fields [simp]:
  "peers (isAccepted now args rf) = peers rf" "me (isAccepted now args rf) = me rf"
  "currentTerm (isAccepted now args rf) = max (currentTerm rf) (isTerm args)"
  "votedFor (isAccepted now args rf) = (if currentTerm rf < isTerm args then - 1 else votedFor rf)"
  "log (isAccepted now args rf) = log rf" "lastIncludedIndex (isAccepted now args rf) = lastIncludedIndex rf"
  "lastIncludedTerm (isAccepted now args rf) = lastIncludedTerm rf"
  "commitIndex (isAccepted now args rf) = commitIndex rf" "lastApplied (isAccepted now args rf) = lastApplied rf"
  "nextIndex (isAccepted now args rf) = nextIndex rf" "matchIndex (isAccepted now args rf) = matchIndex rf"
  "state (isAccepted now args rf) = follower" "persister (isAccepted now args rf) = persister rf"
  "pendingSnapshot (isAccepted now args rf) = pendingSnapshot rf" "durable (isAccepted now args rf) = durable rf"
  "lastLogIndex (isAccepted now args rf) = lastLogIndex rf" "logIndex (isAccepted now args rf) i = logIndex rf i"
  by (simp_all add: isAccepted_def durable_fields lastLogIndex_def logIndex_def)

lemma InstallSnapshot_stale:
  "isTerm args < currentTerm rf \<Longrightarrow> InstallSnapshot now args rf = Some (\<lparr>isrTerm = currentTerm rf\<rparr>, rf)"
  by (simp add: InstallSnapshot_def)

lemma InstallSnapshot_outdated:
  "currentTerm rf \<le> isTerm args \<Longrightarrow> isLastIncludedIndex args \<le> lastIncludedIndex rf \<Longrightarrow>
     InstallSnapshot now args rf = Some (\<lparr>isrTerm = currentTerm rf\<rparr>, isAccepted now args rf)"
  by (simp add: InstallSnapshot_def isAccepted_def)

definition isKeptLog :: "'b InstallSnapshotArgs \<Rightarrow> ('c, 'b) Raft \<Rightarrow> 'c LogEntry list" where
  "isKeptLog args rf =
     (if isLastIncludedIndex args \<le> lastLogIndex rf
      then drop (nat (isLastIncludedIndex args - lastIncludedIndex rf)) (log rf)
      else [\<lparr>eTerm = isLastIncludedTerm args, eCommand = None\<rparr>])"

lemma isInstalled_eq:
  "(let rf = rf\<lparr>log := l, lastIncludedIndex := isLastIncludedIndex args,
                lastIncludedTerm := isLastIncludedTerm args\<rparr>;
        rf = (if commitIndex rf < isLastIncludedIndex args
              then rf\<lparr>commitIndex := isLastIncludedIndex args\<rparr> else rf)
    in (if lastApplied rf < isLastIncludedIndex args
        then rf\<lparr>lastApplied := isLastIncludedIndex args\<rparr> else rf)) = isInstalled args l rf"
  by (cases rf) (simp add: isInstalled_def Let_def max_def)

lemma InstallSnapshot_eq:
  "InstallSnapshot now args rf =
     (if isTerm args < currentTerm rf then Some (\<lparr>isrTerm = currentTerm rf\<rparr>, rf)
      else if isLastIncludedIndex args \<le> lastIncludedIndex (isAccepted now args rf)
      then Some (\<lparr>isrTerm = currentTerm rf\<rparr>, isAccepted now args rf)
      else do {
        l \<leftarrow> (if isLastIncludedIndex args \<le> lastLogIndex (isAccepted now args rf)
              then go_slice_from (log (isAccepted now args rf))
                     (logIndex (isAccepted now args rf) (isLastIncludedIndex args))
              else Some [\<lparr>eTerm = isLastIncludedTerm args, eCommand = None\<rparr>]);
        Some (\<lparr>isrTerm = currentTerm rf\<rparr>,
          (persistWithSnapshot (isData args) (isInstalled args l (isAccepted now args rf)))
            \<lparr>pendingSnapshot := Some (snapshotMsg args)\<rparr>) })"
  unfolding InstallSnapshot_def isAccepted_def snapshotMsg_def isInstalled_eq [symmetric] Let_def
  by (rule refl)

lemma InstallSnapshot_installed:
  assumes "currentTerm rf \<le> isTerm args" "lastIncludedIndex rf < isLastIncludedIndex args"
  shows "InstallSnapshot now args rf =
     Some (\<lparr>isrTerm = currentTerm rf\<rparr>,
           (persistWithSnapshot (isData args) (isInstalled args (isKeptLog args rf) (isAccepted now args rf)))
             \<lparr>pendingSnapshot := Some (snapshotMsg args)\<rparr>)"
proof -
  have "(if isLastIncludedIndex args \<le> lastLogIndex rf
         then go_slice_from (log rf) (logIndex rf (isLastIncludedIndex args))
         else Some [\<lparr>eTerm = isLastIncludedTerm args, eCommand = None\<rparr>]) = Some (isKeptLog args rf)"
    using assms(2) by (auto simp: isKeptLog_def logIndex_def lastLogIndex_def go_simps)
  with assms show ?thesis by (auto simp: InstallSnapshot_eq split: if_splits)
qed

lemma InstallSnapshot_cases:
  assumes "InstallSnapshot now args rf = Some (reply, rf')"
  obtains (stale) "isTerm args < currentTerm rf" "rf' = rf"
  | (outdated) "currentTerm rf \<le> isTerm args" "isLastIncludedIndex args \<le> lastIncludedIndex rf"
      "rf' = isAccepted now args rf"
  | (installed) "currentTerm rf \<le> isTerm args" "lastIncludedIndex rf < isLastIncludedIndex args"
      "rf' = (persistWithSnapshot (isData args)
         (isInstalled args (isKeptLog args rf) (isAccepted now args rf)))
           \<lparr>pendingSnapshot := Some (snapshotMsg args)\<rparr>"
proof -
  consider "isTerm args < currentTerm rf"
    | "currentTerm rf \<le> isTerm args" "isLastIncludedIndex args \<le> lastIncludedIndex rf"
    | "currentTerm rf \<le> isTerm args" "lastIncludedIndex rf < isLastIncludedIndex args"
    by linarith
  then show ?thesis
  proof cases
    case 1
    with assms show ?thesis by (intro stale) (simp_all add: InstallSnapshot_stale)
  next
    case 2
    with assms show ?thesis by (intro outdated) (simp_all add: InstallSnapshot_outdated)
  next
    case 3
    with assms show ?thesis by (intro installed) (simp_all add: InstallSnapshot_installed)
  qed
qed

lemma AppendEntries_vote_kept: "AppendEntries now args rf = Some (reply, rf') \<Longrightarrow> vote_kept rf rf'"
  by (erule AppendEntries_cases) (simp_all add: vote_kept_def durable_fields volatileImage_def)

lemma InstallSnapshot_vote_kept: "InstallSnapshot now args rf = Some (reply, rf') \<Longrightarrow> vote_kept rf rf'"
  by (erule InstallSnapshot_cases)
    (simp_all add: vote_kept_def durable_fields volatileImage_def isInstalled_def)

lemma backUp_frame: "backUp peer reply rf = Some rf' \<Longrightarrow> \<exists>nx. rf' = rf\<lparr>nextIndex := nx\<rparr>"
  by (auto simp: backUp_def bind_Some_conv)

lemma onAppendReply_frame:
  assumes "onAppendReply peer args reply rf = Some rf'"
  obtains (kept) mx nx c where "rf' = rf\<lparr>matchIndex := mx, nextIndex := nx, commitIndex := c\<rparr>"
  | (down) mx nx c where "currentTerm rf < aerTerm reply"
      "rf' = (stepDown (aerTerm reply) rf)\<lparr>matchIndex := mx, nextIndex := nx, commitIndex := c\<rparr>"
proof (cases "state rf \<noteq> leader \<or> currentTerm rf \<noteq> aeTerm args")
  case True
  with assms have "rf' = rf\<lparr>matchIndex := matchIndex rf, nextIndex := nextIndex rf, commitIndex := commitIndex rf\<rparr>"
    by (simp add: onAppendReply_def)
  then show ?thesis by (rule kept)
next
  case False
  define rf1 where "rf1 = (if aeTerm args < aerTerm reply then stepDown (aerTerm reply) rf else rf)"
  have "\<exists>mx nx c. rf' = rf1\<lparr>matchIndex := mx, nextIndex := nx, commitIndex := c\<rparr>"
  proof (cases "aerSuccess reply")
    case True
    with False assms obtain mx nx where
      "maybeAdvanceCommitIndex (rf1\<lparr>matchIndex := mx, nextIndex := nx\<rparr>) = Some rf'"
      by (auto simp: onAppendReply_def rf1_def [symmetric] Let_def bind_Some_conv)
    then obtain c where "rf' = rf1\<lparr>matchIndex := mx, nextIndex := nx\<rparr>\<lparr>commitIndex := c\<rparr>"
      using advanceLoop_frame by (fastforce simp: maybeAdvanceCommitIndex_def)
    then show ?thesis by blast
  next
    case failed: False
    with False assms have "backUp peer reply rf1 = Some rf'"
      by (auto simp: onAppendReply_def rf1_def [symmetric] Let_def)
    then obtain nx where "rf' = rf1\<lparr>nextIndex := nx\<rparr>" using backUp_frame by blast
    then have "rf' = rf1\<lparr>matchIndex := matchIndex rf1, nextIndex := nx, commitIndex := commitIndex rf1\<rparr>"
      by simp
    then show ?thesis by blast
  qed
  then obtain mx nx c where eq: "rf' = rf1\<lparr>matchIndex := mx, nextIndex := nx, commitIndex := c\<rparr>" by blast
  show ?thesis
  proof (cases "aeTerm args < aerTerm reply")
    case True
    with eq have "rf' = (stepDown (aerTerm reply) rf)\<lparr>matchIndex := mx, nextIndex := nx, commitIndex := c\<rparr>"
      by (simp add: rf1_def)
    with True False show ?thesis by (intro down) simp_all
  next
    case False
    with eq have "rf' = rf\<lparr>matchIndex := mx, nextIndex := nx, commitIndex := c\<rparr>" by (simp add: rf1_def)
    then show ?thesis by (rule kept)
  qed
qed

lemma onAppendReply_vote_kept: "onAppendReply peer args reply rf = Some rf' \<Longrightarrow> vote_kept rf rf'"
  by (erule onAppendReply_frame) (simp_all add: vote_kept_def durable_fields)

lemma onSnapshotReply_frame:
  assumes "onSnapshotReply peer args reply rf = Some rf'"
  obtains (kept) mx nx where "rf' = rf\<lparr>matchIndex := mx, nextIndex := nx\<rparr>"
  | (down) "currentTerm rf < isrTerm reply" "rf' = stepDown (isrTerm reply) rf"
proof (cases "state rf \<noteq> leader \<or> currentTerm rf \<noteq> isTerm args")
  case True
  with assms have "rf' = rf\<lparr>matchIndex := matchIndex rf, nextIndex := nextIndex rf\<rparr>"
    by (simp add: onSnapshotReply_def)
  then show ?thesis by (rule kept)
next
  case False
  show ?thesis
  proof (cases "currentTerm rf < isrTerm reply")
    case True
    with False assms show ?thesis by (intro down) (simp_all add: onSnapshotReply_def)
  next
    case up: False
    with False assms have "\<exists>mx nx. rf' = rf\<lparr>matchIndex := mx, nextIndex := nx\<rparr>"
      by (auto simp: onSnapshotReply_def Let_def bind_Some_conv)
    with kept show ?thesis by blast
  qed
qed

lemma onSnapshotReply_vote_kept: "onSnapshotReply peer args reply rf = Some rf' \<Longrightarrow> vote_kept rf rf'"
  by (erule onSnapshotReply_frame) (simp_all add: vote_kept_def durable_fields)

lemma Snapshot_vote_kept: "Snapshot index sn rf = Some rf' \<Longrightarrow> vote_kept rf rf'"
  by (auto simp: Snapshot_def bind_Some_conv vote_kept_def volatileImage_def split: if_splits)

lemma applyGap_vote_kept: "applyGap rf = Some (m, rf') \<Longrightarrow> vote_kept rf rf'"
  by (drule applyGap_frame) (auto intro: vote_kept_same)

lemma applyTop_vote_kept: "applyTop rf = Some (m, rf') \<Longrightarrow> vote_kept rf rf'"
  by (auto simp: applyTop_def intro: vote_kept_same applyGap_vote_kept split: option.splits)

lemmas vote_kept_rules =
  RequestVote_vote_kept startElection_vote_kept onVoteReply_vote_kept Start_vote_kept
  AppendEntries_vote_kept InstallSnapshot_vote_kept onAppendReply_vote_kept onSnapshotReply_vote_kept
  Snapshot_vote_kept applyGap_vote_kept applyTop_vote_kept

lemma handle_vote_kept: "handle ev rf = Some rf' \<Longrightarrow> vote_kept rf rf'"
proof (cases ev)
  case (EvTimeout now sleep)
  moreover assume "handle ev rf = Some rf'"
  ultimately show ?thesis
    by (auto simp: electionTimeout_def intro: startElection_vote_kept split: if_splits)
next
  case (EvVoteReply t reply votes)
  moreover assume "handle ev rf = Some rf'"
  ultimately show ?thesis using onVoteReply_vote_kept [of t reply votes rf] by (metis handle.simps(3) option.inject prod.collapse)
next
  case (EvStart c)
  moreover assume "handle ev rf = Some rf'"
  ultimately show ?thesis using Start_vote_kept [of c rf] by (metis handle.simps(4) option.inject prod.collapse)
next
  case EvKill
  moreover assume "handle ev rf = Some rf'"
  ultimately show ?thesis by (auto simp: Kill_def intro: vote_kept_same)
qed (auto intro: vote_kept_rules)


section \<open>Sequences of events\<close>

primrec handles :: "('c, 'b) event list \<Rightarrow> ('c, 'b) Raft \<Rightarrow> ('c, 'b) Raft option" where
  "handles [] rf = Some rf"
| "handles (ev # evs) rf = do { rf' \<leftarrow> handle ev rf; handles evs rf' }"

text \<open>A vote is a pair of a term and a candidate; this one cannot be taken back.\<close>

lemma handles_term_mono: "handles evs rf = Some rf' \<Longrightarrow> currentTerm rf \<le> currentTerm rf'"
  by (induction evs arbitrary: rf)
    (fastforce simp: bind_Some_conv vote_kept_def dest: handle_vote_kept intro: order_trans)+

lemma handles_vote:
  "handles evs rf = Some rf' \<Longrightarrow> currentTerm rf' = currentTerm rf \<Longrightarrow> votedFor rf \<noteq> - 1 \<Longrightarrow>
     votedFor rf' = votedFor rf"
proof (induction evs arbitrary: rf)
  case (Cons ev evs)
  then obtain rf1 where step: "handle ev rf = Some rf1" and rest: "handles evs rf1 = Some rf'"
    by (auto simp: bind_Some_conv)
  have kept: "vote_kept rf rf1" using step by (rule handle_vote_kept)
  then have "currentTerm rf \<le> currentTerm rf1" by (simp add: vote_kept_def)
  with handles_term_mono [OF rest] Cons.prems(2) have "currentTerm rf1 = currentTerm rf" by simp
  with kept Cons.prems have "votedFor rf1 = votedFor rf" "currentTerm rf' = currentTerm rf1"
    by (simp_all add: vote_kept_def)
  with Cons.IH [OF rest] Cons.prems show ?case by simp
qed simp

text \<open>
  C23: Whatever a peer handles, its term never decreases, and while the term stays the same a vote
  once given stays with the same candidate.
\<close>

theorem vote_is_final:
  assumes "handles evs rf = Some rf'"
  shows "currentTerm rf \<le> currentTerm rf' \<and>
    (currentTerm rf' = currentTerm rf \<and> votedFor rf \<noteq> - 1 \<longrightarrow> votedFor rf' = votedFor rf)"
  using assms handles_term_mono handles_vote by blast

definition bootedPeer :: "int \<Rightarrow> (nat, nat) Raft" where
  "bootedPeer m = Make (replicate 3 (NewPeer ''localhost:7000'')) m MakePersister 0"

definition voteCall :: "int \<Rightarrow> int \<Rightarrow> RequestVoteArgs" where
  "voteCall t c = \<lparr>rvTerm = t, rvCandidateId = c, rvLastLogIndex = 0, rvLastLogTerm = 0\<rparr>"

text \<open>A peer votes for candidate 1 in term 1 and refuses candidate 2 in the same term.\<close>

theorem vote_is_final_witness:
  "\<exists>rf'. handles [EvRequestVote 5 (voteCall 1 1), EvRequestVote 6 (voteCall 1 2)] (bootedPeer 0) = Some rf'
     \<and> currentTerm (bootedPeer 0) \<le> currentTerm rf' \<and> votedFor rf' = 1"
proof -
  let ?evs = "[EvRequestVote 5 (voteCall 1 1), EvRequestVote 6 (voteCall 1 2)]"
  have "map_option votedFor (handles ?evs (bootedPeer 0)) = Some 1"
    by (simp add: bootedPeer_def voteCall_def Make_def readPersist_def RequestVote_def Let_def
        stepDown_def lastLogIndex_def logTerm_def)
  then obtain rf' where "handles ?evs (bootedPeer 0) = Some rf'" "votedFor rf' = 1" by auto
  with vote_is_final [OF this(1)] show ?thesis by blast
qed

text \<open>
  C24: When a peer grants its vote, the vote and the term are already on stable storage: a peer
  restarted from its persister (on the same node or with other start-up parameters) is a follower
  in that term which has voted for that candidate, with the log the granting peer had.
\<close>

theorem granted_vote_survives_restart:
  assumes "RequestVote now args rf = Some (reply, rf')" and "rvrVoteGranted reply"
  shows "volatileImage (Make ps m (persister rf') now')
           = (rvTerm args, rvCandidateId args, log rf, lastIncludedIndex rf, lastIncludedTerm rf)
         \<and> state (Make ps m (persister rf') now') = follower"
  using assms unfolding readPersist_durable
  by (auto simp: RequestVote_def Let_def bind_Some_conv durable_fields volatileImage_def split: if_splits)

theorem granted_vote_survives_restart_witness:
  "\<exists>reply rf'. RequestVote 5 (voteCall 1 1) (bootedPeer 0) = Some (reply, rf') \<and> rvrVoteGranted reply
     \<and> volatileImage (Make (peers rf') 0 (persister rf') 9) = (1, 1, log (bootedPeer 0), 0, 0)"
proof -
  have "\<exists>reply rf'. RequestVote 5 (voteCall 1 1) (bootedPeer 0) = Some (reply, rf') \<and> rvrVoteGranted reply
      \<and> lastIncludedIndex (bootedPeer 0) = 0 \<and> lastIncludedTerm (bootedPeer 0) = 0"
    by (simp add: bootedPeer_def voteCall_def Make_def readPersist_def RequestVote_def Let_def
        stepDown_def lastLogIndex_def logTerm_def)
  then obtain reply rf' where *: "RequestVote 5 (voteCall 1 1) (bootedPeer 0) = Some (reply, rf')"
    "rvrVoteGranted reply" "lastIncludedIndex (bootedPeer 0) = 0" "lastIncludedTerm (bootedPeer 0) = 0"
    by blast
  with granted_vote_survives_restart [OF *(1,2), of "peers rf'" 0 9] show ?thesis
    by (auto simp: voteCall_def)
qed

lemma logTerm_last: "log rf \<noteq> [] \<Longrightarrow> \<exists>t. logTerm rf (lastLogIndex rf) = Some t"
  by (rule logTerm_in_range) (auto simp: lastLogIndex_def Suc_le_eq)

definition upToDate :: "RequestVoteArgs \<Rightarrow> int \<Rightarrow> int \<Rightarrow> bool" where
  "upToDate args lastIndex lastTerm \<longleftrightarrow>
     (lastTerm, lastIndex) = (rvLastLogTerm args, rvLastLogIndex args) \<or>
     lastTerm < rvLastLogTerm args \<or> lastTerm = rvLastLogTerm args \<and> lastIndex < rvLastLogIndex args"

text \<open>
  A vote is granted exactly when the request is not from an older term, the peer has no vote
  for another candidate in the request's term, and the candidate's log is at least as up to date
  as its own (a later last term, or the same last term and at least the same length).
\<close>

theorem RequestVote_grants_iff:
  assumes "log rf \<noteq> []"
  shows "\<exists>reply rf' lastTerm. RequestVote now args rf = Some (reply, rf')
    \<and> logTerm rf (lastLogIndex rf) = Some lastTerm
    \<and> (rvrVoteGranted reply \<longleftrightarrow>
         currentTerm rf \<le> rvTerm args
         \<and> (currentTerm rf < rvTerm args \<or> votedFor rf = - 1 \<or> votedFor rf = rvCandidateId args)
         \<and> upToDate args (lastLogIndex rf) lastTerm)"
proof -
  obtain t where t: "logTerm rf (lastLogIndex rf) = Some t" using logTerm_last [OF assms] ..
  have same: "lastLogIndex (stepDown x rf) = lastLogIndex rf" "logTerm (stepDown x rf) i = logTerm rf i" for x i
    by (simp_all add: lastLogIndex_def logTerm_def logIndex_def)
  show ?thesis
    using t by (auto simp: RequestVote_def Let_def same upToDate_def)
qed

theorem RequestVote_grants_iff_witness:
  "log (bootedPeer 0) \<noteq> [] \<and>
   (\<exists>reply rf'. RequestVote 5 (voteCall 1 1) (bootedPeer 0) = Some (reply, rf') \<and> rvrVoteGranted reply)"
proof -
  have log: "log (bootedPeer 0) \<noteq> []" and t: "logTerm (bootedPeer 0) (lastLogIndex (bootedPeer 0)) = Some 0"
    and f: "currentTerm (bootedPeer 0) = 0" "lastLogIndex (bootedPeer 0) = 0"
    by (simp_all add: bootedPeer_def Make_def readPersist_def logTerm_def lastLogIndex_def)
  with RequestVote_grants_iff [OF log, of 5 "voteCall 1 1"] show ?thesis
    by (auto simp: voteCall_def upToDate_def)
qed

end
