(* ===== verification/Raft_Log.thy ===== *)
theory Raft_Log
  imports Raft_Local
begin

text \<open>
  The log of one peer (\<open>src/internal/raft/raft.go\<close>).

  \<^item> \<open>merge_log\<close> is a reference for the append loop of \<open>AppendEntries\<close>, and
    \<open>appendLoop_merge\<close> shows the loop computes it.
  \<^item> Specifications of the searches \<open>conflictStart\<close> and \<open>findTerm\<close>, and of
    \<open>maybeAdvanceCommitIndex\<close> in terms of majorities of replicas.
  \<^item> The invariant \<open>wf_raft\<close>: every critical section preserves it and none panics, given
    what \<open>event_ok\<close> says of the other parties.
\<close>

section \<open>Appending entries\<close>

text \<open>
  The reference for the loop of \<open>AppendEntries\<close>: walk the leader's entries along the
  follower's, keep the follower's as long as the terms agree, and replace everything from the
  first difference on.
\<close>

fun merge_log :: "'c LogEntry list \<Rightarrow> 'c LogEntry list \<Rightarrow> 'c LogEntry list" where
  "merge_log [] old = old"
| "merge_log (e # es) [] = e # es"
| "merge_log (e # es) (x # old) = (if eTerm x = eTerm e then x # merge_log es old else e # es)"

lemma merge_log_length: "length es \<le> length (merge_log es old)"
  by (induction es old rule: merge_log.induct) auto

lemma merge_log_terms: "map eTerm (take (length es) (merge_log es old)) = map eTerm es"
  by (induction es old rule: merge_log.induct) auto

lemma merge_log_keeps:
  "k \<le> length old \<Longrightarrow> map eTerm (take k es) = map eTerm (take (min k (length es)) old) \<Longrightarrow>
     k \<le> length (merge_log es old) \<and> take k (merge_log es old) = take k old"
proof (induction es old arbitrary: k rule: merge_log.induct)
  case (3 e es x old)
  then show ?case by (cases k) auto
qed auto

lemma merge_log_same:
  "map eTerm es = map eTerm (take (length es) old) \<Longrightarrow> merge_log es old = old"
  by (induction es old rule: merge_log.induct) auto

lemma merge_log_prefix:
  "(\<And>i. i < length es \<Longrightarrow> i < length old \<Longrightarrow> eTerm (old ! i) = eTerm (es ! i) \<Longrightarrow> old ! i = es ! i) \<Longrightarrow>
     take (length es) (merge_log es old) = es"
proof (induction es old rule: merge_log.induct)
  case (3 e es x old)
  have "take (length es) (merge_log es old) = es" if "eTerm x = eTerm e"
    using 3(1) [OF that] "3.prems" by fastforce
  with "3.prems" [of 0] show ?case by auto
qed auto

lemma appendLoop_merge:
  assumes "lastIncludedIndex rf < idx" "idx \<le> lastLogIndex rf + 1"
  shows "appendLoop idx es rf =
    Some (rf\<lparr>log := take (nat (idx - lastIncludedIndex rf)) (log rf)
                     @ merge_log es (drop (nat (idx - lastIncludedIndex rf)) (log rf))\<rparr>)"
  using assms
proof (induction idx es rf rule: appendLoop.induct)
  case (1 idx rf)
  then show ?case by simp
next
  case (2 idx entry rest rf)
  define n where "n = nat (idx - lastIncludedIndex rf)"
  show ?case
  proof (cases "idx < lastLogIndex rf + 1")
    case True
    then have n: "n < length (log rf)" and t: "logTerm rf idx = Some (eTerm (log rf ! n))"
      and suc: "nat (idx + 1 - lastIncludedIndex rf) = Suc n"
      using "2.prems" by (auto simp: n_def lastLogIndex_def logTerm_def logIndex_def go_simps nat_add_distrib)
    have drop: "drop n (log rf) = log rf ! n # drop (Suc n) (log rf)"
      using n by (rule Cons_nth_drop_Suc [symmetric])
    have take: "take (Suc n) (log rf) = take n (log rf) @ [log rf ! n]"
      using n by (rule take_Suc_conv_app_nth)
    have slice: "go_slice_to (log rf) (logIndex rf idx) = Some (take n (log rf))"
      using "2.prems" True by (simp add: go_simps logIndex_def lastLogIndex_def n_def)
    show ?thesis
      using True t "2.IH" [OF True t] "2.prems" unfolding n_def [symmetric]
      by (auto simp: suc drop take slice)
  next
    case False
    with "2.prems" have "n = length (log rf)" by (simp add: n_def lastLogIndex_def)
    with False show ?thesis unfolding n_def [symmetric] by simp
  qed
qed

section \<open>Searching the log\<close>

lemma conflictStart_spec:
  assumes "lastIncludedIndex rf \<le> ci" "ci \<le> lastLogIndex rf"
  shows "\<exists>c. conflictStart rf t ci = Some c \<and> c \<le> ci \<and> min ci (lastIncludedIndex rf + 1) \<le> c
    \<and> (\<forall>j. c \<le> j \<and> j < ci \<longrightarrow> logTerm rf j = Some t)
    \<and> (c \<le> lastIncludedIndex rf + 1 \<or> logTerm rf (c - 1) \<noteq> Some t)"
  using assms
proof (induction rf t ci rule: conflictStart.induct)
  case (1 rf t ci)
  show ?case
  proof (cases "lastIncludedIndex rf + 1 < ci")
    case True
    obtain u where u: "logTerm rf (ci - 1) = Some u"
      using logTerm_in_range [of rf "ci - 1"] True "1.prems" by auto
    show ?thesis
    proof (cases "u = t")
      case eq: True
      obtain c where c: "conflictStart rf t (ci - 1) = Some c" "c \<le> ci - 1"
        "min (ci - 1) (lastIncludedIndex rf + 1) \<le> c"
        "\<forall>j. c \<le> j \<and> j < ci - 1 \<longrightarrow> logTerm rf j = Some t"
        "c \<le> lastIncludedIndex rf + 1 \<or> logTerm rf (c - 1) \<noteq> Some t"
        using "1.IH" [OF True u eq] True "1.prems" by auto
      have "\<forall>j. c \<le> j \<and> j < ci \<longrightarrow> logTerm rf j = Some t"
      proof (intro allI impI)
        fix j assume "c \<le> j \<and> j < ci"
        then show "logTerm rf j = Some t" using c(4) u eq by (cases "j = ci - 1") auto
      qed
      with c True u eq show ?thesis by (simp add: conflictStart.simps [of rf t ci])
    next
      case False
      with True u show ?thesis by (auto simp: conflictStart.simps [of rf t ci])
    qed
  next
    case False
    then show ?thesis by (auto simp: conflictStart.simps [of rf t ci])
  qed
qed

lemma findTerm_spec:
  assumes "j \<le> lastLogIndex rf"
  shows "\<exists>r. findTerm rf t j = Some r
    \<and> (r = - 1 \<and> (\<forall>i. lastIncludedIndex rf < i \<and> i \<le> j \<longrightarrow> logTerm rf i \<noteq> Some t)
       \<or> lastIncludedIndex rf + 1 < r \<and> r \<le> j + 1 \<and> logTerm rf (r - 1) = Some t
         \<and> (\<forall>i. r \<le> i \<and> i \<le> j \<longrightarrow> logTerm rf i \<noteq> Some t))"
  using assms
proof (induction rf t j rule: findTerm.induct)
  case (1 rf t j)
  show ?case
  proof (cases "lastIncludedIndex rf < j")
    case True
    obtain u where u: "logTerm rf j = Some u"
      using logTerm_in_range [of rf j] True "1.prems" by auto
    show ?thesis
    proof (cases "u = t")
      case eq: True
      with True u show ?thesis by (auto simp: findTerm.simps [of rf t j])
    next
      case False
      obtain r where r: "findTerm rf t (j - 1) = Some r"
        "r = - 1 \<and> (\<forall>i. lastIncludedIndex rf < i \<and> i \<le> j - 1 \<longrightarrow> logTerm rf i \<noteq> Some t)
         \<or> lastIncludedIndex rf + 1 < r \<and> r \<le> j - 1 + 1 \<and> logTerm rf (r - 1) = Some t
         \<and> (\<forall>i. r \<le> i \<and> i \<le> j - 1 \<longrightarrow> logTerm rf i \<noteq> Some t)"
        using "1.IH" [OF True u False] "1.prems" by auto
      have ext: "(\<forall>i. P i \<and> i \<le> j \<longrightarrow> logTerm rf i \<noteq> Some t)"
        if "\<forall>i. P i \<and> i \<le> j - 1 \<longrightarrow> logTerm rf i \<noteq> Some t" for P
      proof (intro allI impI)
        fix i assume "P i \<and> i \<le> j"
        then show "logTerm rf i \<noteq> Some t" using that u False by (cases "i = j") auto
      qed
      from r(2) have "r = - 1 \<and> (\<forall>i. lastIncludedIndex rf < i \<and> i \<le> j \<longrightarrow> logTerm rf i \<noteq> Some t)
         \<or> lastIncludedIndex rf + 1 < r \<and> r \<le> j + 1 \<and> logTerm rf (r - 1) = Some t
         \<and> (\<forall>i. r \<le> i \<and> i \<le> j \<longrightarrow> logTerm rf i \<noteq> Some t)"
        using ext [of "\<lambda>i. lastIncludedIndex rf < i"] ext [of "\<lambda>i. r \<le> i"] by fastforce
      moreover have "findTerm rf t j = Some r"
        using True u False r(1) by (simp add: findTerm.simps [of rf t j])
      ultimately show ?thesis by blast
    qed
  next
    case False
    then show ?thesis by (auto simp: findTerm.simps [of rf t j])
  qed
qed

section \<open>Advancing the commit index\<close>

definition replicas :: "('c, 'b) Raft \<Rightarrow> int \<Rightarrow> nat set" where
  "replicas rf n = {i. i < length (peers rf) \<and> (int i = me rf \<or> n \<le> matchIndex rf ! i)}"

lemma countReplicas_card:
  assumes "length (matchIndex rf) = length (peers rf)" "set is \<subseteq> {..<length (peers rf)}" "distinct is"
  shows "countReplicas rf n is c
    = Some (c + int (card {i \<in> set is. int i \<noteq> me rf \<and> n \<le> matchIndex rf ! i}))"
  using assms
proof (induction "is" arbitrary: c)
  case (Cons i "is")
  let ?S = "\<lambda>js. {i \<in> set js. int i \<noteq> me rf \<and> n \<le> matchIndex rf ! i}"
  have "?S (i # is) = (if int i \<noteq> me rf \<and> n \<le> matchIndex rf ! i then insert i (?S is) else ?S is)"
    by auto
  moreover have "card (insert i (?S is)) = Suc (card (?S is))" using Cons.prems
    by (intro card_insert_disjoint) auto
  ultimately have "card (?S (i # is)) = (if int i \<noteq> me rf \<and> n \<le> matchIndex rf ! i then Suc (card (?S is)) else card (?S is))"
    by presburger
  with Cons show ?case by auto
qed simp

lemma countReplicas_replicas:
  assumes "length (matchIndex rf) = length (peers rf)" "0 \<le> me rf" "me rf < int (length (peers rf))"
  shows "countReplicas rf n [0..<length (peers rf)] 1 = Some (int (card (replicas rf n)))"
proof -
  let ?S = "{i \<in> set [0..<length (peers rf)]. int i \<noteq> me rf \<and> n \<le> matchIndex rf ! i}"
  have "replicas rf n = insert (nat (me rf)) ?S" "nat (me rf) \<notin> ?S" "finite ?S"
    using assms by (auto simp: replicas_def)
  then have "int (card (replicas rf n)) = 1 + int (card ?S)" by simp
  then show ?thesis using assms by (subst countReplicas_card) auto
qed


definition committable :: "('c, 'b) Raft \<Rightarrow> int \<Rightarrow> bool" where
  "committable rf n \<longleftrightarrow>
     logTerm rf n = Some (currentTerm rf) \<and> majority (length (peers rf)) (replicas rf n)"

lemma majority_replicas:
  "majority (length (peers rf)) (replicas rf n) \<longleftrightarrow>
     int (length (peers rf)) div 2 + 1 \<le> int (card (replicas rf n))"
  by (auto simp: majority_def replicas_def zdiv_int)

lemma committable_commitIndex [simp]: "committable (rf\<lparr>commitIndex := c\<rparr>) n = committable rf n"
  by (simp add: committable_def replicas_def logTerm_def logIndex_def)

definition leaderArrays :: "('c, 'b) Raft \<Rightarrow> bool" where
  "leaderArrays rf \<longleftrightarrow> length (nextIndex rf) = length (peers rf) \<and> length (matchIndex rf) = length (peers rf)
     \<and> 0 \<le> me rf \<and> me rf < int (length (peers rf))"

lemma advanceLoop_spec:
  assumes "leaderArrays rf" "lastIncludedIndex rf < n" "commitIndex rf < n"
  shows "\<exists>c. advanceLoop n rf = Some (rf\<lparr>commitIndex := c\<rparr>)
    \<and> (c = commitIndex rf \<or> n \<le> c \<and> c \<le> lastLogIndex rf \<and> committable rf c)
    \<and> (\<forall>m. n \<le> m \<and> c < m \<and> m \<le> lastLogIndex rf \<longrightarrow> \<not> committable rf m)"
  using assms
proof (induction "nat (lastLogIndex rf + 1 - n)" arbitrary: n rf rule: less_induct)
  case less
  show ?case
  proof (cases "n \<le> lastLogIndex rf")
    case True
    obtain t where t: "logTerm rf n = Some t"
      using logTerm_in_range [of rf n] True less.prems by auto
    define rf1 where "rf1 = (if committable rf n then rf\<lparr>commitIndex := n\<rparr> else rf)"
    have count: "countReplicas rf n [0..<length (peers rf)] 1 = Some (int (card (replicas rf n)))"
      using less.prems by (intro countReplicas_replicas) (auto simp: leaderArrays_def)
    have step: "advanceLoop n rf = advanceLoop (n + 1) rf1"
      using True t count by (simp add: advanceLoop.simps [of n rf] rf1_def committable_def majority_replicas)
    have rf1: "lastLogIndex rf1 = lastLogIndex rf" "leaderArrays rf1" "lastIncludedIndex rf1 = lastIncludedIndex rf"
      "commitIndex rf1 = (if committable rf n then n else commitIndex rf)" "committable rf1 = committable rf"
      "rf1\<lparr>commitIndex := c\<rparr> = rf\<lparr>commitIndex := c\<rparr>" for c
      using less.prems by (auto simp: rf1_def lastLogIndex_def leaderArrays_def)
    have pre: "nat (lastLogIndex rf + 1 - (n + 1)) < nat (lastLogIndex rf + 1 - n)" "lastIncludedIndex rf < n + 1"
      "(if committable rf n then n else commitIndex rf) < n + 1"
      using less.prems True by auto
    obtain c where c: "advanceLoop (n + 1) rf1 = Some (rf\<lparr>commitIndex := c\<rparr>)"
      "c = (if committable rf n then n else commitIndex rf) \<or> n + 1 \<le> c \<and> c \<le> lastLogIndex rf \<and> committable rf c"
      "\<forall>m. n + 1 \<le> m \<and> c < m \<and> m \<le> lastLogIndex rf \<longrightarrow> \<not> committable rf m"
      using less.hyps [of rf1 "n + 1", unfolded rf1(1,3,4,5,6), OF _ rf1(2)] pre by blast
    have "\<not> committable rf m" if "n \<le> m \<and> c < m \<and> m \<le> lastLogIndex rf" for m
      using that c(2,3) by (cases "m = n") (auto split: if_splits)
    with c(1,2) step True show ?thesis by (intro exI [of _ c]) (auto split: if_splits)
  next
    case False
    then show ?thesis by (intro exI [of _ "commitIndex rf"]) (auto simp: advanceLoop.simps [of n rf])
  qed
qed

lemma maybeAdvanceCommitIndex_spec:
  assumes "leaderArrays rf" "lastIncludedIndex rf \<le> commitIndex rf"
  shows "\<exists>c. maybeAdvanceCommitIndex rf = Some (rf\<lparr>commitIndex := c\<rparr>)
    \<and> (c = commitIndex rf \<or> commitIndex rf < c \<and> c \<le> lastLogIndex rf \<and> committable rf c)
    \<and> (\<forall>m. c < m \<and> m \<le> lastLogIndex rf \<longrightarrow> \<not> committable rf m)"
  unfolding maybeAdvanceCommitIndex_def
  using advanceLoop_spec [of rf "commitIndex rf + 1"] assms by fastforce


section \<open>Well-formed peers\<close>

text \<open>
  The indices of a peer are in order and within its log, and a leader's bookkeeping has a slot per
  peer with values that point into the log or just past it.
\<close>

definition leaderSlots :: "('c, 'b) Raft \<Rightarrow> bool" where
  "leaderSlots rf \<longleftrightarrow> leaderArrays rf
     \<and> list_all (\<lambda>i. 1 \<le> i \<and> i \<le> lastLogIndex rf + 1) (nextIndex rf)
     \<and> list_all (\<lambda>i. 0 \<le> i \<and> i \<le> lastLogIndex rf) (matchIndex rf)"

definition wf_raft :: "('c, 'b) Raft \<Rightarrow> bool" where
  "wf_raft rf \<longleftrightarrow> log rf \<noteq> [] \<and> 0 \<le> lastIncludedIndex rf
     \<and> lastIncludedIndex rf \<le> lastApplied rf \<and> lastApplied rf \<le> commitIndex rf
     \<and> commitIndex rf \<le> lastLogIndex rf
     \<and> 0 \<le> me rf \<and> me rf < int (length (peers rf))
     \<and> (state rf = leader \<longrightarrow> leaderSlots rf)"

text \<open>
  What the peer relies on the other parties for: a leader of a term that is not over never
  contradicts an entry this peer has committed and sends its log up to its end; a follower's
  replies are about entries the leader has; the service takes snapshots only of what it was given.
\<close>

fun event_ok :: "('c, 'b) event \<Rightarrow> ('c, 'b) Raft \<Rightarrow> bool" where
  "event_ok (EvAppendEntries now args) rf =
     (currentTerm rf \<le> aeTerm args \<and> lastIncludedIndex rf \<le> aePrevLogIndex args \<longrightarrow>
        aeLeaderCommit args \<le> aePrevLogIndex args + int (length (aeEntries args))
        \<and> list_all (\<lambda>k. aePrevLogIndex args + 1 + int k \<le> commitIndex rf \<longrightarrow>
                      logTerm rf (aePrevLogIndex args + 1 + int k) = Some (eTerm (aeEntries args ! k)))
                 [0..<length (aeEntries args)])"
| "event_ok (EvAppendReply peer args reply) rf =
     (state rf = leader \<and> currentTerm rf = aeTerm args \<longrightarrow>
        peer < length (peers rf) \<and> aePrevLogIndex args + int (length (aeEntries args)) \<le> lastLogIndex rf
        \<and> aerConflictIndex reply \<le> lastLogIndex rf + 1)"
| "event_ok (EvSnapshotReply peer args reply) rf =
     (state rf = leader \<and> currentTerm rf = isTerm args \<longrightarrow>
        peer < length (peers rf) \<and> isLastIncludedIndex args \<le> lastLogIndex rf)"
| "event_ok (EvSnapshot index sn) rf = (index \<le> lastApplied rf)"
| "event_ok ev rf = True"

lemma wf_raft_frame:
  assumes "wf_raft rf" "log rf' = log rf" "lastIncludedIndex rf' = lastIncludedIndex rf"
    "lastApplied rf' = lastApplied rf" "commitIndex rf' = commitIndex rf" "me rf' = me rf" "peers rf' = peers rf"
    "state rf' \<noteq> leader \<or> state rf = leader \<and> nextIndex rf' = nextIndex rf \<and> matchIndex rf' = matchIndex rf"
  shows "wf_raft rf'"
  using assms by (auto simp: wf_raft_def lastLogIndex_def leaderSlots_def leaderArrays_def)

lemma lastLogIndex_persist [simp]: "lastLogIndex (persist rf) = lastLogIndex rf"
  by (simp add: lastLogIndex_def)

lemma wf_logTerm_last: "wf_raft rf \<Longrightarrow> \<exists>t. logTerm rf (lastLogIndex rf) = Some t"
  by (rule logTerm_last) (simp add: wf_raft_def)

lemma wf_stepDown: "wf_raft rf \<Longrightarrow> wf_raft (stepDown t rf)"
  by (erule wf_raft_frame) simp_all

lemma RequestVote_wf:
  assumes "wf_raft rf"
  shows "\<exists>r rf'. RequestVote now args rf = Some (r, rf') \<and> wf_raft rf'"
proof -
  define rf1 where "rf1 = (if currentTerm rf < rvTerm args then stepDown (rvTerm args) rf else rf)"
  have wf1: "wf_raft rf1" using assms wf_stepDown by (auto simp: rf1_def)
  then obtain t where t: "logTerm rf1 (lastLogIndex rf1) = Some t" using wf_logTerm_last by blast
  have wf2: "wf_raft ((persist (rf1\<lparr>votedFor := rvCandidateId args\<rparr>))\<lparr>lastHeartbeat := now\<rparr>)"
    using wf1 by (rule wf_raft_frame) auto
  show ?thesis
    using assms wf1 wf2 t unfolding RequestVote_def rf1_def [symmetric] Let_def by auto
qed

lemma startElection_wf:
  assumes "wf_raft rf"
  shows "\<exists>rf' reqs. startElection rf = Some (rf', reqs) \<and> wf_raft rf'"
proof -
  define rf1 where "rf1 = persist (rf\<lparr>state := candidate, currentTerm := currentTerm rf + 1, votedFor := me rf\<rparr>)"
  have wf1: "wf_raft rf1" using assms by (rule wf_raft_frame) (simp_all add: rf1_def)
  then obtain t where "logTerm rf1 (lastLogIndex rf1) = Some t" using wf_logTerm_last by blast
  with wf1 show ?thesis unfolding startElection_def rf1_def [symmetric] Let_def by auto
qed

lemma becomeLeader_wf:
  assumes "wf_raft rf"
  shows "wf_raft (becomeLeader rf)"
  using assms
  by (auto simp: wf_raft_def becomeLeader_def leaderSlots_def leaderArrays_def lastLogIndex_def list_all_iff)

lemma onVoteReply_wf: "wf_raft rf \<Longrightarrow> wf_raft (fst (onVoteReply t reply votes rf))"
  by (simp add: onVoteReply_def becomeLeader_wf wf_stepDown)

lemma Start_wf: "wf_raft rf \<Longrightarrow> wf_raft (snd (Start c rf))"
  by (auto simp: Start_def Let_def wf_raft_def leaderSlots_def leaderArrays_def lastLogIndex_def list_all_iff)


lemma AppendEntries_match_merge:
  assumes "currentTerm rf \<le> aeTerm args" "lastIncludedIndex rf \<le> aePrevLogIndex args"
    "aePrevLogIndex args \<le> lastLogIndex rf" "logTerm rf (aePrevLogIndex args) = Some (aePrevLogTerm args)"
  defines "n \<equiv> nat (aePrevLogIndex args + 1 - lastIncludedIndex rf)"
  shows "AppendEntries now args rf = Some (aeReply (aeTerm args) True (- 1) 0,
    aeCommitted args (persist ((aeAccepted now args rf)
      \<lparr>log := take n (log rf) @ merge_log (aeEntries args) (drop n (log rf))\<rparr>)))"
  using assms by (simp add: AppendEntries_match appendLoop_merge)

lemma aeCommitted_commitIndex:
  "commitIndex (aeCommitted args rf) =
     (if commitIndex rf < aeLeaderCommit args
      then min (aeLeaderCommit args) (aePrevLogIndex args + int (length (aeEntries args))) else commitIndex rf)"
  by (simp add: aeCommitted_def)

lemma event_ok_keeps:
  assumes "event_ok (EvAppendEntries now args) rf" "wf_raft rf" "currentTerm rf \<le> aeTerm args"
    "lastIncludedIndex rf \<le> aePrevLogIndex args" "aePrevLogIndex args \<le> lastLogIndex rf"
  defines "n \<equiv> nat (aePrevLogIndex args + 1 - lastIncludedIndex rf)"
  shows "commitIndex rf
    \<le> lastIncludedIndex rf + int (n + length (merge_log (aeEntries args) (drop n (log rf)))) - 1"
proof -
  define top where "top = commitIndex rf"
  have top: "top \<le> lastLogIndex rf" using assms(2) by (simp add: top_def wf_raft_def)
  define k where "k = nat (top - aePrevLogIndex args)"
  have k: "k \<le> length (drop n (log rf))"
    using top assms(4,5) by (auto simp: k_def n_def lastLogIndex_def)
  have "map eTerm (take k (aeEntries args)) = map eTerm (take (min k (length (aeEntries args))) (drop n (log rf)))"
  proof (rule nth_equalityI)
    fix i assume i: "i < length (map eTerm (take k (aeEntries args)))"
    then have le: "aePrevLogIndex args + 1 + int i \<le> top" by (auto simp: k_def)
    then have "logTerm rf (aePrevLogIndex args + 1 + int i) = Some (eTerm (aeEntries args ! i))"
      using assms(1,3,4) i by (simp add: top_def list_all_iff)
    moreover have "nat (aePrevLogIndex args + 1 + int i - lastIncludedIndex rf) = n + i"
      using assms(4) by (simp add: n_def)
    ultimately have "eTerm (log rf ! (n + i)) = eTerm (aeEntries args ! i)"
      using assms(4,5) le top
      by (auto simp: logTerm_def logIndex_def go_nth_Some_iff split: if_splits bind_splits)
    moreover have "n \<le> length (log rf)" using i k by auto
    ultimately show "map eTerm (take k (aeEntries args)) ! i
        = map eTerm (take (min k (length (aeEntries args))) (drop n (log rf))) ! i"
      using i k by (simp add: nth_drop less_imp_le)
  qed (use k in auto)
  with merge_log_keeps [OF k this] show ?thesis
    using assms(4) unfolding top_def [symmetric] by (auto simp: n_def k_def)
qed

lemma AppendEntries_wf:
  assumes "wf_raft rf" "event_ok (EvAppendEntries now args) rf"
  shows "\<exists>r rf'. AppendEntries now args rf = Some (r, rf') \<and> wf_raft rf'"
proof -
  have acc: "wf_raft (aeAccepted now args rf)" using assms(1) by (rule wf_raft_frame) simp_all
  consider "aeTerm args < currentTerm rf"
    | "currentTerm rf \<le> aeTerm args" "aePrevLogIndex args < lastIncludedIndex rf"
    | "currentTerm rf \<le> aeTerm args" "lastIncludedIndex rf \<le> aePrevLogIndex args"
      "lastLogIndex rf < aePrevLogIndex args"
    | t where "currentTerm rf \<le> aeTerm args" "lastIncludedIndex rf \<le> aePrevLogIndex args"
      "aePrevLogIndex args \<le> lastLogIndex rf" "logTerm rf (aePrevLogIndex args) = Some t"
    using logTerm_in_range [of rf "aePrevLogIndex args"] by force
  then show ?thesis
  proof cases
    case 4
    show ?thesis
    proof (cases "t = aePrevLogTerm args")
      case True
      define n where "n = nat (aePrevLogIndex args + 1 - lastIncludedIndex rf)"
      define m where "m = merge_log (aeEntries args) (drop n (log rf))"
      define rf' where "rf' = aeCommitted args (persist ((aeAccepted now args rf)\<lparr>log := take n (log rf) @ m\<rparr>))"
      have n: "n \<le> length (log rf)" "int n = aePrevLogIndex args + 1 - lastIncludedIndex rf" "0 < n"
        using 4 by (auto simp: n_def lastLogIndex_def)
      have last: "lastLogIndex rf' = lastIncludedIndex rf + int (n + length m) - 1"
        using n by (simp add: rf'_def lastLogIndex_def)
      have keep: "commitIndex rf \<le> lastLogIndex rf'"
        using event_ok_keeps [OF assms(2,1) 4(1-3)] unfolding last m_def n_def by simp
      have len: "length (aeEntries args) \<le> length m" unfolding m_def by (rule merge_log_length)
      have lc: "aeLeaderCommit args \<le> aePrevLogIndex args + int (length (aeEntries args))"
        using assms(2) 4(1,2) by simp
      have "wf_raft rf'"
        using assms(1) keep len n 4 lc unfolding wf_raft_def last
        by (auto simp: rf'_def aeCommitted_commitIndex)
      moreover have "AppendEntries now args rf = Some (aeReply (aeTerm args) True (- 1) 0, rf')"
        using AppendEntries_match_merge 4 True unfolding rf'_def m_def n_def by blast
      ultimately show ?thesis by blast
    next
      case False
      have "\<exists>ci. conflictStart (aeAccepted now args rf) t (aePrevLogIndex args) = Some ci"
        using conflictStart_spec [of "aeAccepted now args rf" "aePrevLogIndex args" t] 4 by auto
      with 4 False acc show ?thesis by (auto simp: AppendEntries_mismatch)
    qed
  qed (use assms acc in \<open>auto simp: AppendEntries_stale AppendEntries_behind AppendEntries_short\<close>)
qed

lemma InstallSnapshot_wf:
  assumes "wf_raft rf"
  shows "\<exists>r rf'. InstallSnapshot now args rf = Some (r, rf') \<and> wf_raft rf'"
proof -
  have acc: "wf_raft (isAccepted now args rf)" using assms by (rule wf_raft_frame) simp_all
  consider "isTerm args < currentTerm rf"
    | "currentTerm rf \<le> isTerm args" "isLastIncludedIndex args \<le> lastIncludedIndex rf"
    | "currentTerm rf \<le> isTerm args" "lastIncludedIndex rf < isLastIncludedIndex args"
    by linarith
  then show ?thesis
  proof cases
    case 3
    let ?rf = "isInstalled args (isKeptLog args rf) (isAccepted now args rf)"
    have "wf_raft ?rf"
      using assms 3
      by (auto simp: wf_raft_def isInstalled_def isKeptLog_def lastLogIndex_def)
    then have "wf_raft ((persistWithSnapshot (isData args) ?rf)\<lparr>pendingSnapshot := Some (snapshotMsg args)\<rparr>)"
      by (rule wf_raft_frame) (auto simp: isInstalled_def)
    with 3 show ?thesis by (auto simp: InstallSnapshot_installed)
  qed (use assms acc in \<open>auto simp: InstallSnapshot_stale InstallSnapshot_outdated\<close>)
qed

lemma list_all_update: "list_all P xs \<Longrightarrow> P v \<Longrightarrow> list_all P (xs[i := v])"
  by (auto simp: list_all_iff dest: set_update_subset_insert [THEN subsetD])


lemma leaderSlots_nth:
  assumes "leaderSlots rf" "i < length (peers rf)"
  shows "go_nth (matchIndex rf) (int i) = Some (matchIndex rf ! i)" "0 \<le> matchIndex rf ! i"
    "matchIndex rf ! i \<le> lastLogIndex rf" "go_update (matchIndex rf) (int i) v = Some ((matchIndex rf)[i := v])"
    "go_nth (nextIndex rf) (int i) = Some (nextIndex rf ! i)" "1 \<le> nextIndex rf ! i"
    "nextIndex rf ! i \<le> lastLogIndex rf + 1" "go_update (nextIndex rf) (int i) v = Some ((nextIndex rf)[i := v])"
  using assms by (auto simp: leaderSlots_def leaderArrays_def go_simps list_all_length)

lemma leaderSlots_update:
  assumes "leaderSlots rf" "0 \<le> m" "m \<le> lastLogIndex rf" "1 \<le> x" "x \<le> lastLogIndex rf + 1"
  shows "leaderSlots (rf\<lparr>matchIndex := (matchIndex rf)[i := m], nextIndex := (nextIndex rf)[i := x]\<rparr>)"
    "leaderSlots (rf\<lparr>nextIndex := (nextIndex rf)[i := x]\<rparr>)"
  using assms
  by (auto simp: leaderSlots_def leaderArrays_def lastLogIndex_def intro!: list_all_update)

lemma wf_leader_update:
  assumes "wf_raft rf" "leaderSlots rf" "0 \<le> m" "m \<le> lastLogIndex rf" "1 \<le> x" "x \<le> lastLogIndex rf + 1"
    "commitIndex rf \<le> c" "c \<le> lastLogIndex rf"
  shows "wf_raft (rf\<lparr>matchIndex := (matchIndex rf)[i := m], nextIndex := (nextIndex rf)[i := x], commitIndex := c\<rparr>)"
proof -
  have "leaderSlots (rf\<lparr>matchIndex := (matchIndex rf)[i := m], nextIndex := (nextIndex rf)[i := x], commitIndex := c\<rparr>)"
    using leaderSlots_update(1) [OF assms(2-6), of i] by (simp add: leaderSlots_def leaderArrays_def lastLogIndex_def)
  with assms show ?thesis by (simp add: wf_raft_def lastLogIndex_def)
qed

lemma backUp_wf:
  assumes "wf_raft rf" "leaderSlots rf" "i < length (peers rf)" "aerConflictIndex reply \<le> lastLogIndex rf + 1"
  shows "\<exists>rf'. backUp i reply rf = Some rf' \<and> wf_raft rf'"
proof -
  obtain r where r: "findTerm rf (aerConflictTerm reply) (lastLogIndex rf) = Some r" "r \<le> lastLogIndex rf + 1"
    using findTerm_spec [of "lastLogIndex rf" rf "aerConflictTerm reply"] assms(1)
    by (auto simp: wf_raft_def)
  define ni where "ni = (if aerConflictTerm reply = - 1 then aerConflictIndex reply
                         else if r = - 1 then aerConflictIndex reply else r)"
  define x where "x = (if ni < 1 then 1 else ni)"
  have x: "1 \<le> x" "x \<le> lastLogIndex rf + 1"
    using r(2) assms(1,4) by (auto simp: x_def ni_def wf_raft_def)
  have eq: "backUp i reply rf = Some (rf\<lparr>nextIndex := (nextIndex rf)[i := x]\<rparr>)"
    using r(1) leaderSlots_nth(8) [OF assms(2,3)] by (simp add: backUp_def x_def ni_def)
  have "wf_raft (rf\<lparr>matchIndex := (matchIndex rf)[i := matchIndex rf ! i],
                    nextIndex := (nextIndex rf)[i := x], commitIndex := commitIndex rf\<rparr>)"
    using wf_leader_update [OF assms(1,2) _ _ x, of "matchIndex rf ! i" "commitIndex rf" i]
      leaderSlots_nth(2,3) [OF assms(2,3)] assms(1) by (simp add: wf_raft_def)
  then show ?thesis using eq by simp
qed

lemma onAppendReply_wf:
  assumes "wf_raft rf" "event_ok (EvAppendReply i args reply) rf"
  shows "\<exists>rf'. onAppendReply i args reply rf = Some rf' \<and> wf_raft rf'"
proof (cases "state rf = leader \<and> currentTerm rf = aeTerm args")
  case True
  define rf1 where "rf1 = (if aeTerm args < aerTerm reply then stepDown (aerTerm reply) rf else rf)"
  have same: "lastLogIndex rf1 = lastLogIndex rf" "peers rf1 = peers rf" "commitIndex rf1 = commitIndex rf"
    by (simp_all add: rf1_def lastLogIndex_def)
  have wf1: "wf_raft rf1" using assms(1) by (simp add: rf1_def wf_stepDown)
  have "leaderSlots rf" using True assms(1) by (simp add: wf_raft_def)
  then have slots: "leaderSlots rf1"
    by (simp add: rf1_def leaderSlots_def leaderArrays_def lastLogIndex_def)
  have i: "i < length (peers rf1)" and ok: "aePrevLogIndex args + int (length (aeEntries args)) \<le> lastLogIndex rf1"
    "aerConflictIndex reply \<le> lastLogIndex rf1 + 1"
    using assms(2) True by (simp_all add: same)
  show ?thesis
  proof (cases "aerSuccess reply")
    case succ: True
    define m where "m = (if matchIndex rf1 ! i < aePrevLogIndex args + int (length (aeEntries args))
                         then aePrevLogIndex args + int (length (aeEntries args)) else matchIndex rf1 ! i)"
    have m: "0 \<le> m" "m \<le> lastLogIndex rf1" "1 \<le> m + 1" "m + 1 \<le> lastLogIndex rf1 + 1"
      using leaderSlots_nth(2,3) [OF slots i] ok by (auto simp: m_def)
    define rf2 where "rf2 = rf1\<lparr>matchIndex := (matchIndex rf1)[i := m], nextIndex := (nextIndex rf1)[i := m + 1]\<rparr>"
    have "leaderArrays rf2" "lastIncludedIndex rf2 \<le> commitIndex rf2" and last: "lastLogIndex rf2 = lastLogIndex rf1"
      using slots wf1 by (simp_all add: rf2_def leaderSlots_def leaderArrays_def wf_raft_def lastLogIndex_def)
    then obtain c where c: "maybeAdvanceCommitIndex rf2 = Some (rf2\<lparr>commitIndex := c\<rparr>)"
      "c = commitIndex rf2 \<or> commitIndex rf2 < c \<and> c \<le> lastLogIndex rf2"
      using maybeAdvanceCommitIndex_spec [of rf2] by blast
    have "commitIndex rf1 \<le> c" "c \<le> lastLogIndex rf1"
      using c(2) wf1 last by (auto simp: rf2_def wf_raft_def)
    then have "wf_raft (rf2\<lparr>commitIndex := c\<rparr>)"
      using wf_leader_update [OF wf1 slots m, of c i] by (simp add: rf2_def)
    moreover have "onAppendReply i args reply rf = maybeAdvanceCommitIndex rf2"
      using True succ leaderSlots_nth [OF slots i]
      by (simp add: onAppendReply_def rf1_def [symmetric] rf2_def Let_def m_def [symmetric])
    ultimately show ?thesis using c(1) by simp
  next
    case False
    with True have "onAppendReply i args reply rf = backUp i reply rf1"
      by (simp add: onAppendReply_def rf1_def)
    with backUp_wf [OF wf1 slots i ok(2)] show ?thesis by simp
  qed
qed (use assms in \<open>auto simp: onAppendReply_def\<close>)

lemma onSnapshotReply_wf:
  assumes "wf_raft rf" "event_ok (EvSnapshotReply i args reply) rf"
  shows "\<exists>rf'. onSnapshotReply i args reply rf = Some rf' \<and> wf_raft rf'"
proof (cases "state rf = leader \<and> currentTerm rf = isTerm args")
  case True
  then have slots: "leaderSlots rf" using assms(1) by (simp add: wf_raft_def)
  have i: "i < length (peers rf)" and ok: "isLastIncludedIndex args \<le> lastLogIndex rf"
    using assms(2) True by simp_all
  define m where "m = (if matchIndex rf ! i < isLastIncludedIndex args then isLastIncludedIndex args
                         else matchIndex rf ! i)"
  have m: "0 \<le> m" "m \<le> lastLogIndex rf" "1 \<le> m + 1" "m + 1 \<le> lastLogIndex rf + 1"
    using leaderSlots_nth(2,3) [OF slots i] ok by (auto simp: m_def)
  have "wf_raft (rf\<lparr>matchIndex := (matchIndex rf)[i := m], nextIndex := (nextIndex rf)[i := m + 1]\<rparr>)"
    using wf_leader_update [OF assms(1) slots m, of "commitIndex rf" i] assms(1) by (simp add: wf_raft_def)
  then show ?thesis
    using True assms(1) leaderSlots_nth [OF slots i]
    by (simp add: onSnapshotReply_def m_def [symmetric] wf_stepDown)
qed (use assms in \<open>auto simp: onSnapshotReply_def\<close>)

lemma Snapshot_trims:
  assumes "lastIncludedIndex rf < index" "index \<le> lastLogIndex rf"
  shows "\<exists>t. logTerm rf index = Some t \<and> Snapshot index sn rf = Some (persistWithSnapshot sn
    (rf\<lparr>log := (log rf ! nat (index - lastIncludedIndex rf))\<lparr>eCommand := None\<rparr>
              # drop (Suc (nat (index - lastIncludedIndex rf))) (log rf),
        lastIncludedIndex := index, lastIncludedTerm := t\<rparr>))"
proof -
  define n where "n = nat (index - lastIncludedIndex rf)"
  have n: "n < length (log rf)" using assms by (simp add: n_def lastLogIndex_def)
  obtain t where t: "logTerm rf index = Some t" using logTerm_in_range [of rf index] assms by auto
  have d: "drop n (log rf) = log rf ! n # drop (Suc n) (log rf)" using n by (rule Cons_nth_drop_Suc [symmetric])
  have "go_slice_from (log rf) (logIndex rf index) = Some (drop n (log rf))"
    using assms by (simp add: go_simps logIndex_def n_def lastLogIndex_def)
  with t assms(1) show ?thesis
    unfolding Snapshot_def n_def [symmetric] by (simp add: d go_simps)
qed

lemma Snapshot_wf:
  assumes "wf_raft rf" "index \<le> lastApplied rf"
  shows "\<exists>rf'. Snapshot index sn rf = Some rf' \<and> wf_raft rf'"
proof (cases "index \<le> lastIncludedIndex rf")
  case True
  with assms show ?thesis by (simp add: Snapshot_def)
next
  case False
  with assms have i: "lastIncludedIndex rf < index" "index \<le> lastLogIndex rf" by (auto simp: wf_raft_def)
  obtain t where eq: "Snapshot index sn rf = Some (persistWithSnapshot sn
    (rf\<lparr>log := (log rf ! nat (index - lastIncludedIndex rf))\<lparr>eCommand := None\<rparr>
              # drop (Suc (nat (index - lastIncludedIndex rf))) (log rf),
        lastIncludedIndex := index, lastIncludedTerm := t\<rparr>))"
    using Snapshot_trims [OF i] by blast
  show ?thesis unfolding eq
    using assms i by (auto simp: wf_raft_def lastLogIndex_def leaderSlots_def leaderArrays_def list_all_iff)
qed


lemma applyGap_spec:
  assumes "wf_raft rf"
  shows "applyGap rf =
    (if lastApplied rf < commitIndex rf
     then Some (Some (commandMsg (eCommand (log rf ! nat (lastApplied rf + 1 - lastIncludedIndex rf)))
                        (lastApplied rf + 1)), rf\<lparr>lastApplied := lastApplied rf + 1\<rparr>)
     else Some (None, rf))"
  using assms by (auto simp: applyGap.simps [of rf] wf_raft_def lastLogIndex_def logIndex_def go_simps)

lemma applyGap_wf: "wf_raft rf \<Longrightarrow> \<exists>m rf'. applyGap rf = Some (m, rf') \<and> wf_raft rf'"
  by (auto simp: applyGap_spec wf_raft_def lastLogIndex_def leaderSlots_def leaderArrays_def)

lemma applyTop_wf:
  assumes "wf_raft rf"
  shows "\<exists>m rf'. applyTop rf = Some (m, rf') \<and> wf_raft rf'"
proof (cases "pendingSnapshot rf")
  case None
  then show ?thesis using applyGap_wf [OF assms] by (simp add: applyTop_def)
next
  case (Some msg)
  have "wf_raft (rf\<lparr>pendingSnapshot := None\<rparr>)" using assms by (rule wf_raft_frame) simp_all
  then show ?thesis using Some by (simp add: applyTop_def)
qed

lemma handle_wf:
  assumes "wf_raft rf" "event_ok ev rf"
  shows "\<exists>rf'. handle ev rf = Some rf' \<and> wf_raft rf'"
proof (cases ev)
  case (EvRequestVote now args)
  with RequestVote_wf [OF assms(1), of now args] show ?thesis by auto
next
  case (EvTimeout now sleep)
  with startElection_wf [OF assms(1)] assms(1) show ?thesis by (auto simp: electionTimeout_def)
next
  case (EvVoteReply t reply votes)
  with onVoteReply_wf [OF assms(1)] show ?thesis by simp
next
  case (EvStart c)
  with Start_wf [OF assms(1)] show ?thesis by simp
next
  case (EvAppendEntries now args)
  with AppendEntries_wf [OF assms(1), of now args] assms(2) show ?thesis by fastforce
next
  case (EvAppendReply i args reply)
  with onAppendReply_wf [OF assms(1), of i args reply] assms(2) show ?thesis by simp
next
  case (EvInstallSnapshot now args)
  with InstallSnapshot_wf [OF assms(1), of now args] show ?thesis by auto
next
  case (EvSnapshotReply i args reply)
  with onSnapshotReply_wf [OF assms(1), of i args reply] assms(2) show ?thesis by simp
next
  case (EvSnapshot index sn)
  with Snapshot_wf [OF assms(1)] assms(2) show ?thesis by simp
next
  case EvApplyTop
  with applyTop_wf [OF assms(1)] show ?thesis by auto
next
  case EvApplyGap
  with applyGap_wf [OF assms(1)] show ?thesis by auto
next
  case EvKill
  have "wf_raft (Kill rf)" using assms(1) by (rule wf_raft_frame) (auto simp: Kill_def)
  with EvKill show ?thesis by simp
qed

lemma Make_wf:
  assumes "durable rf = (ct, vf, l, li, lt)" "l \<noteq> []" "0 \<le> li" "0 \<le> m" "m < int (length ps)"
  shows "wf_raft (Make ps m (persister rf) now)"
  using readPersist_durable [of ps m rf now] assms
  by (auto simp: wf_raft_def volatileImage_def lastLogIndex_def Suc_le_eq)


primrec events_ok :: "('c, 'b) event list \<Rightarrow> ('c, 'b) Raft \<Rightarrow> bool" where
  "events_ok [] rf = True"
| "events_ok (ev # evs) rf =
     (event_ok ev rf \<and> (case handle ev rf of None \<Rightarrow> True | Some rf' \<Rightarrow> events_ok evs rf'))"

lemma handles_wf:
  "wf_raft rf \<Longrightarrow> events_ok evs rf \<Longrightarrow> \<exists>rf'. handles evs rf = Some rf' \<and> wf_raft rf'"
proof (induction evs arbitrary: rf)
  case (Cons ev evs)
  then obtain rf1 where "handle ev rf = Some rf1" "wf_raft rf1"
    using handle_wf [of rf ev] by auto
  with Cons show ?case by simp
qed simp

lemma bootedPeer_fields:
  "log (bootedPeer m) = [\<lparr>eTerm = 0, eCommand = None\<rparr>]" "lastIncludedIndex (bootedPeer m) = 0"
  "lastIncludedTerm (bootedPeer m) = 0" "currentTerm (bootedPeer m) = 0" "votedFor (bootedPeer m) = - 1"
  "commitIndex (bootedPeer m) = 0" "lastApplied (bootedPeer m) = 0" "state (bootedPeer m) = follower"
  "peers (bootedPeer m) = replicate 3 (NewPeer ''localhost:7000'')" "me (bootedPeer m) = m"
  "pendingSnapshot (bootedPeer m) = None"
  by (simp_all add: bootedPeer_def Make_def readPersist_def)

lemma wf_bootedPeer: "0 \<le> m \<Longrightarrow> m < 3 \<Longrightarrow> wf_raft (bootedPeer m)"
  by (simp add: wf_raft_def bootedPeer_fields lastLogIndex_def)

text \<open>
  A well-formed peer that handles any sequence of requests, replies, timeouts, client commands,
  compactions and apply steps never panics (no index or slice bound is violated) and stays well
  formed, as long as the other parties keep to what \<open>event_ok\<close> says.
\<close>

theorem peer_never_panics:
  assumes "wf_raft rf" and "events_ok evs rf"
  shows "\<exists>rf'. handles evs rf = Some rf' \<and> wf_raft rf'"
  using assms by (rule handles_wf)

definition appendCall :: "nat \<Rightarrow> nat AppendEntriesArgs" where
  "appendCall c = \<lparr>aeTerm = 1, aeLeaderId = 1, aePrevLogIndex = 0, aePrevLogTerm = 0,
     aeEntries = [\<lparr>eTerm = 1, eCommand = Some c\<rparr>], aeLeaderCommit = 1\<rparr>"

theorem peer_never_panics_witness:
  "\<exists>rf'. handles [EvAppendEntries 4 (appendCall 7), EvApplyTop, EvRequestVote 5 (voteCall 2 2)] (bootedPeer 0) = Some rf'
     \<and> wf_raft rf'"
proof (rule peer_never_panics)
  show "wf_raft (bootedPeer 0)" by (simp add: wf_bootedPeer)
  show "events_ok [EvAppendEntries 4 (appendCall 7), EvApplyTop, EvRequestVote 5 (voteCall 2 2)] (bootedPeer 0)"
    by (simp add: appendCall_def bootedPeer_fields split: option.split)
qed

text \<open>
  C10: When the entry before the sent ones matches, \<open>AppendEntries\<close> succeeds, and the log becomes
  the reference merge: everything up to \<open>PrevLogIndex\<close> is kept, the peer's later entries are kept as
  long as their terms agree with the leader's, and from the first difference on they are replaced.
  The result is on stable storage before the reply is sent.
\<close>

theorem AppendEntries_merges:
  assumes "currentTerm rf \<le> aeTerm args" and "lastIncludedIndex rf \<le> aePrevLogIndex args"
    and "aePrevLogIndex args \<le> lastLogIndex rf" and "logTerm rf (aePrevLogIndex args) = Some (aePrevLogTerm args)"
  shows "\<exists>reply rf' n. AppendEntries now args rf = Some (reply, rf') \<and> aerSuccess reply
    \<and> n = nat (aePrevLogIndex args + 1 - lastIncludedIndex rf)
    \<and> log rf' = take n (log rf) @ merge_log (aeEntries args) (drop n (log rf))
    \<and> durable rf' = (aeTerm args, votedFor rf, log rf', lastIncludedIndex rf, lastIncludedTerm rf)"
  using AppendEntries_match_merge [OF assms, of now] by (simp add: volatileImage_def)

theorem AppendEntries_merges_witness:
  "\<exists>reply rf'. AppendEntries 4 (appendCall 7) (bootedPeer 0) = Some (reply, rf') \<and> aerSuccess reply
     \<and> log rf' = [\<lparr>eTerm = 0, eCommand = None\<rparr>, \<lparr>eTerm = 1, eCommand = Some 7\<rparr>]"
proof -
  have "currentTerm (bootedPeer 0) \<le> aeTerm (appendCall 7)"
    "lastIncludedIndex (bootedPeer 0) \<le> aePrevLogIndex (appendCall 7)"
    "aePrevLogIndex (appendCall 7) \<le> lastLogIndex (bootedPeer 0)"
    "logTerm (bootedPeer 0) (aePrevLogIndex (appendCall 7)) = Some (aePrevLogTerm (appendCall 7))"
    by (simp_all add: bootedPeer_fields appendCall_def lastLogIndex_def logTerm_def)
  from AppendEntries_merges [OF this, of 4] show ?thesis
    by (auto simp: bootedPeer_fields appendCall_def)
qed

text \<open>
  C22: A leader's commit index moves only to an entry of its own term that a majority of the peers
  is known to hold, never backwards, and as far as such an entry exists.
\<close>

theorem commit_needs_majority:
  assumes "leaderArrays rf" and "lastIncludedIndex rf \<le> commitIndex rf"
  shows "\<exists>c. maybeAdvanceCommitIndex rf = Some (rf\<lparr>commitIndex := c\<rparr>)
    \<and> (c = commitIndex rf \<or> commitIndex rf < c \<and> c \<le> lastLogIndex rf
         \<and> logTerm rf c = Some (currentTerm rf) \<and> majority (length (peers rf)) (replicas rf c))
    \<and> (\<forall>m. c < m \<and> m \<le> lastLogIndex rf \<longrightarrow>
         \<not> (logTerm rf m = Some (currentTerm rf) \<and> majority (length (peers rf)) (replicas rf m)))"
  using maybeAdvanceCommitIndex_spec [OF assms] by (simp add: committable_def)

definition leadingPeer :: "(nat, nat) Raft" where
  "leadingPeer = (bootedPeer 0)\<lparr>currentTerm := 1, state := leader, nextIndex := [1, 1, 1], matchIndex := [0, 1, 0],
     log := [\<lparr>eTerm = 0, eCommand = None\<rparr>, \<lparr>eTerm = 1, eCommand = Some 7\<rparr>]\<rparr>"

theorem commit_needs_majority_witness:
  "maybeAdvanceCommitIndex leadingPeer = Some (leadingPeer\<lparr>commitIndex := 1\<rparr>)"
proof -
  have pre: "leaderArrays leadingPeer" "lastIncludedIndex leadingPeer \<le> commitIndex leadingPeer"
    by (simp_all add: leadingPeer_def leaderArrays_def bootedPeer_fields)
  have last: "lastLogIndex leadingPeer = 1" "commitIndex leadingPeer = 0"
    by (simp_all add: leadingPeer_def lastLogIndex_def bootedPeer_fields)
  have "replicas leadingPeer 1 = {0, 1}"
    by (auto simp: replicas_def leadingPeer_def bootedPeer_fields less_Suc_eq numeral_3_eq_3)
  then have one: "logTerm leadingPeer 1 = Some (currentTerm leadingPeer)"
    "majority (length (peers leadingPeer)) (replicas leadingPeer 1)"
    by (simp_all add: majority_def leadingPeer_def bootedPeer_fields logTerm_def logIndex_def go_nth_def)
  obtain c where c: "maybeAdvanceCommitIndex leadingPeer = Some (leadingPeer\<lparr>commitIndex := c\<rparr>)"
    "c = 0 \<or> 0 < c \<and> c \<le> 1" "\<not> c < 1"
    using commit_needs_majority [OF pre] one unfolding last by fastforce
  then have "c = 1" by linarith
  with c(1) show ?thesis by simp
qed

end
