(* ===== verification/Raft_Apply.thy ===== *)
theory Raft_Apply
  imports Raft_Log
begin

text \<open>
  Replication from a leader to a follower, log compaction, snapshot installation, delivery to the
  service, and restarts (\<open>src/internal/raft/raft.go\<close>).

  \<open>entryAt\<close> reads a log by absolute index, so the lemmas say what each operation does to the
  entries whatever part of the log is compacted.  \<open>drain\<close> runs the inner loop of
  \<open>applyLoop\<close> to its end.
\<close>

section \<open>Replication\<close>

text \<open>
  What a round of \<open>sendHeartbeats\<close> sends to a peer: the snapshot when the peer is behind it, and
  otherwise the entries from \<open>nextIndex\<close> to the end of the log.
\<close>

lemma sendHeartbeats_peer_spec:
  assumes "wf_raft rf" "state rf = leader" "i < length (peers rf)"
  defines "ni \<equiv> nextIndex rf ! i"
  shows "if ni \<le> lastIncludedIndex rf
    then sendHeartbeats_peer hb i rf = Some (SnapshotRequest (snapshotArgs rf))
    else \<exists>args. sendHeartbeats_peer hb i rf = Some (AppendRequest args)
      \<and> (aeTerm args, aeLeaderId args, aeLeaderCommit args) = hb
      \<and> aePrevLogIndex args = ni - 1 \<and> logTerm rf (ni - 1) = Some (aePrevLogTerm args)
      \<and> aePrevLogIndex args + int (length (aeEntries args)) = lastLogIndex rf
      \<and> aeEntries args = drop (nat (ni - lastIncludedIndex rf)) (log rf)"
proof -
  have slots: "leaderSlots rf" using assms by (simp add: wf_raft_def)
  note nth = leaderSlots_nth [OF slots assms(3), folded ni_def]
  show ?thesis
  proof (cases "ni \<le> lastIncludedIndex rf")
    case True
    with assms(2) nth show ?thesis by (cases hb) (simp add: sendHeartbeats_peer_def)
  next
    case False
    obtain t where t: "logTerm rf (ni - 1) = Some t"
      using logTerm_in_range [of rf "ni - 1"] False nth(7) by auto
    have "go_slice_from (log rf) (logIndex rf ni) = Some (drop (nat (ni - lastIncludedIndex rf)) (log rf))"
      using False nth(7) by (simp add: go_simps logIndex_def lastLogIndex_def)
    with t False assms(2) nth show ?thesis
      by (cases hb) (auto simp: sendHeartbeats_peer_def lastLogIndex_def)
  qed
qed

text \<open>Two logs agree where they both have an entry of the same term at the same index.\<close>

definition log_matching :: "('c, 'b) Raft \<Rightarrow> ('c, 'b) Raft \<Rightarrow> bool" where
  "log_matching rf rf' \<longleftrightarrow> (\<forall>i e e'. entryAt rf i = Some e \<and> entryAt rf' i = Some e' \<and> eTerm e = eTerm e' \<longrightarrow> e = e')"

lemma entryAt_nth:
  "lastIncludedIndex rf < i \<Longrightarrow> entryAt rf i =
     (if nat (i - lastIncludedIndex rf) < length (log rf) then Some (log rf ! nat (i - lastIncludedIndex rf)) else None)"
  by (auto simp: entryAt_def logIndex_def go_nth_def)

lemma AppendEntries_replicates:
  assumes lead: "wf_raft ldr" "state ldr = leader" "i < length (peers ldr)"
    and req: "sendHeartbeats_peer hb i ldr = Some (AppendRequest args)"
    and resp: "AppendEntries now args rf = Some (reply, rf')" "aerSuccess reply"
    and agree: "log_matching rf ldr"
    and range: "aePrevLogIndex args < j" "j \<le> lastLogIndex ldr"
  shows "entryAt rf' j = entryAt ldr j"
proof -
  define ni where "ni = nextIndex ldr ! i"
  have spec: "\<not> ni \<le> lastIncludedIndex ldr" "aePrevLogIndex args = ni - 1"
    "aeEntries args = drop (nat (ni - lastIncludedIndex ldr)) (log ldr)"
    using sendHeartbeats_peer_spec [OF lead, of hb] req by (auto simp: ni_def split: if_splits)
  from resp(1) obtain ok: "currentTerm rf \<le> aeTerm args" "lastIncludedIndex rf \<le> aePrevLogIndex args"
    "aePrevLogIndex args \<le> lastLogIndex rf" "logTerm rf (aePrevLogIndex args) = Some (aePrevLogTerm args)"
    by (rule AppendEntries_cases) (use resp(2) in auto)
  define n where "n = nat (aePrevLogIndex args + 1 - lastIncludedIndex rf)"
  define k where "k = nat (j - (aePrevLogIndex args + 1))"
  define old where "old = drop n (log rf)"
  have rf': "log rf' = take n (log rf) @ merge_log (aeEntries args) old" "lastIncludedIndex rf' = lastIncludedIndex rf"
    using AppendEntries_match_merge [OF ok, of now] resp(1) by (simp_all add: n_def old_def)
  have n: "n \<le> length (log rf)" "int n = aePrevLogIndex args + 1 - lastIncludedIndex rf"
    using ok by (auto simp: n_def lastLogIndex_def)
  have es: "e < length (aeEntries args) \<Longrightarrow> entryAt ldr (ni + int e) = Some (aeEntries args ! e)" for e
  proof -
    have "nat (ni + int e - lastIncludedIndex ldr) = nat (ni - lastIncludedIndex ldr) + e"
      using spec(1) by simp
    then show "e < length (aeEntries args) \<Longrightarrow> entryAt ldr (ni + int e) = Some (aeEntries args ! e)"
      using spec by (simp add: entryAt_nth nth_drop)
  qed
  have "old ! e = aeEntries args ! e"
    if "e < length (aeEntries args)" "e < length old" "eTerm (old ! e) = eTerm (aeEntries args ! e)" for e
  proof -
    have idx: "nat (ni + int e - lastIncludedIndex rf) = n + e" using n spec(2) ok(2) by simp
    have "entryAt rf (ni + int e) = Some (old ! e)"
      using that(2) n spec(2) ok(2) idx by (simp add: entryAt_nth old_def nth_drop)
    with es [OF that(1)] that(3) agree show ?thesis by (auto simp: log_matching_def)
  qed
  then have pre: "take (length (aeEntries args)) (merge_log (aeEntries args) old) = aeEntries args"
    by (rule merge_log_prefix)
  have k: "k < length (aeEntries args)" "j = ni + int k"
    using range spec by (auto simp: k_def lastLogIndex_def)
  have "nat (j - lastIncludedIndex rf) = n + k" "lastIncludedIndex rf < j"
    using k spec(2) n(2) ok(2) by (auto simp: n_def)
  moreover have "merge_log (aeEntries args) old ! k = aeEntries args ! k"
    using pre k(1) by (metis nth_take)
  moreover have "k < length (merge_log (aeEntries args) old)"
    using k(1) merge_log_length [of "aeEntries args" old] by simp
  ultimately have "entryAt rf' j = Some (aeEntries args ! k)"
    using rf' n(1) by (simp add: entryAt_nth nth_append)
  with es [OF k(1)] k(2) show ?thesis by simp
qed

section \<open>Compaction\<close>

lemma Snapshot_entries:
  assumes "lastIncludedIndex rf < index" "index \<le> lastLogIndex rf" "Snapshot index sn rf = Some rf'"
  shows "lastIncludedIndex rf' = index" "lastLogIndex rf' = lastLogIndex rf"
    "index \<le> i \<Longrightarrow> logTerm rf' i = logTerm rf i" "index < i \<Longrightarrow> entryAt rf' i = entryAt rf i"
    "ReadSnapshot (persister rf') = sn" "durable rf' = volatileImage rf'"
proof -
  define n where "n = nat (index - lastIncludedIndex rf)"
  obtain t where t: "logTerm rf index = Some t" and
    rf': "rf' = persistWithSnapshot sn (rf\<lparr>log := (log rf ! n)\<lparr>eCommand := None\<rparr> # drop (Suc n) (log rf),
        lastIncludedIndex := index, lastIncludedTerm := t\<rparr>)"
    using Snapshot_trims [OF assms(1,2), of sn] assms(3) by (auto simp: n_def)
  have n: "n < length (log rf)" "int n = index - lastIncludedIndex rf" "0 < n"
    using assms(1,2) by (auto simp: n_def lastLogIndex_def)
  show "lastIncludedIndex rf' = index" by (simp add: rf')
  show "lastLogIndex rf' = lastLogIndex rf" using n by (simp add: rf' lastLogIndex_def)
  show ent: "entryAt rf' i = entryAt rf i" if "index < i" for i
  proof -
    have "nat (i - index) = Suc (nat (i - index - 1))" using that by simp
    moreover have "nat (i - lastIncludedIndex rf) = Suc n + nat (i - index - 1)" using that n(2) by simp
    ultimately show ?thesis using that assms(1) n(1) by (auto simp: rf' entryAt_nth nth_drop)
  qed
  show "logTerm rf' i = logTerm rf i" if "index \<le> i"
  proof (cases "i = index")
    case True
    then show ?thesis using t by (simp add: rf' logTerm_def)
  next
    case False
    with that assms(1) ent [of i] show ?thesis by (simp add: logTerm_entryAt rf')
  qed
  show "ReadSnapshot (persister rf') = sn" by (simp add: rf' persistWithSnapshot_def)
  show "durable rf' = volatileImage rf'" by (simp add: rf' volatileImage_def)
qed

lemma isKeptLog_entries:
  assumes "lastIncludedIndex rf < isLastIncludedIndex args"
    "lastIncludedIndex rf' = isLastIncludedIndex args" "log rf' = isKeptLog args rf"
  shows "isLastIncludedIndex args < i \<Longrightarrow> entryAt rf' i = entryAt rf i"
proof -
  assume i: "isLastIncludedIndex args < i"
  define n where "n = nat (isLastIncludedIndex args - lastIncludedIndex rf)"
  show ?thesis
  proof (cases "isLastIncludedIndex args \<le> lastLogIndex rf")
    case True
    then have "n < length (log rf)" using assms(1) by (simp add: n_def lastLogIndex_def)
    moreover have "nat (i - lastIncludedIndex rf) = n + nat (i - isLastIncludedIndex args)"
      using i assms(1) by (simp add: n_def)
    ultimately show ?thesis using True i assms by (auto simp: entryAt_nth isKeptLog_def n_def [symmetric] nth_drop)
  next
    case False
    then show ?thesis using i assms by (auto simp: entryAt_nth isKeptLog_def lastLogIndex_def)
  qed
qed


section \<open>Delivery\<close>

lemma applyGap_progress:
  "applyGap rf = Some (Some msg, rf') \<Longrightarrow> commitIndex rf' = commitIndex rf \<and> lastApplied rf < commitIndex rf
     \<and> lastApplied rf < lastApplied rf'"
proof (induction rf arbitrary: rf' rule: applyGap.induct)
  case (1 rf)
  then show ?case
    by (fastforce simp: applyGap.simps [of rf] Let_def bind_Some_conv split: if_splits)
qed

text \<open>The inner loop of \<open>applyLoop\<close> when no other goroutine takes the lock in between.\<close>

function drain :: "('c, 'b) Raft \<Rightarrow> (('c, 'b) ApplyMsg list \<times> ('c, 'b) Raft) option" where
  "drain rf =
     (case applyGap rf of
        None \<Rightarrow> None
      | Some (None, rf') \<Rightarrow> Some ([], rf')
      | Some (Some msg, rf') \<Rightarrow> do { (ms, rf'') \<leftarrow> drain rf'; Some (msg # ms, rf'') })"
  by pat_completeness auto
termination
  by (relation "measure (\<lambda>rf. nat (commitIndex rf - lastApplied rf))") (auto dest: applyGap_progress)

declare drain.simps [simp del]

lemma wf_advance:
  "wf_raft rf \<Longrightarrow> lastApplied rf < commitIndex rf \<Longrightarrow> wf_raft (rf\<lparr>lastApplied := lastApplied rf + 1\<rparr>)"
  by (auto simp: wf_raft_def lastLogIndex_def leaderSlots_def leaderArrays_def)

definition deliver :: "('c, 'b) Raft \<Rightarrow> int \<Rightarrow> ('c, 'b) ApplyMsg" where
  "deliver rf i = commandMsg (Option.bind (entryAt rf i) eCommand) i"

lemma drain_spec:
  assumes "wf_raft rf"
  shows "drain rf = Some (map (deliver rf) [lastApplied rf + 1..commitIndex rf], rf\<lparr>lastApplied := commitIndex rf\<rparr>)"
  using assms
proof (induction "nat (commitIndex rf - lastApplied rf)" arbitrary: rf)
  case 0
  then have "lastApplied rf = commitIndex rf" by (simp add: wf_raft_def)
  with 0 show ?case by (simp add: drain.simps [of rf] applyGap_spec)
next
  case (Suc k)
  define rf1 where "rf1 = rf\<lparr>lastApplied := lastApplied rf + 1\<rparr>"
  have less: "lastApplied rf < commitIndex rf" using Suc.hyps(2) by simp
  have wf1: "wf_raft rf1" using wf_advance [OF Suc.prems less] by (simp add: rf1_def)
  have "drain rf1 = Some (map (deliver rf1) [lastApplied rf1 + 1..commitIndex rf1], rf1\<lparr>lastApplied := commitIndex rf1\<rparr>)"
    using Suc.hyps wf1 by (intro Suc.hyps(1)) (simp_all add: rf1_def)
  moreover have "deliver rf1 = deliver rf"
    by (rule ext) (simp add: rf1_def deliver_def entryAt_def logIndex_def)
  moreover have "applyGap rf = Some (Some (deliver rf (lastApplied rf + 1)), rf1)"
    using Suc.prems less by (auto simp: applyGap_spec rf1_def deliver_def entryAt_nth wf_raft_def lastLogIndex_def)
  ultimately show ?case
    using less by (simp add: drain.simps [of rf] rf1_def upto_rec1)
qed


section \<open>Properties\<close>

lemma wf_leadingPeer: "wf_raft leadingPeer"
  by (simp add: leadingPeer_def wf_raft_def bootedPeer_fields leaderSlots_def leaderArrays_def lastLogIndex_def)

definition appliedPeer :: "(nat, nat) Raft" where
  "appliedPeer = (bootedPeer 0)\<lparr>currentTerm := 1, commitIndex := 3, lastApplied := 2,
     log := [\<lparr>eTerm = 0, eCommand = None\<rparr>, \<lparr>eTerm = 1, eCommand = Some 7\<rparr>,
             \<lparr>eTerm = 1, eCommand = Some 8\<rparr>, \<lparr>eTerm = 1, eCommand = Some 9\<rparr>]\<rparr>"

lemma appliedPeer_fields:
  "currentTerm appliedPeer = 1" "commitIndex appliedPeer = 3" "lastApplied appliedPeer = 2"
  "lastIncludedIndex appliedPeer = 0" "lastLogIndex appliedPeer = 3"
  "log appliedPeer = [\<lparr>eTerm = 0, eCommand = None\<rparr>, \<lparr>eTerm = 1, eCommand = Some 7\<rparr>,
             \<lparr>eTerm = 1, eCommand = Some 8\<rparr>, \<lparr>eTerm = 1, eCommand = Some 9\<rparr>]"
  by (simp_all add: appliedPeer_def bootedPeer_fields lastLogIndex_def)

lemma wf_appliedPeer: "wf_raft appliedPeer"
  by (simp add: appliedPeer_def wf_raft_def bootedPeer_fields lastLogIndex_def)

definition installCall :: "nat InstallSnapshotArgs" where
  "installCall = \<lparr>isTerm = 1, isLeaderId = 1, isLastIncludedIndex = 1, isLastIncludedTerm = 5, isData = [42]\<rparr>"

text \<open>
  Replication: when a follower accepts the entries a leader sends, and the two logs agree
  wherever they hold entries of the same term, the follower's log equals the leader's from the entry
  after \<open>PrevLogIndex\<close> to the leader's last entry.
\<close>

theorem accepted_entries_replicate:
  assumes "wf_raft ldr" and "state ldr = leader" and "i < length (peers ldr)"
    and "sendHeartbeats_peer hb i ldr = Some (AppendRequest args)"
    and "AppendEntries now args rf = Some (reply, rf')" and "aerSuccess reply"
    and "log_matching rf ldr" and "aePrevLogIndex args < j" and "j \<le> lastLogIndex ldr"
  shows "entryAt rf' j = entryAt ldr j"
  using assms by (rule AppendEntries_replicates)

theorem accepted_entries_replicate_witness:
  "\<exists>args reply rf'. sendHeartbeats_peer (1, 0, 0) 1 leadingPeer = Some (AppendRequest args)
     \<and> AppendEntries 9 args (bootedPeer 1) = Some (reply, rf') \<and> aerSuccess reply
     \<and> entryAt rf' 1 = entryAt leadingPeer 1"
proof -
  define args :: "nat AppendEntriesArgs" where "args = \<lparr>aeTerm = 1, aeLeaderId = 0, aePrevLogIndex = 0,
     aePrevLogTerm = 0, aeEntries = [\<lparr>eTerm = 1, eCommand = Some 7\<rparr>], aeLeaderCommit = 0\<rparr>"
  have lead: "state leadingPeer = leader" "1 < length (peers leadingPeer)" "1 \<le> lastLogIndex leadingPeer"
    by (simp_all add: leadingPeer_def bootedPeer_fields lastLogIndex_def)
  have req: "sendHeartbeats_peer (1, 0, 0) 1 leadingPeer = Some (AppendRequest args)"
    by (simp add: sendHeartbeats_peer_def leadingPeer_def bootedPeer_fields args_def logTerm_def logIndex_def
        go_nth_def go_slice_from_def)
  have "\<exists>reply rf'. AppendEntries 9 args (bootedPeer 1) = Some (reply, rf') \<and> aerSuccess reply"
    by (subst AppendEntries_match_merge)
      (simp_all add: args_def bootedPeer_fields lastLogIndex_def logTerm_def)
  then obtain reply rf' where resp: "AppendEntries 9 args (bootedPeer 1) = Some (reply, rf')" "aerSuccess reply"
    by blast
  have "log_matching (bootedPeer 1) leadingPeer"
    by (auto simp: log_matching_def entryAt_def bootedPeer_fields logIndex_def go_nth_def split: if_splits)
  with accepted_entries_replicate [OF wf_leadingPeer lead(1,2) req resp _ _ lead(3)] req resp show ?thesis
    by (auto simp: args_def)
qed

text \<open>
  Compaction at an index the service has applied keeps the term at that index and every entry
  above it, and stores the new state and the service's snapshot together.
\<close>

theorem Snapshot_keeps_rest:
  assumes "wf_raft rf" and "lastIncludedIndex rf < index" and "index \<le> lastApplied rf"
  shows "\<exists>rf'. Snapshot index sn rf = Some rf' \<and> wf_raft rf' \<and> lastIncludedIndex rf' = index
    \<and> lastLogIndex rf' = lastLogIndex rf \<and> logTerm rf' index = logTerm rf index
    \<and> (\<forall>i > index. entryAt rf' i = entryAt rf i)
    \<and> durable rf' = volatileImage rf' \<and> ReadSnapshot (persister rf') = sn"
proof -
  obtain rf' where rf': "Snapshot index sn rf = Some rf'" "wf_raft rf'" using Snapshot_wf assms by blast
  have "index \<le> lastLogIndex rf" using assms by (simp add: wf_raft_def)
  note ent = Snapshot_entries [OF assms(2) this rf'(1)]
  with rf' show ?thesis by auto
qed

theorem Snapshot_keeps_rest_witness:
  "\<exists>rf'. Snapshot 1 [42] appliedPeer = Some rf' \<and> lastIncludedIndex rf' = 1 \<and> entryAt rf' 2 = entryAt appliedPeer 2"
  using Snapshot_keeps_rest [OF wf_appliedPeer, of 1 "[42]"] by (auto simp: appliedPeer_fields)



text \<open>
  A peer made from the persister of a peer resumes with exactly the durable term, vote, log and
  snapshot position, as a well-formed follower that has applied what the snapshot covers.
\<close>

theorem restart_resumes:
  assumes "durable rf = (ct, vf, l, li, lt)" and "l \<noteq> []" and "0 \<le> li" and "0 \<le> m" and "m < int (length ps)"
  shows "wf_raft (Make ps m (persister rf) now) \<and> volatileImage (Make ps m (persister rf) now) = (ct, vf, l, li, lt)
    \<and> lastApplied (Make ps m (persister rf) now) = li \<and> commitIndex (Make ps m (persister rf) now) = li
    \<and> state (Make ps m (persister rf) now) = follower"
  using Make_wf [OF assms, of now] readPersist_durable [of ps m rf now] assms(1)
  by (simp add: volatileImage_def)

theorem restart_resumes_witness:
  "lastApplied (Make (peers appliedPeer) 0 (persister (persist appliedPeer)) 5) = 0
     \<and> log (Make (peers appliedPeer) 0 (persister (persist appliedPeer)) 5) = log appliedPeer"
proof -
  have "durable (persist appliedPeer) = (1, - 1, log appliedPeer, 0, 0)"
    by (simp add: volatileImage_def appliedPeer_def bootedPeer_fields)
  from restart_resumes [OF this, of 0 "peers appliedPeer" 5] show ?thesis
    by (simp add: appliedPeer_fields volatileImage_def) (simp add: appliedPeer_def bootedPeer_fields)
qed

text \<open>
  \<open>InstallSnapshot\<close> keeps whatever the log holds above the snapshot's index, whatever term
  the log has at that index: the term in the request is recorded but never compared with the log.
\<close>

theorem InstallSnapshot_keeps_suffix:
  assumes "currentTerm rf \<le> isTerm args" and "lastIncludedIndex rf < isLastIncludedIndex args"
    and "isLastIncludedIndex args < i"
  shows "\<exists>reply rf'. InstallSnapshot now args rf = Some (reply, rf') \<and> entryAt rf' i = entryAt rf i
    \<and> lastIncludedTerm rf' = isLastIncludedTerm args"
  using InstallSnapshot_installed [OF assms(1,2), of now]
  by (auto simp: isInstalled_def intro!: isKeptLog_entries [OF assms(2) _ _ assms(3)])

theorem InstallSnapshot_keeps_suffix_witness:
  "logTerm appliedPeer 1 \<noteq> Some (isLastIncludedTerm installCall) \<and>
   (\<exists>reply rf'. InstallSnapshot 9 installCall appliedPeer = Some (reply, rf') \<and> entryAt rf' 2 = entryAt appliedPeer 2)"
proof -
  have "logTerm appliedPeer 1 \<noteq> Some (isLastIncludedTerm installCall)"
    by (simp add: logTerm_def appliedPeer_fields installCall_def logIndex_def go_nth_def)
  moreover have "currentTerm appliedPeer \<le> isTerm installCall"
    "lastIncludedIndex appliedPeer < isLastIncludedIndex installCall" "isLastIncludedIndex installCall < 2"
    by (simp_all add: appliedPeer_fields installCall_def)
  from InstallSnapshot_keeps_suffix [OF this, of 9]
  have "\<exists>reply rf'. InstallSnapshot 9 installCall appliedPeer = Some (reply, rf') \<and> entryAt rf' 2 = entryAt appliedPeer 2"
    by blast
  ultimately show ?thesis ..
qed

text \<open>
  A snapshot above the last compaction but at or below what the peer has already applied is
  still handed to the service, and \<open>lastApplied\<close> stays where it was: the next command delivered is
  the one after \<open>lastApplied\<close>, so the service is set back to the snapshot and never receives the
  entries in between again.
\<close>

theorem old_snapshot_rolls_service_back:
  assumes "wf_raft rf" and "currentTerm rf \<le> isTerm args" and "lastIncludedIndex rf < isLastIncludedIndex args"
    and "isLastIncludedIndex args < lastApplied rf" and "lastApplied rf < commitIndex rf"
  shows "\<exists>reply rf1 rf2 msg rf3. InstallSnapshot now args rf = Some (reply, rf1)
    \<and> applyTop rf1 = Some (Some (snapshotMsg args), rf2) \<and> SnapshotIndex (snapshotMsg args) = isLastIncludedIndex args
    \<and> applyTop rf2 = Some (Some msg, rf3) \<and> CommandIndex msg = lastApplied rf + 1"
proof -
  obtain reply rf1 where r1: "InstallSnapshot now args rf = Some (reply, rf1)" "wf_raft rf1"
    using InstallSnapshot_wf [OF assms(1)] by blast
  have f: "pendingSnapshot rf1 = Some (snapshotMsg args)" "lastApplied rf1 = lastApplied rf"
    "commitIndex rf1 = commitIndex rf"
    using InstallSnapshot_installed [OF assms(2,3), of now] r1(1) assms(4,5) by (auto simp: isInstalled_def)
  define rf2 where "rf2 = rf1\<lparr>pendingSnapshot := None\<rparr>"
  have "applyTop rf1 = Some (Some (snapshotMsg args), rf2)" using f by (simp add: applyTop_def rf2_def)
  moreover have "wf_raft rf2" using r1(2) by (rule wf_raft_frame) (simp_all add: rf2_def)
  then have "\<exists>msg rf3. applyTop rf2 = Some (Some msg, rf3) \<and> CommandIndex msg = lastApplied rf + 1"
    using assms(5) f by (auto simp: applyTop_def applyGap_spec rf2_def commandMsg_def)
  ultimately show ?thesis using r1(1) by (auto simp: snapshotMsg_def)
qed

theorem old_snapshot_rolls_service_back_witness:
  "\<exists>reply rf1 rf2 msg rf3. InstallSnapshot 9 installCall appliedPeer = Some (reply, rf1)
    \<and> applyTop rf1 = Some (Some (snapshotMsg installCall), rf2)
    \<and> applyTop rf2 = Some (Some msg, rf3) \<and> CommandIndex msg = 3"
proof -
  have "currentTerm appliedPeer \<le> isTerm installCall"
    "lastIncludedIndex appliedPeer < isLastIncludedIndex installCall"
    "isLastIncludedIndex installCall < lastApplied appliedPeer" "lastApplied appliedPeer < commitIndex appliedPeer"
    by (simp_all add: appliedPeer_fields installCall_def)
  from old_snapshot_rolls_service_back [OF wf_appliedPeer this, of 9] show ?thesis
    by (simp add: appliedPeer_fields) blast
qed

end
