(* ===== verification/Store.thy ===== *)
theory Store
  imports Raft_Apply
begin

text \<open>
  The job store, \<open>src/internal/store/store.go\<close> and \<open>snapshot.go\<close>: a replicated state
  machine fed by Raft.

  Each part of a function that runs under \<open>s.mu\<close> is one definition: \<open>Submit_begin\<close> and
  \<open>Submit_timeout\<close> are the two of \<open>Submit\<close>, \<open>applyLoop_msg\<close> is the body of
  \<open>applyLoop\<close>, \<open>applyCmd\<close> is \<open>apply\<close> (with its \<open>switch\<close> as
  \<open>applySwitch\<close> and its notification as \<open>notify\<close>), \<open>makeStore\<close> is
  \<open>Make\<close>.  A snapshot is the list of the gob values in it, of which there is one; a time is the
  number of nanoseconds since the zero time.

  The locale \<open>replicated_machine\<close> states what Raft needs of a state machine and is interpreted on
  the store; \<open>spec\<close> is the contract of the store, and \<open>refines\<close> the simulation between them;
  \<open>waiters_ok\<close> is the invariant of the waiting callers.
\<close>

section \<open>Data\<close>

datatype submit_error = ErrNotLeader | ErrTimeout

type_synonym CmdType = "8 word"

definition CmdUpsert :: CmdType where "CmdUpsert = 0"
definition CmdDelete :: CmdType where "CmdDelete = 1"
definition CmdRecord :: CmdType where "CmdRecord = 2"

record Job =
  jobID :: string
  jobName :: string
  CronExpr :: string
  jobExecutor :: string
  Payload :: string
  CatchupPolicy :: string
  NextRun :: int
  LastRun :: int
  LastStatus :: string
  CreatedAt :: int

record RunRecord =
  runJobID :: string
  StartedAt :: int
  FinishedAt :: int
  ExitCode :: int
  Output :: string
  Status :: string

definition zeroJob :: Job where
  "zeroJob = \<lparr>jobID = [], jobName = [], CronExpr = [], jobExecutor = [], Payload = [], CatchupPolicy = [],
     NextRun = 0, LastRun = 0, LastStatus = [], CreatedAt = 0\<rparr>"

definition zeroRun :: RunRecord where
  "zeroRun = \<lparr>runJobID = [], StartedAt = 0, FinishedAt = 0, ExitCode = 0, Output = [], Status = []\<rparr>"

record Cmd =
  cmdType :: CmdType
  ReqID :: string
  cmdJob :: Job
  cmdID :: string
  cmdRun :: RunRecord

definition maxRunsPerJob :: nat where "maxRunsPerJob = 10"

record pendingEntry =
  peCh :: nat
  peReqID :: string

record storeState =
  sJobs :: "string \<rightharpoonup> Job"
  sRuns :: "string \<rightharpoonup> RunRecord list"

text \<open>
  The channels of the waiters are cells of a heap \<open>chans\<close> of buffers of capacity one, allocated
  in order; a message is \<open>None\<close> for \<open>nil\<close>.
\<close>

record Store =
  rfSet :: bool
  jobs :: "string \<rightharpoonup> Job"
  runs :: "string \<rightharpoonup> RunRecord list"
  pending :: "int \<rightharpoonup> pendingEntry"
  applyCount :: int
  snapThreshold :: int
  chans :: "nat \<Rightarrow> submit_error option list"
  nextChan :: nat

type_synonym storeMsg = "(Cmd, storeState) ApplyMsg"
type_synonym storeRaft = "(Cmd, storeState) Raft"


section \<open>Snapshots\<close>

definition encodeSnapshot :: "Store \<Rightarrow> storeState list" where
  "encodeSnapshot s = [\<lparr>sJobs = jobs s, sRuns = runs s\<rparr>]"

definition installSnapshot :: "storeState list \<Rightarrow> Store \<Rightarrow> Store" where
  "installSnapshot data s =
     (case data of [] \<Rightarrow> s | st # _ \<Rightarrow> s\<lparr>jobs := sJobs st, runs := sRuns st\<rparr>)"

definition makeStore :: "bool \<Rightarrow> (Cmd, storeState) Persister option \<Rightarrow> Store" where
  "makeStore rf pr =
     (let s = \<lparr>rfSet = rf, jobs = Map.empty, runs = Map.empty, pending = Map.empty, applyCount = 0,
               snapThreshold = 100, chans = (\<lambda>_. []), nextChan = 0\<rparr>
      in case pr of
           None \<Rightarrow> s
         | Some ps \<Rightarrow> if ReadSnapshot ps \<noteq> [] then installSnapshot (ReadSnapshot ps) s else s)"


section \<open>Reads\<close>

definition GetJob :: "string \<Rightarrow> Store \<Rightarrow> Job \<times> bool" where
  "GetJob i s = (case jobs s i of None \<Rightarrow> (zeroJob, False) | Some j \<Rightarrow> (j, True))"

text \<open>The order in which Go visits the keys of the map is the argument \<open>ks\<close>.\<close>

definition ListJobs :: "string list \<Rightarrow> Store \<Rightarrow> Job list" where
  "ListJobs ks s = map (\<lambda>k. the (jobs s k)) ks"

definition goIndex :: "(string \<rightharpoonup> RunRecord list) \<Rightarrow> string \<Rightarrow> RunRecord list" where
  "goIndex m k = (case m k of None \<Rightarrow> [] | Some v \<Rightarrow> v)"

definition GetRuns :: "string \<Rightarrow> Store \<Rightarrow> RunRecord list" where
  "GetRuns i s = goIndex (runs s) i"


section \<open>Channels\<close>

text \<open>A send to a full channel blocks: \<open>None\<close>.\<close>

definition chSend :: "nat \<Rightarrow> submit_error option \<Rightarrow> Store \<Rightarrow> Store option" where
  "chSend c m s = (if chans s c = [] then Some (s\<lparr>chans := (chans s)(c := [m])\<rparr>) else None)"

definition chRecv :: "nat \<Rightarrow> Store \<Rightarrow> (submit_error option \<times> Store) option" where
  "chRecv c s = (case chans s c of [] \<Rightarrow> None | m # ms \<Rightarrow> Some (m, s\<lparr>chans := (chans s)(c := ms)\<rparr>))"


section \<open>Submitting commands\<close>

definition Submit_begin ::
    "Cmd \<Rightarrow> storeRaft \<Rightarrow> Store \<Rightarrow> (submit_error + int \<times> nat) \<times> storeRaft \<times> Store" where
  "Submit_begin cmd rf s =
     (if \<not> rfSet s then (Inl ErrNotLeader, rf, s)
      else case Start cmd rf of ((index, _, isLeader), rf') \<Rightarrow>
        if \<not> isLeader then (Inl ErrNotLeader, rf', s)
        else
          let ch = nextChan s;
              s = s\<lparr>nextChan := ch + 1, chans := (chans s)(ch := [])\<rparr>
          in (Inr (index, ch), rf', s\<lparr>pending := (pending s)(index \<mapsto> \<lparr>peCh = ch, peReqID = ReqID cmd\<rparr>)\<rparr>))"

definition Submit_timeout :: "int \<Rightarrow> Store \<Rightarrow> submit_error option \<times> Store" where
  "Submit_timeout index s = (Some ErrTimeout, s\<lparr>pending := (pending s)(index := None)\<rparr>)"


section \<open>Applying commands\<close>

definition recordRun :: "RunRecord \<Rightarrow> Store \<Rightarrow> Store" where
  "recordRun r s =
     (let s = (case jobs s (runJobID r) of
                 None \<Rightarrow> s
               | Some j \<Rightarrow> s\<lparr>jobs := (jobs s)(runJobID r \<mapsto> j\<lparr>LastRun := StartedAt r, LastStatus := Status r\<rparr>)\<rparr>);
          s = s\<lparr>runs := (runs s)(runJobID r \<mapsto> goIndex (runs s) (runJobID r) @ [r])\<rparr>;
          l = goIndex (runs s) (runJobID r)
      in if maxRunsPerJob < length l
         then s\<lparr>runs := (runs s)(runJobID r \<mapsto> drop (length l - maxRunsPerJob) l)\<rparr> else s)"

definition applySwitch :: "Cmd \<Rightarrow> Store \<Rightarrow> Store" where
  "applySwitch cmd s =
     (if cmdType cmd = CmdUpsert then s\<lparr>jobs := (jobs s)(jobID (cmdJob cmd) \<mapsto> cmdJob cmd)\<rparr>
      else if cmdType cmd = CmdDelete then
        s\<lparr>jobs := (jobs s)(cmdID cmd := None), runs := (runs s)(cmdID cmd := None)\<rparr>
      else if cmdType cmd = CmdRecord then recordRun (cmdRun cmd) s
      else s)"

definition notify :: "Cmd \<Rightarrow> int \<Rightarrow> Store \<Rightarrow> Store option" where
  "notify cmd index s =
     (case pending s index of
        None \<Rightarrow> Some s
      | Some entry \<Rightarrow>
          let s = s\<lparr>pending := (pending s)(index := None)\<rparr> in
          if ReqID cmd = peReqID entry then chSend (peCh entry) None s
          else chSend (peCh entry) (Some ErrNotLeader) s)"

text \<open>The result says whether a goroutine that calls \<open>rf.Snapshot\<close> is started, and on what.\<close>

definition applyCmd :: "Cmd \<Rightarrow> int \<Rightarrow> Store \<Rightarrow> ((int \<times> storeState list) option \<times> Store) option" where
  "applyCmd cmd index s =
     do { let s = applySwitch cmd s;
          s \<leftarrow> notify cmd index s;
          let s = s\<lparr>applyCount := applyCount s + 1\<rparr>;
          Some (if rfSet s \<and> snapThreshold s \<le> applyCount s
                then (Some (index, encodeSnapshot s), s\<lparr>applyCount := 0\<rparr>) else (None, s)) }"

text \<open>The waiters in the order \<open>ks\<close> in which Go visits the map.\<close>

fun failPending :: "int list \<Rightarrow> Store \<Rightarrow> Store option" where
  "failPending [] s = Some s"
| "failPending (k # ks) s =
     (case pending s k of
        None \<Rightarrow> failPending ks s
      | Some entry \<Rightarrow>
          do { s \<leftarrow> chSend (peCh entry) (Some ErrNotLeader) s;
               failPending ks (s\<lparr>pending := (pending s)(k := None)\<rparr>) })"

definition applyLoop_msg ::
    "int list \<Rightarrow> storeMsg \<Rightarrow> Store \<Rightarrow> ((int \<times> storeState list) option \<times> Store) option" where
  "applyLoop_msg ks msg s =
     (if SnapshotValid msg then
        do { s \<leftarrow> failPending ks (installSnapshot (amSnapshot msg) s); Some (None, s) }
      else case amCommand msg of
             None \<Rightarrow> Some (None, s)
           | Some cmd \<Rightarrow> applyCmd cmd (CommandIndex msg) s)"



section \<open>The state machine\<close>

text \<open>
  What a replicated state machine promises: the effect of a command depends only on the
  replicated part of the state, and restoring a snapshot gives back the part it was taken of.
  Then a snapshot followed by the later commands is as good as all the commands.
\<close>

locale replicated_machine =
  fixes exec :: "'cmd \<Rightarrow> 's \<Rightarrow> 's" and view :: "'s \<Rightarrow> 'v" and snap :: "'s \<Rightarrow> 'b" and restore :: "'b \<Rightarrow> 's \<Rightarrow> 's"
  assumes exec_view: "view s = view s' \<Longrightarrow> view (exec c s) = view (exec c s')"
    and restore_view: "view (restore (snap s) s') = view s"
begin

lemma replay_view: "view s = view s' \<Longrightarrow> view (fold exec cs s) = view (fold exec cs s')"
proof (induction cs arbitrary: s s')
  case (Cons c cs)
  show ?case using Cons.IH [OF exec_view [OF Cons.prems]] by simp
qed simp

lemma snapshot_replay:
  "view (fold exec ys (restore (snap (fold exec xs s)) s')) = view (fold exec (xs @ ys) s)"
  using replay_view [OF restore_view, of ys] by simp

end

definition storeView :: "Store \<Rightarrow> (string \<rightharpoonup> Job) \<times> (string \<rightharpoonup> RunRecord list)" where
  "storeView s = (jobs s, runs s)"

lemma recordRun_view:
  "storeView s = storeView s' \<Longrightarrow> storeView (recordRun r s) = storeView (recordRun r s')"
  by (simp add: storeView_def recordRun_def Let_def split: option.split)

interpretation store_machine: replicated_machine applySwitch storeView encodeSnapshot installSnapshot
proof
  show "storeView (applySwitch c s) = storeView (applySwitch c s')" if "storeView s = storeView s'" for s s' c
    using that recordRun_view [OF that, of "cmdRun c"] by (simp add: applySwitch_def storeView_def)
  show "storeView (installSnapshot (encodeSnapshot s) s') = storeView s" for s s'
    by (simp add: installSnapshot_def encodeSnapshot_def storeView_def)
qed

lemma recordRun_frame:
  "pending (recordRun r s) = pending s" "chans (recordRun r s) = chans s" "nextChan (recordRun r s) = nextChan s"
  "rfSet (recordRun r s) = rfSet s" "applyCount (recordRun r s) = applyCount s" "snapThreshold (recordRun r s) = snapThreshold s"
  by (simp_all add: recordRun_def Let_def split: option.split)

lemma applySwitch_frame [simp]:
  "pending (applySwitch c s) = pending s" "chans (applySwitch c s) = chans s" "nextChan (applySwitch c s) = nextChan s"
  "rfSet (applySwitch c s) = rfSet s" "applyCount (applySwitch c s) = applyCount s"
  "snapThreshold (applySwitch c s) = snapThreshold s"
  by (simp_all add: applySwitch_def recordRun_frame)

lemma installSnapshot_frame [simp]:
  "pending (installSnapshot d s) = pending s" "chans (installSnapshot d s) = chans s"
  "nextChan (installSnapshot d s) = nextChan s" "rfSet (installSnapshot d s) = rfSet s"
  "applyCount (installSnapshot d s) = applyCount s" "snapThreshold (installSnapshot d s) = snapThreshold s"
  by (simp_all add: installSnapshot_def split: list.split)

lemma chSend_view: "chSend c m s = Some s' \<Longrightarrow> s' = s\<lparr>chans := (chans s)(c := [m])\<rparr> \<and> chans s c = []"
  by (simp add: chSend_def split: if_splits)


section \<open>The specification\<close>

text \<open>
  The contract of the state machine: a map of jobs, and for every job all the run records since it
  was last deleted.  The store keeps the last ten.
\<close>

record spec =
  specJobs :: "string \<rightharpoonup> Job"
  specRuns :: "string \<Rightarrow> RunRecord list"

definition specInit :: spec where
  "specInit = \<lparr>specJobs = Map.empty, specRuns = (\<lambda>_. [])\<rparr>"

definition specExec :: "Cmd \<Rightarrow> spec \<Rightarrow> spec" where
  "specExec c h =
     (if cmdType c = CmdUpsert then h\<lparr>specJobs := (specJobs h)(jobID (cmdJob c) \<mapsto> cmdJob c)\<rparr>
      else if cmdType c = CmdDelete then
        h\<lparr>specJobs := (specJobs h)(cmdID c := None), specRuns := (specRuns h)(cmdID c := [])\<rparr>
      else if cmdType c = CmdRecord then
        (let r = cmdRun c; k = runJobID r in
         h\<lparr>specJobs := (case specJobs h k of None \<Rightarrow> specJobs h
              | Some j \<Rightarrow> (specJobs h)(k \<mapsto> j\<lparr>LastRun := StartedAt r, LastStatus := Status r\<rparr>)),
           specRuns := (specRuns h)(k := specRuns h k @ [r])\<rparr>)
      else h)"

definition lastRuns :: "RunRecord list \<Rightarrow> RunRecord list" where
  "lastRuns l = drop (length l - maxRunsPerJob) l"

definition refines :: "Store \<Rightarrow> spec \<Rightarrow> bool" where
  "refines s h \<longleftrightarrow> jobs s = specJobs h \<and> (\<forall>k. goIndex (runs s) k = lastRuns (specRuns h k))"

lemma lastRuns_append: "lastRuns (lastRuns l @ [r]) = lastRuns (l @ [r])"
  by (cases "length l < 10") (auto simp: lastRuns_def maxRunsPerJob_def intro!: arg_cong2 [where f = drop])

lemma lastRuns_length: "length (lastRuns l) \<le> maxRunsPerJob"
  by (simp add: lastRuns_def)

lemma goIndex_upd [simp]: "goIndex (m(k \<mapsto> v)) k' = (if k' = k then v else goIndex m k')"
  "goIndex (m(k := None)) k' = (if k' = k then [] else goIndex m k')"
  by (simp_all add: goIndex_def)

lemma recordRun_eq:
  "jobs (recordRun r s) = (case jobs s (runJobID r) of None \<Rightarrow> jobs s
      | Some j \<Rightarrow> (jobs s)(runJobID r \<mapsto> j\<lparr>LastRun := StartedAt r, LastStatus := Status r\<rparr>))"
  "goIndex (runs (recordRun r s)) k =
     (if k = runJobID r then lastRuns (goIndex (runs s) k @ [r]) else goIndex (runs s) k)"
  by (auto simp: recordRun_def Let_def lastRuns_def split: option.split)

lemma applySwitch_refines: "refines s h \<Longrightarrow> refines (applySwitch c s) (specExec c h)"
  by (auto simp: refines_def applySwitch_def specExec_def Let_def recordRun_eq lastRuns_append lastRuns_def [of "[]"]
      split: option.split)

lemma replay_refines: "refines s h \<Longrightarrow> refines (fold applySwitch cs s) (fold specExec cs h)"
  by (induction cs arbitrary: s h) (auto intro: applySwitch_refines)

lemma makeStore_refines: "refines (makeStore rf None) specInit"
  by (simp add: refines_def makeStore_def specInit_def goIndex_def lastRuns_def)


section \<open>Waiters\<close>

text \<open>Every registered waiter has a channel of its own, allocated and still empty.\<close>

definition waiters_ok :: "Store \<Rightarrow> bool" where
  "waiters_ok s \<longleftrightarrow>
     (\<forall>i e. pending s i = Some e \<longrightarrow> chans s (peCh e) = [] \<and> peCh e < nextChan s)
     \<and> (\<forall>i j e f. pending s i = Some e \<longrightarrow> pending s j = Some f \<longrightarrow> peCh e = peCh f \<longrightarrow> i = j)"

lemma waiters_okD:
  assumes "waiters_ok s" "pending s i = Some e"
  shows "chans s (peCh e) = []" "peCh e < nextChan s"
    "pending s j = Some f \<Longrightarrow> j \<noteq> i \<Longrightarrow> peCh f \<noteq> peCh e"
  using assms by (auto simp: waiters_ok_def)

lemma waiters_ok_frame:
  "waiters_ok s \<Longrightarrow> pending s' = pending s \<Longrightarrow> chans s' = chans s \<Longrightarrow> nextChan s' = nextChan s \<Longrightarrow> waiters_ok s'"
  by (simp add: waiters_ok_def)

lemma waiters_ok_make: "waiters_ok (makeStore rf pr)"
  by (simp add: waiters_ok_def makeStore_def Let_def split: option.split)

lemma waiters_ok_answer:
  assumes "waiters_ok s" "pending s i = Some e"
  shows "waiters_ok (s\<lparr>pending := (pending s)(i := None), chans := (chans s)(peCh e := m)\<rparr>)"
  using assms waiters_okD(3) [OF assms] by (auto simp: waiters_ok_def)

lemma waiters_ok_drop: "waiters_ok s \<Longrightarrow> waiters_ok (s\<lparr>pending := (pending s)(i := None)\<rparr>)"
  by (auto simp: waiters_ok_def)

lemma waiters_ok_new:
  assumes "waiters_ok s"
  shows "waiters_ok (s\<lparr>nextChan := nextChan s + 1, chans := (chans s)(nextChan s := []),
    pending := (pending s)(i \<mapsto> \<lparr>peCh = nextChan s, peReqID = r\<rparr>)\<rparr>)"
  using assms by (auto simp: waiters_ok_def less_Suc_eq) (metis less_irrefl)+

lemma notify_ok:
  assumes "waiters_ok s"
  shows "\<exists>s'. notify cmd i s = Some s' \<and> waiters_ok s' \<and> storeView s' = storeView s
    \<and> pending s' = (pending s)(i := None) \<and> rfSet s' = rfSet s \<and> applyCount s' = applyCount s \<and> snapThreshold s' = snapThreshold s
    \<and> nextChan s' = nextChan s
    \<and> chans s' = (case pending s i of None \<Rightarrow> chans s
         | Some e \<Rightarrow> (chans s)(peCh e := [if ReqID cmd = peReqID e then None else Some ErrNotLeader]))"
proof (cases "pending s i")
  case None
  then show ?thesis using assms by (auto simp: notify_def fun_upd_idem)
next
  case (Some e)
  note d = waiters_okD [OF assms Some] and w = waiters_ok_answer [OF assms Some]
  show ?thesis
    using Some d(1) w by (auto simp: notify_def chSend_def Let_def storeView_def)
qed

lemma applyCmd_ok:
  assumes "waiters_ok s"
  shows "\<exists>req s'. applyCmd cmd i s = Some (req, s') \<and> waiters_ok s' \<and> storeView s' = storeView (applySwitch cmd s)
    \<and> pending s' = (pending s)(i := None)
    \<and> chans s' = (case pending s i of None \<Rightarrow> chans s
         | Some e \<Rightarrow> (chans s)(peCh e := [if ReqID cmd = peReqID e then None else Some ErrNotLeader]))
    \<and> req = (if rfSet s \<and> snapThreshold s \<le> applyCount s + 1 then Some (i, encodeSnapshot s') else None)
    \<and> rfSet s' = rfSet s \<and> snapThreshold s' = snapThreshold s
    \<and> applyCount s' = (if rfSet s \<and> snapThreshold s \<le> applyCount s + 1 then 0 else applyCount s + 1)"
proof -
  have "waiters_ok (applySwitch cmd s)" using assms by (rule waiters_ok_frame) simp_all
  from notify_ok [OF this, of cmd i] obtain s1 where s1: "notify cmd i (applySwitch cmd s) = Some s1" "waiters_ok s1"
    "storeView s1 = storeView (applySwitch cmd s)" "pending s1 = (pending s)(i := None)"
    "rfSet s1 = rfSet s" "applyCount s1 = applyCount s" "snapThreshold s1 = snapThreshold s"
    "chans s1 = (case pending s i of None \<Rightarrow> chans s
         | Some e \<Rightarrow> (chans s)(peCh e := [if ReqID cmd = peReqID e then None else Some ErrNotLeader]))"
    unfolding applySwitch_frame by blast
  have w: "waiters_ok (s1\<lparr>applyCount := c\<rparr>)" for c using s1(2) by (rule waiters_ok_frame) simp_all
  show ?thesis
    using s1 w by (auto simp: applyCmd_def Let_def storeView_def encodeSnapshot_def)
qed


lemma failPending_ok:
  assumes "waiters_ok s"
  shows "\<exists>s'. failPending ks s = Some s' \<and> waiters_ok s' \<and> storeView s' = storeView s
    \<and> rfSet s' = rfSet s \<and> (\<forall>i. pending s' i = (if i \<in> set ks then None else pending s i))
    \<and> (\<forall>i e. pending s i = Some e \<and> i \<in> set ks \<longrightarrow> chans s' (peCh e) = [Some ErrNotLeader])
    \<and> (\<forall>c. (\<forall>i \<in> set ks. \<forall>e. pending s i = Some e \<longrightarrow> peCh e \<noteq> c) \<longrightarrow> chans s' c = chans s c)"
  using assms
proof (induction ks arbitrary: s)
  case (Cons k ks)
  show ?case
  proof (cases "pending s k")
    case None
    with Cons.IH [OF Cons.prems] show ?thesis by auto
  next
    case (Some e)
    define s1 where "s1 = s\<lparr>pending := (pending s)(k := None), chans := (chans s)(peCh e := [Some ErrNotLeader])\<rparr>"
    have "s\<lparr>chans := (chans s)(peCh e := [Some ErrNotLeader]), pending := (pending s)(k := None)\<rparr> = s1"
      by (cases s) (simp add: s1_def)
    then have eq: "failPending (k # ks) s = failPending ks s1"
      using Some waiters_okD(1) [OF Cons.prems Some] by (simp add: chSend_def)
    have ok: "waiters_ok s1" unfolding s1_def by (rule waiters_ok_answer [OF Cons.prems Some])
    have dist: "pending s i = Some f \<Longrightarrow> i \<noteq> k \<Longrightarrow> peCh f \<noteq> peCh e" for i f
      using waiters_okD(3) [OF Cons.prems Some] by blast
    obtain s' where s': "failPending ks s1 = Some s'" "waiters_ok s'" "storeView s' = storeView s1"
      "rfSet s' = rfSet s1" "\<forall>i. pending s' i = (if i \<in> set ks then None else pending s1 i)"
      "\<forall>i e. pending s1 i = Some e \<and> i \<in> set ks \<longrightarrow> chans s' (peCh e) = [Some ErrNotLeader]"
      "\<forall>c. (\<forall>i \<in> set ks. \<forall>e. pending s1 i = Some e \<longrightarrow> peCh e \<noteq> c) \<longrightarrow> chans s' c = chans s1 c"
      using Cons.IH [OF ok] by blast
    have "chans s' (peCh e) = [Some ErrNotLeader]"
      using s'(7) dist by (auto simp: s1_def)
    moreover have "chans s' (peCh f) = [Some ErrNotLeader]" if "pending s i = Some f" "i \<in> set ks" "i \<noteq> k" for i f
      using s'(6) [rule_format, of i f] that by (simp add: s1_def)
    ultimately have "\<forall>i f. pending s i = Some f \<and> i \<in> set (k # ks) \<longrightarrow> chans s' (peCh f) = [Some ErrNotLeader]"
      using Some by (metis option.inject set_ConsD)
    moreover have "\<forall>c. (\<forall>i \<in> set (k # ks). \<forall>e. pending s i = Some e \<longrightarrow> peCh e \<noteq> c) \<longrightarrow> chans s' c = chans s c"
      using s'(7) Some by (auto simp: s1_def)
    ultimately show ?thesis
      using s' eq by (intro exI [of _ s']) (auto simp: s1_def storeView_def)
  qed
qed simp

lemma chRecv_ok:
  assumes "waiters_ok s" "chRecv c s = Some (m, s')" shows "waiters_ok s'"
proof -
  obtain ms where "chans s c = m # ms" "s' = s\<lparr>chans := (chans s)(c := ms)\<rparr>"
    using assms(2) by (auto simp: chRecv_def split: list.splits)
  with assms(1) show ?thesis by (fastforce simp: waiters_ok_def)
qed

text \<open>The critical sections of the store, and the receive of a waiting caller.\<close>

datatype store_event =
    EvSubmit Cmd storeRaft
  | EvSubmitTimeout int
  | EvReceive nat
  | EvMessage "int list" storeMsg

fun store_handle :: "store_event \<Rightarrow> Store \<Rightarrow> Store option" where
  "store_handle (EvSubmit cmd rf) s = Some (snd (snd (Submit_begin cmd rf s)))"
| "store_handle (EvSubmitTimeout i) s = Some (snd (Submit_timeout i s))"
| "store_handle (EvReceive c) s = Some (case chRecv c s of None \<Rightarrow> s | Some (m, s') \<Rightarrow> s')"
| "store_handle (EvMessage ks msg) s = map_option snd (applyLoop_msg ks msg s)"

primrec store_run :: "store_event list \<Rightarrow> Store \<Rightarrow> Store option" where
  "store_run [] s = Some s"
| "store_run (ev # evs) s = do { s' \<leftarrow> store_handle ev s; store_run evs s' }"

lemma Submit_begin_ok: "waiters_ok s \<Longrightarrow> waiters_ok (snd (snd (Submit_begin cmd rf s)))"
  using waiters_ok_new [of s] by (simp add: Submit_begin_def Let_def split: prod.split)

lemma applyLoop_msg_ok:
  assumes "waiters_ok s"
  shows "\<exists>req s'. applyLoop_msg ks msg s = Some (req, s') \<and> waiters_ok s'"
proof (cases "SnapshotValid msg")
  case True
  have "waiters_ok (installSnapshot (amSnapshot msg) s)" using assms by (rule waiters_ok_frame) simp_all
  from failPending_ok [OF this, of ks] True show ?thesis by (auto simp: applyLoop_msg_def)
next
  case False
  show ?thesis
  proof (cases "amCommand msg")
    case (Some cmd)
    with False applyCmd_ok [OF assms, of cmd "CommandIndex msg"] show ?thesis by (auto simp: applyLoop_msg_def)
  qed (use False assms in \<open>simp add: applyLoop_msg_def\<close>)
qed

lemma store_handle_ok: "waiters_ok s \<Longrightarrow> \<exists>s'. store_handle ev s = Some s' \<and> waiters_ok s'"
proof (cases ev)
  case (EvMessage ks msg)
  moreover assume "waiters_ok s"
  ultimately show ?thesis using applyLoop_msg_ok [of s ks msg] by auto
qed (auto simp: Submit_begin_ok Submit_timeout_def waiters_ok_drop split: option.split dest: chRecv_ok)

lemma store_run_ok: "waiters_ok s \<Longrightarrow> \<exists>s'. store_run evs s = Some s' \<and> waiters_ok s'"
proof (induction evs arbitrary: s)
  case (Cons ev evs)
  then obtain s1 where "store_handle ev s = Some s1" "waiters_ok s1" using store_handle_ok by blast
  with Cons.IH show ?case by simp
qed simp


section \<open>Feeding the store from Raft\<close>

definition commandOf :: "storeMsg \<Rightarrow> Cmd list" where
  "commandOf msg = (case amCommand msg of None \<Rightarrow> [] | Some c \<Rightarrow> [c])"

primrec feed :: "storeMsg list \<Rightarrow> Store \<Rightarrow> Store option" where
  "feed [] s = Some s"
| "feed (msg # msgs) s = do { (req, s') \<leftarrow> applyLoop_msg [] msg s; feed msgs s' }"

lemma feed_commands:
  assumes "waiters_ok s" "\<forall>msg \<in> set msgs. \<not> SnapshotValid msg"
  shows "\<exists>s'. feed msgs s = Some s' \<and> waiters_ok s'
    \<and> storeView s' = storeView (fold applySwitch (concat (map commandOf msgs)) s)"
  using assms
proof (induction msgs arbitrary: s)
  case (Cons msg msgs)
  have "\<exists>req s1. applyLoop_msg [] msg s = Some (req, s1) \<and> waiters_ok s1
      \<and> storeView s1 = storeView (fold applySwitch (commandOf msg) s)"
  proof (cases "amCommand msg")
    case None
    with Cons.prems show ?thesis by (simp add: applyLoop_msg_def commandOf_def)
  next
    case (Some c)
    with Cons.prems applyCmd_ok [OF Cons.prems(1), of c "CommandIndex msg"] show ?thesis
      by (auto simp: applyLoop_msg_def commandOf_def)
  qed
  then obtain req s1 where s1: "applyLoop_msg [] msg s = Some (req, s1)" "waiters_ok s1"
    "storeView s1 = storeView (fold applySwitch (commandOf msg) s)" by blast
  obtain s2 where "feed msgs s1 = Some s2" "waiters_ok s2"
    "storeView s2 = storeView (fold applySwitch (concat (map commandOf msgs)) s1)"
    using Cons.IH [OF s1(2)] Cons.prems(2) by auto
  with s1 store_machine.replay_view [OF s1(3)] show ?case by simp
qed simp


section \<open>One message\<close>

lemma chSend_fields:
  "chSend c m s = Some s' \<Longrightarrow> nextChan s' = nextChan s \<and> rfSet s' = rfSet s \<and> storeView s' = storeView s \<and> pending s' = pending s"
  by (auto simp: chSend_def storeView_def split: if_splits)

lemma failPending_fields: "failPending ks s = Some s' \<Longrightarrow> nextChan s' = nextChan s \<and> rfSet s' = rfSet s"
  by (induction ks arbitrary: s) (fastforce simp: bind_Some_conv split: option.splits dest: chSend_fields)+

lemma applyCmd_fields: "applyCmd cmd i s = Some (req, s') \<Longrightarrow> nextChan s' = nextChan s \<and> rfSet s' = rfSet s"
  by (fastforce simp: applyCmd_def notify_def Let_def bind_Some_conv split: option.splits if_splits dest: chSend_fields)

text \<open>
  What one message does to the waiters: it registers none; a channel changes only when its waiter is
  removed, and gets \<open>nil\<close> only for a command with the waiter's request id at the waiter's index.
\<close>

definition told :: "storeMsg \<Rightarrow> Store \<Rightarrow> Store \<Rightarrow> nat \<Rightarrow> bool" where
  "told msg s s' c \<longleftrightarrow> (\<exists>k e. pending s k = Some e \<and> peCh e = c \<and> pending s' k = None \<and>
     (chans s' c = [Some ErrNotLeader] \<or> chans s' c = [None] \<and> \<not> SnapshotValid msg \<and> CommandIndex msg = k
        \<and> (\<exists>cmd. amCommand msg = Some cmd \<and> ReqID cmd = peReqID e)))"

definition applied :: "storeMsg \<Rightarrow> Store \<Rightarrow> (int \<times> storeState list) option \<Rightarrow> Store \<Rightarrow> bool" where
  "applied msg s req s' \<longleftrightarrow> waiters_ok s' \<and> nextChan s' = nextChan s \<and> rfSet s' = rfSet s
     \<and> (\<forall>k e. pending s' k = Some e \<longrightarrow> pending s k = Some e) \<and> (\<forall>c. chans s' c = chans s c \<or> told msg s s' c)
     \<and> storeView s' = (if SnapshotValid msg then storeView (installSnapshot (amSnapshot msg) s)
         else storeView (fold applySwitch (commandOf msg) s))
     \<and> (\<forall>idx sn. req = Some (idx, sn) \<longrightarrow>
          \<not> SnapshotValid msg \<and> amCommand msg \<noteq> None \<and> idx = CommandIndex msg \<and> sn = encodeSnapshot s')"

lemma snapshot_applied:
  assumes "waiters_ok s" "SnapshotValid msg" "failPending ks (installSnapshot (amSnapshot msg) s) = Some t"
  shows "applied msg s None t"
proof -
  let ?s = "installSnapshot (amSnapshot msg) s"
  have "waiters_ok ?s" using assms(1) by (rule waiters_ok_frame) simp_all
  then have t: "waiters_ok t" "storeView t = storeView ?s" "\<forall>i. pending t i = (if i \<in> set ks then None else pending s i)"
    "\<forall>i e. pending s i = Some e \<and> i \<in> set ks \<longrightarrow> chans t (peCh e) = [Some ErrNotLeader]"
    "\<forall>c. (\<forall>i \<in> set ks. \<forall>e. pending s i = Some e \<longrightarrow> peCh e \<noteq> c) \<longrightarrow> chans t c = chans s c"
    using failPending_ok [of ?s ks] assms(3) by auto
  have "chans t c = chans s c \<or> told msg s t c" for c
  proof (cases "\<exists>i \<in> set ks. \<exists>e. pending s i = Some e \<and> peCh e = c")
    case True
    then obtain k e where "pending s k = Some e" "peCh e = c" "k \<in> set ks" by blast
    with t(3,4) have "told msg s t c" unfolding told_def by (intro exI [of _ k] exI [of _ e]) auto
    then show ?thesis ..
  qed (use t(5) in blast)
  with t assms(2) failPending_fields [OF assms(3)] show ?thesis by (auto simp: applied_def split: if_splits)
qed

lemma applyLoop_msg_applied:
  assumes "waiters_ok s" "applyLoop_msg ks msg s = Some (req, s')"
  shows "applied msg s req s'"
proof (cases "SnapshotValid msg")
  case True
  with assms snapshot_applied [OF assms(1) True] show ?thesis by (auto simp: applyLoop_msg_def bind_Some_conv)
next
  case False
  show ?thesis
  proof (cases "amCommand msg")
    case None
    with False assms show ?thesis by (auto simp: applyLoop_msg_def commandOf_def applied_def)
  next
    case (Some cmd)
    then have a: "applyCmd cmd (CommandIndex msg) s = Some (req, s')" using assms(2) False by (simp add: applyLoop_msg_def)
    note ok = applyCmd_ok [OF assms(1), of cmd "CommandIndex msg"]
    have "chans s' c = chans s c \<or> told msg s s' c" for c
      using ok a Some False by (cases "pending s (CommandIndex msg)") (auto simp: told_def)
    with ok a Some False applyCmd_fields [OF a] show ?thesis by (auto simp: commandOf_def applied_def split: if_splits)
  qed
qed

lemma appliedD:
  assumes "applied msg s req s'"
  shows "waiters_ok s'" "nextChan s' = nextChan s" "rfSet s' = rfSet s"
    "\<And>k e. pending s' k = Some e \<Longrightarrow> pending s k = Some e" "\<And>c. chans s' c = chans s c \<or> told msg s s' c"
    "storeView s' = (if SnapshotValid msg then storeView (installSnapshot (amSnapshot msg) s)
       else storeView (fold applySwitch (commandOf msg) s))"
    "\<And>idx sn. req = Some (idx, sn) \<Longrightarrow> \<not> SnapshotValid msg \<and> amCommand msg \<noteq> None \<and> idx = CommandIndex msg \<and> sn = encodeSnapshot s'"
  using assms unfolding applied_def by blast+


section \<open>Properties\<close>

text \<open>
  C8: The store implements its contract: after any sequence of commands its jobs are those of the
  specification, and the run history of every job is the last ten of all records since the job was
  last deleted.
\<close>

theorem store_refines_spec:
  "jobs (fold applySwitch cmds (makeStore rf None)) = specJobs (fold specExec cmds specInit)
   \<and> GetRuns k (fold applySwitch cmds (makeStore rf None)) = lastRuns (specRuns (fold specExec cmds specInit) k)
   \<and> length (GetRuns k (fold applySwitch cmds (makeStore rf None))) \<le> maxRunsPerJob"
  using replay_refines [OF makeStore_refines, of cmds rf] lastRuns_length by (simp add: refines_def GetRuns_def)

text \<open>
  Crash recovery: a store made from a persister that holds the snapshot taken after some commands,
  and given the later ones, has the same jobs and run histories as a store that applied them all.
\<close>

theorem snapshot_then_replay:
  "storeView (fold applySwitch ys (makeStore rf (Some (Save st (encodeSnapshot (fold applySwitch xs s)) pr))))
     = storeView (fold applySwitch (xs @ ys) s)"
proof -
  have "encodeSnapshot (fold applySwitch xs s) \<noteq> []" by (simp add: encodeSnapshot_def)
  then show ?thesis
    using store_machine.snapshot_replay by (simp add: makeStore_def Let_def)
qed

text \<open>
  C16: The store never blocks on a waiter's channel while it holds its lock: whatever submits,
  time-outs, receives and messages occur in whatever order, every step completes, and every
  registered waiter still has an empty channel of its own.
\<close>

theorem store_never_blocks:
  "\<exists>s. store_run evs (makeStore rf pr) = Some s \<and> waiters_ok s"
  using store_run_ok [OF waiters_ok_make] .

text \<open>
  C17: When a command is applied at an index with a registered waiter, that waiter is removed and
  sent \<open>nil\<close> exactly when the command carries its request id and \<open>ErrNotLeader\<close> otherwise; all other
  waiters and channels stay as they were.
\<close>

theorem waiter_learns_outcome:
  assumes "waiters_ok s" and "pending s i = Some e"
  shows "\<exists>req s'. applyCmd cmd i s = Some (req, s')
    \<and> chans s' = (chans s)(peCh e := [if ReqID cmd = peReqID e then None else Some ErrNotLeader])
    \<and> pending s' = (pending s)(i := None)"
  using applyCmd_ok [OF assms(1), of cmd i] assms(2) by auto

definition waitingStore :: Store where
  "waitingStore = (makeStore True None)\<lparr>pending := [5 \<mapsto> \<lparr>peCh = 0, peReqID = ''r1''\<rparr>], nextChan := 1\<rparr>"

definition upsertCmd :: "string \<Rightarrow> string \<Rightarrow> Cmd" where
  "upsertCmd r i = \<lparr>cmdType = CmdUpsert, ReqID = r, cmdJob = zeroJob\<lparr>jobID := i\<rparr>, cmdID = [], cmdRun = zeroRun\<rparr>"

lemma waitingStore_ok: "waiters_ok waitingStore"
  by (simp add: waiters_ok_def waitingStore_def makeStore_def)

theorem waiter_learns_outcome_witness:
  "\<exists>req s'. applyCmd (upsertCmd ''r1'' ''a'') 5 waitingStore = Some (req, s') \<and> chans s' 0 = [None] \<and> pending s' 5 = None"
  using waiter_learns_outcome [OF waitingStore_ok, of 5 "\<lparr>peCh = 0, peReqID = ''r1''\<rparr>" "upsertCmd ''r1'' ''a''"]
  by (auto simp: waitingStore_def upsertCmd_def)

text \<open>
  A snapshot message replaces the whole replicated state and answers every waiter with
  \<open>ErrNotLeader\<close>; none is left registered.
\<close>

theorem snapshot_message_replaces_state:
  assumes "waiters_ok s" and "set ks = dom (pending s)" and "SnapshotValid msg" and "amSnapshot msg = encodeSnapshot s0"
  shows "\<exists>s'. applyLoop_msg ks msg s = Some (None, s') \<and> storeView s' = storeView s0 \<and> pending s' = Map.empty
    \<and> (\<forall>i e. pending s i = Some e \<longrightarrow> chans s' (peCh e) = [Some ErrNotLeader])"
proof -
  let ?s = "installSnapshot (amSnapshot msg) s"
  have "waiters_ok ?s" using assms(1) by (rule waiters_ok_frame) simp_all
  from failPending_ok [OF this, of ks] obtain s' where s': "failPending ks ?s = Some s'" "storeView s' = storeView ?s"
    "\<forall>i. pending s' i = (if i \<in> set ks then None else pending s i)"
    "\<forall>i e. pending s i = Some e \<and> i \<in> set ks \<longrightarrow> chans s' (peCh e) = [Some ErrNotLeader]" by auto
  have "storeView ?s = storeView s0" using assms(4) by (simp add: store_machine.restore_view)
  moreover have "pending s' = Map.empty" using s'(3) assms(2) by (auto simp: fun_eq_iff)
  moreover have "\<forall>i e. pending s i = Some e \<longrightarrow> chans s' (peCh e) = [Some ErrNotLeader]"
    using s'(4) assms(2) by blast
  ultimately show ?thesis using s' assms(3) by (simp add: applyLoop_msg_def)
qed

definition snapshotOf :: "Store \<Rightarrow> storeMsg" where
  "snapshotOf s = \<lparr>CommandValid = False, amCommand = None, CommandIndex = 0, SnapshotValid = True,
     amSnapshot = encodeSnapshot s, SnapshotTerm = 1, SnapshotIndex = 9\<rparr>"

theorem snapshot_message_replaces_state_witness:
  "\<exists>s'. applyLoop_msg [5] (snapshotOf (makeStore True None)) waitingStore = Some (None, s')
     \<and> pending s' = Map.empty \<and> chans s' 0 = [Some ErrNotLeader]"
proof -
  have w: "set [5] = dom (pending waitingStore)" "pending waitingStore 5 = Some \<lparr>peCh = 0, peReqID = ''r1''\<rparr>"
    "SnapshotValid (snapshotOf (makeStore True None))"
    "amSnapshot (snapshotOf (makeStore True None)) = encodeSnapshot (makeStore True None)"
    by (simp_all add: waitingStore_def snapshotOf_def)
  obtain s' where s': "applyLoop_msg [5] (snapshotOf (makeStore True None)) waitingStore = Some (None, s')"
    "pending s' = Map.empty" "\<forall>i e. pending waitingStore i = Some e \<longrightarrow> chans s' (peCh e) = [Some ErrNotLeader]"
    using snapshot_message_replaces_state [OF waitingStore_ok w(1,3,4)] by blast
  moreover have "chans s' 0 = [Some ErrNotLeader]" using s'(3) w(2) by fastforce
  ultimately show ?thesis by blast
qed

text \<open>
  The store asks Raft to compact its log exactly when \<open>snapThreshold\<close> commands have been applied
  since it last asked, with the index of the command just applied and the state after it.
\<close>

theorem compaction_request:
  assumes "waiters_ok s" and "rfSet s"
  shows "\<exists>req s'. applyCmd cmd i s = Some (req, s')
    \<and> req = (if snapThreshold s \<le> applyCount s + 1 then Some (i, encodeSnapshot s') else None)
    \<and> applyCount s' = (if snapThreshold s \<le> applyCount s + 1 then 0 else applyCount s + 1)
    \<and> storeView s' = storeView (applySwitch cmd s)"
  using applyCmd_ok [OF assms(1), of cmd i] assms(2) by auto

theorem compaction_request_witness:
  "\<exists>req s'. applyCmd (upsertCmd ''r1'' ''a'') 5 (waitingStore\<lparr>applyCount := 99\<rparr>) = Some (req, s')
     \<and> req = Some (5, encodeSnapshot s') \<and> applyCount s' = 0"
proof -
  have "waiters_ok (waitingStore\<lparr>applyCount := 99\<rparr>)" using waitingStore_ok by (rule waiters_ok_frame) simp_all
  from compaction_request [OF this, of "upsertCmd ''r1'' ''a''" 5] show ?thesis
    by (auto simp: waitingStore_def makeStore_def)
qed

text \<open>
  A caller whose submit times out removes whatever waiter is registered at its index.  If the
  index was given out a second time in between, the second caller's waiter is gone and its command
  commits without it being told.
\<close>

theorem timeout_drops_newer_waiter:
  assumes "waiters_ok s" and "Submit_begin a rfa s = (Inr (i, ca), rfa', s1)"
    and "Submit_begin b rfb s1 = (Inr (i, cb), rfb', s2)"
  shows "\<exists>req s3. applyCmd b i (snd (Submit_timeout i s2)) = Some (req, s3) \<and> chans s3 cb = [] \<and> pending s3 i = None"
proof -
  have "waiters_ok s1" using Submit_begin_ok [OF assms(1), of a rfa] assms(2) by simp
  then have "waiters_ok s2" using Submit_begin_ok [of s1 b rfb] assms(3) by simp
  then have ok: "waiters_ok (snd (Submit_timeout i s2))" by (simp add: Submit_timeout_def waiters_ok_drop)
  have "chans s2 cb = []"
    using assms(3) by (auto simp: Submit_begin_def Let_def split: prod.splits if_splits)
  then show ?thesis
    using applyCmd_ok [OF ok, of b i] by (auto simp: Submit_timeout_def)
qed

definition leaderAt :: "int \<Rightarrow> storeRaft" where
  "leaderAt t = (Make [NewPeer ''a'', NewPeer ''b''] 0 MakePersister 0)\<lparr>currentTerm := t, state := leader\<rparr>"

theorem timeout_drops_newer_waiter_witness:
  "\<exists>s1 s2 req s3. Submit_begin (upsertCmd ''r1'' ''a'') (leaderAt 1) (makeStore True None) = (Inr (1, 0), s1)
     \<and> Submit_begin (upsertCmd ''r2'' ''b'') (leaderAt 3) (snd s1) = (Inr (1, 1), s2)
     \<and> applyCmd (upsertCmd ''r2'' ''b'') 1 (snd (Submit_timeout 1 (snd s2))) = Some (req, s3) \<and> chans s3 1 = []"
proof -
  have ok: "waiters_ok (makeStore True None)" by (rule waiters_ok_make)
  obtain rfa s1 where a: "Submit_begin (upsertCmd ''r1'' ''a'') (leaderAt 1) (makeStore True None) = (Inr (1, 0), rfa, s1)"
    and s1: "nextChan s1 = 1" "rfSet s1"
    by (auto simp: Submit_begin_def makeStore_def leaderAt_def Make_def readPersist_def Start_def lastLogIndex_def)
  obtain rfb s2 where b: "Submit_begin (upsertCmd ''r2'' ''b'') (leaderAt 3) s1 = (Inr (1, 1), rfb, s2)"
    using s1 by (auto simp: Submit_begin_def leaderAt_def Make_def readPersist_def Start_def lastLogIndex_def)
  from timeout_drops_newer_waiter [OF ok a b] a b show ?thesis by auto
qed

text \<open>
  Recording a run for a job that has been deleted brings back a run history for it, although
  the job itself stays deleted.
\<close>

theorem record_after_delete:
  assumes "cmdType d = CmdDelete" and "cmdType r = CmdRecord" and "runJobID (cmdRun r) = cmdID d"
  shows "GetJob (cmdID d) (applySwitch r (applySwitch d s)) = (zeroJob, False)
    \<and> GetRuns (cmdID d) (applySwitch r (applySwitch d s)) = [cmdRun r]"
  using assms
  by (simp add: applySwitch_def CmdUpsert_def CmdDelete_def CmdRecord_def GetJob_def GetRuns_def recordRun_eq
      lastRuns_def maxRunsPerJob_def)

definition deleteCmd :: "string \<Rightarrow> string \<Rightarrow> Cmd" where
  "deleteCmd r i = \<lparr>cmdType = CmdDelete, ReqID = r, cmdJob = zeroJob, cmdID = i, cmdRun = zeroRun\<rparr>"

definition recordCmd :: "string \<Rightarrow> string \<Rightarrow> Cmd" where
  "recordCmd r i = \<lparr>cmdType = CmdRecord, ReqID = r, cmdJob = zeroJob, cmdID = [], cmdRun = zeroRun\<lparr>runJobID := i\<rparr>\<rparr>"

theorem record_after_delete_witness:
  "GetRuns ''a'' (applySwitch (recordCmd ''r2'' ''a'') (applySwitch (deleteCmd ''r1'' ''a'') (makeStore True None)))
     = [zeroRun\<lparr>runJobID := ''a''\<rparr>]"
  using record_after_delete [of "deleteCmd ''r1'' ''a''" "recordCmd ''r2'' ''a''" "makeStore True None"]
  by (simp add: deleteCmd_def recordCmd_def)

end
