(* ===== verification/Go_Strings.thy ===== *)
theory Go_Strings
  imports Prelude
begin

text \<open>
  The functions of Go's \<open>strings\<close> and \<open>strconv\<close> packages the program calls, on ASCII
  strings: \<open>Fields\<close>, \<open>Split\<close> and \<open>Index\<close> with a one-character separator,
  \<open>SplitN\<close> with limit 2, \<open>TrimSpace\<close> and \<open>Atoi\<close> (an optional sign, at least
  one decimal digit, the value within 64 bits; \<open>None\<close> is the error result), and
  \<open>hex.EncodeToString\<close>.
\<close>

definition isSpace :: "char \<Rightarrow> bool" where
  "isSpace c \<longleftrightarrow> c = CHR '' '' \<or> of_char c \<in> {9, 10, 11, 12, 13 :: nat}"

function Fields :: "string \<Rightarrow> string list" where
  "Fields s =
     (let s' = dropWhile isSpace s in
      if s' = [] then []
      else takeWhile (\<lambda>c. \<not> isSpace c) s' # Fields (dropWhile (\<lambda>c. \<not> isSpace c) s'))"
  by pat_completeness auto

lemma dropWhile_nonspace_shorter:
  assumes "dropWhile isSpace s \<noteq> []"
  shows "length (dropWhile (\<lambda>c. \<not> isSpace c) (dropWhile isSpace s)) < length s"
proof -
  obtain x xs where x: "dropWhile isSpace s = x # xs" using assms by (cases "dropWhile isSpace s") auto
  then have "\<not> isSpace x" by (metis hd_dropWhile list.distinct(1) list.sel(1))
  then have "length (dropWhile (\<lambda>c. \<not> isSpace c) (x # xs)) \<le> length xs"
    by (simp add: length_dropWhile_le)
  also have "\<dots> < length s"
    using length_dropWhile_le [of isSpace s] x by simp
  finally show ?thesis by (simp only: x)
qed

termination Fields
  by (relation "measure length") (auto simp: dropWhile_nonspace_shorter)

declare Fields.simps [simp del]

fun Split :: "string \<Rightarrow> char \<Rightarrow> string list" where
  "Split [] sep = [[]]"
| "Split (c # cs) sep =
     (if c = sep then [] # Split cs sep
      else (case Split cs sep of [] \<Rightarrow> [[c]] | p # ps \<Rightarrow> (c # p) # ps))"

text \<open>\<open>strings.Index\<close> for a one-character substring: its first position, or -1.\<close>

fun Index :: "string \<Rightarrow> char \<Rightarrow> int" where
  "Index [] sep = - 1"
| "Index (c # cs) sep =
     (if c = sep then 0 else (let i = Index cs sep in if i < 0 then - 1 else i + 1))"

text \<open>\<open>strings.SplitN(s, sep, 2)\<close>: at most one split, at the first separator.\<close>

definition SplitN2 :: "string \<Rightarrow> char \<Rightarrow> string list" where
  "SplitN2 s sep =
     (let i = Index s sep in if i < 0 then [s] else [take (nat i) s, drop (nat i + 1) s])"

definition TrimSpace :: "string \<Rightarrow> string" where
  "TrimSpace s = rev (dropWhile isSpace (rev (dropWhile isSpace s)))"

definition digit :: "char \<Rightarrow> int option" where
  "digit c = (if 48 \<le> (of_char c :: nat) \<and> (of_char c :: nat) \<le> 57
              then Some (int (of_char c - 48)) else None)"

fun digits :: "int \<Rightarrow> string \<Rightarrow> int option" where
  "digits acc [] = Some acc"
| "digits acc (c # cs) = (case digit c of None \<Rightarrow> None | Some d \<Rightarrow> digits (10 * acc + d) cs)"

definition Atoi :: "string \<Rightarrow> int option" where
  "Atoi s =
     (let (sgn, body) =
        (case s of [] \<Rightarrow> (1, [])
         | c # cs \<Rightarrow> if c = CHR ''-'' then (- 1, cs) else if c = CHR ''+'' then (1, cs) else (1, s))
      in if body = [] then None
         else (case digits 0 body of None \<Rightarrow> None
               | Some v \<Rightarrow> if in_int64 (sgn * v) then Some (sgn * v) else None))"

definition hexDigit :: "nat \<Rightarrow> char" where
  "hexDigit d = ''0123456789abcdef'' ! d"

definition EncodeToString :: "8 word list \<Rightarrow> string" where
  "EncodeToString src = concat (map (\<lambda>b. [hexDigit (unat b div 16), hexDigit (unat b mod 16)]) src)"


section \<open>Lemmas\<close>

lemma Split_nonempty [simp]: "Split s sep \<noteq> []"
  by (cases s) (auto split: list.splits)

lemma Index_cases:
  "Index s sep = - 1 \<and> sep \<notin> set s \<or>
   0 \<le> Index s sep \<and> nat (Index s sep) < length s \<and> s ! nat (Index s sep) = sep
     \<and> sep \<notin> set (take (nat (Index s sep)) s)"
  by (induction s) (auto simp: Let_def nth_Cons' take_Cons' nat_add_distrib nat_diff_distrib)

lemma Index_neg_iff: "Index s sep < 0 \<longleftrightarrow> sep \<notin> set s"
  using Index_cases [of s sep] by (metis nth_mem linorder_not_less zero_le_numeral neg_less_0_iff_less
      not_less zero_less_one)

lemma Atoi_in_int64: "Atoi s = Some v \<Longrightarrow> in_int64 v"
  by (auto simp: Atoi_def Let_def split: list.splits if_splits option.splits)

lemma hexDigit_inj: "a < 16 \<Longrightarrow> b < 16 \<Longrightarrow> hexDigit a = hexDigit b \<Longrightarrow> a = b"
proof -
  have "distinct ''0123456789abcdef''" "length ''0123456789abcdef'' = 16" by simp_all
  then show "a < 16 \<Longrightarrow> b < 16 \<Longrightarrow> hexDigit a = hexDigit b \<Longrightarrow> a = b"
    unfolding hexDigit_def using nth_eq_iff_index_eq by metis
qed

lemma EncodeToString_length: "length (EncodeToString bs) = 2 * length bs"
  by (induction bs) (simp_all add: EncodeToString_def)

lemma byte_halves: "unat (b :: 8 word) div 16 < 16" "unat b mod 16 < 16"
proof -
  have "unat b < 2 ^ 8" using unsigned_less [of b] by simp
  then show "unat b div 16 < 16" "unat b mod 16 < 16" by (simp_all add: div_less_iff_less_mult)
qed

lemma EncodeToString_digits: "set (EncodeToString bs) \<subseteq> set ''0123456789abcdef''"
proof -
  define D where "D = set ''0123456789abcdef''"
  have "length ''0123456789abcdef'' = 16" by simp
  then have "hexDigit d \<in> D" if "d < 16" for d
    unfolding hexDigit_def D_def using that nth_mem by metis
  then show ?thesis
    unfolding D_def [symmetric] by (auto simp: EncodeToString_def byte_halves)
qed

lemma EncodeToString_inj: "EncodeToString bs = EncodeToString cs \<Longrightarrow> bs = cs"
proof (induction bs arbitrary: cs)
  case Nil
  then show ?case by (cases cs) (auto simp: EncodeToString_def)
next
  case (Cons b bs)
  then obtain c cs' where cs: "cs = c # cs'" by (cases cs) (auto simp: EncodeToString_def)
  from Cons.prems cs have "hexDigit (unat b div 16) = hexDigit (unat c div 16)" "hexDigit (unat b mod 16) = hexDigit (unat c mod 16)"
    "EncodeToString bs = EncodeToString cs'" by (simp_all add: EncodeToString_def)
  then have "unat b div 16 = unat c div 16" "unat b mod 16 = unat c mod 16" "bs = cs'"
    using hexDigit_inj byte_halves Cons.IH by blast+
  then show ?case using cs by (metis div_mult_mod_eq word_unat_eq_iff)
qed

end
