(* ===== verification/Executor.thy ===== *)
theory Executor
  imports Store Go_Strings
begin

text \<open>
  The executors, \<open>src/internal/scheduler/executor.go\<close>, and the placeholder executor of
  \<open>scheduler.go\<close>.  The shell, the HTTP client and the clock are outside the program: they are
  the fields of \<open>exec_env\<close>, which every executor takes as an argument.
\<close>

section \<open>Outside world\<close>

text \<open>How a command run by the shell ended: \<open>err == nil\<close>, an \<open>*exec.ExitError\<close>, another error.\<close>

datatype shell_err = ShellOk | ShellExit int | ShellOther

record httpEnvelope =
  envJobID :: string
  envJobName :: string
  envTriggeredAt :: int

text \<open>
  What an executor finds outside the program: the readings of the clock when it starts and when it
  ends, the outcome of \<open>/bin/sh -c\<close> under a time-out (output, error, whether the deadline passed)
  and of a POST (the text of an error, or the status code).
\<close>

record exec_env =
  envStarted :: int
  envFinished :: int
  envShell :: "int \<Rightarrow> string \<Rightarrow> string \<times> shell_err \<times> bool"
  envPost :: "int option \<Rightarrow> string \<Rightarrow> httpEnvelope \<Rightarrow> string + int"

section \<open>Executors\<close>

definition second_ns :: int where "second_ns = 1000000000"

definition defaultShellTimeout :: int where "defaultShellTimeout = 10 * 60 * second_ns"

definition NoopExecutor_Run :: "exec_env \<Rightarrow> Job \<Rightarrow> RunRecord" where
  "NoopExecutor_Run env j =
     zeroRun\<lparr>runJobID := jobID j, StartedAt := envStarted env, FinishedAt := envFinished env,
             Status := ''ok'', Output := ''(noop)''\<rparr>"

definition ShellExecutor_Run :: "int \<Rightarrow> exec_env \<Rightarrow> Job \<Rightarrow> RunRecord" where
  "ShellExecutor_Run timeout0 env j =
     (let timeout = (if timeout0 = 0 then defaultShellTimeout else timeout0);
          (out, err, deadline) = envShell env timeout (Payload j);
          rec = zeroRun\<lparr>runJobID := jobID j, StartedAt := envStarted env, FinishedAt := envFinished env, Output := out\<rparr>
      in if err = ShellOk then rec\<lparr>Status := ''ok''\<rparr>
         else
           let rec = rec\<lparr>Status := ''error''\<rparr>;
               rec = (if deadline then rec\<lparr>Output := Output rec @ ''\<newline>[timeout]''\<rparr> else rec)
           in case err of ShellExit c \<Rightarrow> rec\<lparr>ExitCode := c\<rparr> | _ \<Rightarrow> rec)"

text \<open>The decimal digits \<open>%d\<close> prints.\<close>

fun decimal :: "nat \<Rightarrow> string" where
  "decimal n = (if n < 10 then [char_of (48 + n)] else decimal (n div 10) @ [char_of (48 + n mod 10)])"

declare decimal.simps [simp del]

definition formatInt :: "int \<Rightarrow> string" where
  "formatInt i = (if i < 0 then CHR ''-'' # decimal (nat (- i)) else decimal (nat i))"

text \<open>The client's time-out: \<open>None\<close> for the default client of 30 seconds.\<close>

definition HTTPExecutor_Run :: "int option \<Rightarrow> exec_env \<Rightarrow> Job \<Rightarrow> RunRecord" where
  "HTTPExecutor_Run client0 env j =
     (let client = (case client0 of None \<Rightarrow> Some (30 * second_ns) | Some t \<Rightarrow> Some t);
          body = \<lparr>envJobID = jobID j, envJobName = jobName j, envTriggeredAt = envStarted env\<rparr>;
          rec = zeroRun\<lparr>runJobID := jobID j, StartedAt := envStarted env\<rparr>;
          resp = envPost env client (Payload j) body;
          rec = rec\<lparr>FinishedAt := envFinished env\<rparr>
      in case resp of
           Inl e \<Rightarrow> rec\<lparr>Status := ''error'', Output := e\<rparr>
         | Inr code \<Rightarrow>
             let rec = rec\<lparr>ExitCode := code\<rparr> in
             if 200 \<le> code \<and> code < 300 then rec\<lparr>Status := ''ok''\<rparr>
             else rec\<lparr>Status := ''error'', Output := ''HTTP '' @ formatInt code\<rparr>)"

definition KafkaExecutor_Run :: "string list \<Rightarrow> exec_env \<Rightarrow> Job \<Rightarrow> RunRecord" where
  "KafkaExecutor_Run brokers env j =
     (let rec = zeroRun\<lparr>runJobID := jobID j, StartedAt := envStarted env, FinishedAt := envFinished env\<rparr>
      in case SplitN2 (Payload j) (CHR '':'') of
           [topic, message] \<Rightarrow>
             if brokers = [] then
               rec\<lparr>Status := ''ok'', Output := ''skipped: no brokers (topic='' @ topic @ '')''\<rparr>
             else rec\<lparr>Status := ''error'', Output := ''kafka executor not yet implemented''\<rparr>
         | _ \<Rightarrow> rec\<lparr>Status := ''error'', Output := ''kafka payload must be \"topic:message\"''\<rparr>)"

datatype executor = ShellExecutor int | HTTPExecutor "int option" | KafkaExecutor "string list"

fun executor_Run :: "executor \<Rightarrow> exec_env \<Rightarrow> Job \<Rightarrow> RunRecord" where
  "executor_Run (ShellExecutor timeout) env j = ShellExecutor_Run timeout env j"
| "executor_Run (HTTPExecutor client) env j = HTTPExecutor_Run client env j"
| "executor_Run (KafkaExecutor brokers) env j = KafkaExecutor_Run brokers env j"

record Dispatcher =
  dispatchMap :: "string \<rightharpoonup> executor"

definition NewDispatcher :: Dispatcher where
  "NewDispatcher = \<lparr>dispatchMap =
     [''shell'' \<mapsto> ShellExecutor 0, ''http'' \<mapsto> HTTPExecutor None, ''kafka'' \<mapsto> KafkaExecutor []]\<rparr>"

definition Dispatcher_Run :: "Dispatcher \<Rightarrow> exec_env \<Rightarrow> Job \<Rightarrow> RunRecord" where
  "Dispatcher_Run d env j =
     (case dispatchMap d (jobExecutor j) of
        None \<Rightarrow> zeroRun\<lparr>runJobID := jobID j, StartedAt := envStarted env, FinishedAt := envFinished env,
                        Status := ''error'', Output := ''unknown executor type: '' @ jobExecutor j\<rparr>
      | Some ex \<Rightarrow> executor_Run ex env j)"

section \<open>Properties\<close>

lemma Index_negative: "Index s c < 0 \<longleftrightarrow> c \<notin> set s"
  by (induction s) (auto simp: Let_def)

lemma ShellExecutor_fields:
  "runJobID (ShellExecutor_Run t env j) = jobID j" "StartedAt (ShellExecutor_Run t env j) = envStarted env"
  "FinishedAt (ShellExecutor_Run t env j) = envFinished env"
  "Status (ShellExecutor_Run t env j) =
     (if fst (snd (envShell env (if t = 0 then defaultShellTimeout else t) (Payload j))) = ShellOk then ''ok'' else ''error'')"
  by (simp_all add: ShellExecutor_Run_def Let_def split: prod.split shell_err.split)

lemma HTTPExecutor_fields:
  "runJobID (HTTPExecutor_Run c env j) = jobID j" "StartedAt (HTTPExecutor_Run c env j) = envStarted env"
  "FinishedAt (HTTPExecutor_Run c env j) = envFinished env"
  by (simp_all add: HTTPExecutor_Run_def Let_def split: sum.split)

lemma KafkaExecutor_fields:
  "runJobID (KafkaExecutor_Run b env j) = jobID j" "StartedAt (KafkaExecutor_Run b env j) = envStarted env"
  "FinishedAt (KafkaExecutor_Run b env j) = envFinished env"
  by (simp_all add: KafkaExecutor_Run_def Let_def split: list.split)

text \<open>The success criterion of each of the executors \<open>NewDispatcher\<close> knows.\<close>

definition jobSucceeds :: "exec_env \<Rightarrow> Job \<Rightarrow> bool" where
  "jobSucceeds env j =
     (if jobExecutor j = ''shell'' then fst (snd (envShell env defaultShellTimeout (Payload j))) = ShellOk
      else if jobExecutor j = ''http'' then
        (case envPost env (Some (30 * second_ns)) (Payload j)
                \<lparr>envJobID = jobID j, envJobName = jobName j, envTriggeredAt = envStarted env\<rparr> of
           Inl _ \<Rightarrow> False | Inr code \<Rightarrow> 200 \<le> code \<and> code < 300)
      else jobExecutor j = ''kafka'' \<and> CHR '':'' \<in> set (Payload j))"


end
