(* ===== verification/Go_Time.thy ===== *)
theory Go_Time
  imports Prelude
begin

text \<open>
  The part of Go's \<open>time\<close> package the program uses, at location UTC.

  A \<open>time.Time\<close> is an integer: the nanoseconds since the zero time, January 1 of year 1,
  00:00 UTC, so \<open>time.Time{}\<close> is 0 and \<open>IsZero\<close> is a comparison with 0.
  \<open>Truncate\<close> rounds down to a multiple of a duration since the zero time; \<open>Date\<close>
  normalises its month and day arguments as the library documents (a month 13 is January of the
  next year, a day past the end of the month runs into the next); \<open>Year\<close>, \<open>Month\<close>,
  \<open>Day\<close>, \<open>Weekday\<close>, \<open>HourOf\<close> and \<open>MinuteOf\<close> are the calendar
  fields in the proleptic Gregorian calendar.

  The lemmas characterise the fields by intervals: two instants of one month, day, hour or minute
  agree on the corresponding fields, and \<open>Date\<close> inverts the fields.
\<close>

type_synonym time = int

abbreviation minute_ns :: int where "minute_ns \<equiv> 60000000000"
abbreviation hour_ns :: int where "hour_ns \<equiv> 3600000000000"
abbreviation day_ns :: int where "day_ns \<equiv> 86400000000000"


section \<open>The calendar\<close>

definition Truncate :: "time \<Rightarrow> int \<Rightarrow> time" where
  "Truncate t d = t - t mod d"

definition isLeap :: "int \<Rightarrow> bool" where
  "isLeap y \<longleftrightarrow> y mod 4 = 0 \<and> (y mod 100 \<noteq> 0 \<or> y mod 400 = 0)"

text \<open>Days from January 1 of year 1 to January 1 of year \<open>y\<close>.\<close>

definition daysToYear :: "int \<Rightarrow> int" where
  "daysToYear y = 365 * (y - 1) + (y - 1) div 4 - (y - 1) div 100 + (y - 1) div 400"

text \<open>Days of the year before month \<open>m\<close>, for \<open>m\<close> from 1 to 13.\<close>

definition daysBefore :: "bool \<Rightarrow> int \<Rightarrow> int" where
  "daysBefore leap m =
     ([0, 31, 59, 90, 120, 151, 181, 212, 243, 273, 304, 334, 365] ! nat (m - 1))
     + (if leap \<and> 2 < m then 1 else 0)"

definition dayNumber :: "int \<Rightarrow> int \<Rightarrow> int \<Rightarrow> int" where
  "dayNumber y m d =
     (let y' = y + (m - 1) div 12; m' = (m - 1) mod 12 + 1
      in daysToYear y' + daysBefore (isLeap y') m' + (d - 1))"

definition Date :: "int \<Rightarrow> int \<Rightarrow> int \<Rightarrow> int \<Rightarrow> int \<Rightarrow> int \<Rightarrow> int \<Rightarrow> time" where
  "Date y m d h mi s ns =
     dayNumber y m d * day_ns + h * hour_ns + mi * minute_ns + s * 1000000000 + ns"

text \<open>The year and the day of the year (from 0) of a day number, by 400, 100, 4 and 1 year cycles.\<close>

definition yearAndDay :: "int \<Rightarrow> int \<times> int" where
  "yearAndDay n =
     (let a = n div 146097; n1 = n mod 146097;
          b = min 3 (n1 div 36524); n2 = n1 - 36524 * b;
          c = n2 div 1461; n3 = n2 mod 1461;
          e = min 3 (n3 div 365)
      in (400 * a + 100 * b + 4 * c + e + 1, n3 - 365 * e))"

fun monthOfDay :: "bool \<Rightarrow> int \<Rightarrow> int" where
  "monthOfDay leap yd =
     (let l = (if leap then 1 else 0) in
      if yd < 31 then 1 else if yd < 59 + l then 2 else if yd < 90 + l then 3
      else if yd < 120 + l then 4 else if yd < 151 + l then 5 else if yd < 181 + l then 6
      else if yd < 212 + l then 7 else if yd < 243 + l then 8 else if yd < 273 + l then 9
      else if yd < 304 + l then 10 else if yd < 334 + l then 11 else 12)"

definition dayOf :: "time \<Rightarrow> int" where
  "dayOf t = t div day_ns"

definition Year :: "time \<Rightarrow> int" where
  "Year t = fst (yearAndDay (dayOf t))"

definition Month :: "time \<Rightarrow> int" where
  "Month t = monthOfDay (isLeap (Year t)) (snd (yearAndDay (dayOf t)))"

definition Day :: "time \<Rightarrow> int" where
  "Day t = snd (yearAndDay (dayOf t)) - daysBefore (isLeap (Year t)) (Month t) + 1"

text \<open>January 1 of year 1 is a Monday; Sunday is 0.\<close>

definition Weekday :: "time \<Rightarrow> int" where
  "Weekday t = (dayOf t + 1) mod 7"

definition HourOf :: "time \<Rightarrow> int" where
  "HourOf t = (t mod day_ns) div hour_ns"

definition MinuteOf :: "time \<Rightarrow> int" where
  "MinuteOf t = (t mod hour_ns) div minute_ns"

text \<open>\<open>t.AddDate(years, months, days)\<close>: the fields are added and renormalised.\<close>

definition AddDate :: "time \<Rightarrow> int \<Rightarrow> int \<Rightarrow> int \<Rightarrow> time" where
  "AddDate t y m d = Date (Year t + y) (Month t + m) (Day t + d) 0 0 0 0 + t mod day_ns"


section \<open>Years\<close>

lemma div_pred:
  fixes k d :: int
  assumes "0 < d"
  shows "k div d = (k - 1) div d + (if k mod d = 0 then 1 else 0)"
proof (cases "k mod d = 0")
  case True
  then obtain q where k: "k = d * q" by auto
  have "(d * q - 1) div d = q - 1"
    using assms by (intro int_div_pos_eq [where r = "d - 1"]) (auto simp: algebra_simps)
  with k True assms show ?thesis by simp
next
  case False
  have "0 \<le> k mod d" "k mod d < d" using assms by auto
  with False have "0 \<le> k mod d - 1" "k mod d - 1 < d" by auto
  then have "(k - 1) div d = k div d"
    by (intro int_div_pos_eq [where r = "k mod d - 1"]) (auto simp: algebra_simps)
  with False show ?thesis by simp
qed

lemma daysToYear_Suc: "daysToYear (y + 1) = daysToYear y + 365 + (if isLeap y then 1 else 0)"
proof -
  have m: "y mod 400 = 0 \<Longrightarrow> y mod 100 = 0" "y mod 100 = 0 \<Longrightarrow> y mod 4 = 0"
    using mod_mod_cancel [of 100 400 y] mod_mod_cancel [of 4 100 y] by auto
  define p q r where "p = (y - 1) div 4" and "q = (y - 1) div 100" and "r = (y - 1) div 400"
  have "y div 4 = p + (if y mod 4 = 0 then 1 else 0)" "y div 100 = q + (if y mod 100 = 0 then 1 else 0)"
    "y div 400 = r + (if y mod 400 = 0 then 1 else 0)"
    unfolding p_def q_def r_def by (rule div_pred, simp)+
  then have "daysToYear (y + 1) = 365 * y + (p + (if y mod 4 = 0 then 1 else 0))
      - (q + (if y mod 100 = 0 then 1 else 0)) + (r + (if y mod 400 = 0 then 1 else 0))"
    by (simp only: daysToYear_def add_diff_cancel_right')
  moreover have "daysToYear y = 365 * (y - 1) + p - q + r"
    by (simp only: daysToYear_def p_def q_def r_def)
  ultimately show ?thesis
    using m by (cases "y mod 4 = 0"; cases "y mod 100 = 0"; cases "y mod 400 = 0")
      (simp_all only: isLeap_def if_True if_False simp_thms, simp_all)
qed

lemma daysToYear_mono: "x \<le> y \<Longrightarrow> daysToYear x \<le> daysToYear y"
proof (induction y rule: int_ge_induct)
  case (step i)
  then show ?case by (simp add: daysToYear_Suc)
qed simp

lemma year_unique:
  assumes "daysToYear x \<le> n" "n < daysToYear (x + 1)" "daysToYear y \<le> n" "n < daysToYear (y + 1)"
  shows "x = y"
proof (rule ccontr)
  assume "x \<noteq> y"
  then consider "x + 1 \<le> y" | "y + 1 \<le> x" by linarith
  then show False using assms daysToYear_mono by cases force+
qed

lemma daysToYear_split:
  assumes "0 \<le> b" "b \<le> 3" "0 \<le> c" "c \<le> 24" "0 \<le> e" "e \<le> 3"
  shows "daysToYear (400 * a + 100 * b + 4 * c + e + 1) = 146097 * a + 36524 * b + 1461 * c + 365 * e"
proof -
  have "(400 * a + 100 * b + 4 * c + e) div 4 = 100 * a + 25 * b + c"
    and "(400 * a + 100 * b + 4 * c + e) div 100 = 4 * a + b"
    and "(400 * a + 100 * b + 4 * c + e) div 400 = a"
    using assms by (auto intro: int_div_pos_eq [where r = e]
      int_div_pos_eq [where r = "4 * c + e"] int_div_pos_eq [where r = "100 * b + 4 * c + e"])
  then show ?thesis by (simp add: daysToYear_def)
qed

lemma mod_eq_0_top: "1 \<le> x \<Longrightarrow> x \<le> d \<Longrightarrow> x mod d = 0 \<longleftrightarrow> x = d" for x d :: int
  by (cases "x = d") auto

lemma isLeap_split:
  assumes "0 \<le> b" "b \<le> 3" "0 \<le> c" "c \<le> 24" "0 \<le> e" "e \<le> 3"
  shows "isLeap (400 * a + 100 * b + 4 * c + e + 1) \<longleftrightarrow> e = 3 \<and> (c \<noteq> 24 \<or> b = 3)"
proof -
  define y where "y = 400 * a + 100 * b + 4 * c + e + 1"
  have r: "x mod d = w mod d" if "x = w + d * q" for x w d q :: int
    using that by simp
  have "y mod 4 = (e + 1) mod 4"
    by (rule r [of _ _ _ "100 * a + 25 * b + c"]) (simp add: y_def)
  then have 4: "y mod 4 = 0 \<longleftrightarrow> e + 1 = 4"
    using assms mod_eq_0_top [of "e + 1" 4] by simp
  have "y mod 100 = (4 * c + e + 1) mod 100"
    by (rule r [of _ _ _ "4 * a + b"]) (simp add: y_def)
  then have 100: "y mod 100 = 0 \<longleftrightarrow> 4 * c + e + 1 = 100"
    using assms mod_eq_0_top [of "4 * c + e + 1" 100] by simp
  have "y mod 400 = (100 * b + 4 * c + e + 1) mod 400"
    by (rule r [of _ _ _ a]) (simp add: y_def)
  then have 400: "y mod 400 = 0 \<longleftrightarrow> 100 * b + 4 * c + e + 1 = 400"
    using assms mod_eq_0_top [of "100 * b + 4 * c + e + 1" 400] by simp
  have c24: "c = 24 \<and> e = 3" if "4 * c + e + 1 = 100"
  proof -
    from that assms(6) have "24 \<le> c" by linarith
    with that assms(4) show ?thesis by simp
  qed
  then have c100: "4 * c + e + 1 = 100 \<longleftrightarrow> c = 24 \<and> e = 3" by auto
  have "b = 3 \<and> c = 24 \<and> e = 3" if "100 * b + 4 * c + e + 1 = 400"
  proof -
    from that assms(4,6) have "3 \<le> b" by linarith
    with that assms(2) c24 show ?thesis by simp
  qed
  then have c400: "100 * b + 4 * c + e + 1 = 400 \<longleftrightarrow> b = 3 \<and> c = 24 \<and> e = 3" by auto
  show ?thesis
    unfolding isLeap_def y_def [symmetric] 4 100 400 c100 c400 by auto
qed

lemma yearAndDay_spec:
  assumes "yearAndDay n = (y, yd)"
  shows "daysToYear y + yd = n \<and> 0 \<le> yd \<and> yd < 365 + (if isLeap y then 1 else 0)"
proof -
  define a where "a = n div 146097"
  define n1 where "n1 = n mod 146097"
  define b where "b = min 3 (n1 div 36524)"
  define n2 where "n2 = n1 - 36524 * b"
  define c where "c = n2 div 1461"
  define n3 where "n3 = n2 mod 1461"
  define e where "e = min 3 (n3 div 365)"
  have "(400 * a + 100 * b + 4 * c + e + 1, n3 - 365 * e) = (y, yd)"
    using assms by (simp only: yearAndDay_def Let_def a_def n1_def b_def n2_def c_def n3_def e_def)
  then have y: "y = 400 * a + 100 * b + 4 * c + e + 1" and yd: "yd = n3 - 365 * e" by blast+
  have n: "n = 146097 * a + n1" unfolding a_def n1_def by simp
  have n1: "0 \<le> n1" "n1 < 146097" unfolding n1_def by auto
  have b: "0 \<le> b" "b \<le> 3" "36524 * b \<le> n1" "b < 3 \<longrightarrow> n1 < 36524 * (b + 1)"
    using n1 mult_div_mod_eq [of 36524 n1] pos_mod_bound [of 36524 n1] pos_mod_sign [of 36524 n1]
    by (auto simp: b_def min_def)
  have n2: "0 \<le> n2" "n2 < 36525" "b < 3 \<longrightarrow> n2 < 36524" using b n1 unfolding n2_def by auto
  have n2s: "n2 = 1461 * c + n3" unfolding c_def n3_def by simp
  have c: "0 \<le> c" "c \<le> 24" using n2 unfolding c_def by auto
  have n3: "0 \<le> n3" "n3 < 1461" unfolding n3_def by auto
  have e: "0 \<le> e" "e \<le> 3" "365 * e \<le> n3" "e < 3 \<longrightarrow> n3 < 365 * (e + 1)"
    using n3 mult_div_mod_eq [of 365 n3] pos_mod_bound [of 365 n3] pos_mod_sign [of 365 n3]
    by (auto simp: e_def min_def)
  have days: "daysToYear y + yd = n"
    unfolding y yd daysToYear_split [OF b(1,2) c e(1,2)] n using n2s n2_def by simp
  note leap = isLeap_split [OF b(1,2) c e(1,2), of a, folded y]
  show ?thesis
  proof (cases "e = 3")
    case True
    have "yd < 365" if "c = 24" "b < 3" using that n2 n2s True unfolding yd by simp
    moreover have "yd < 366" using n3 True unfolding yd by simp
    ultimately show ?thesis using days leap True e b unfolding yd by auto
  next
    case False
    then show ?thesis using days leap e unfolding yd by auto
  qed
qed

lemma yearAndDay_eq:
  assumes "0 \<le> yd" and "yd < 365 + (if isLeap y then 1 else 0)"
  shows "yearAndDay (daysToYear y + yd) = (y, yd)"
proof (cases "yearAndDay (daysToYear y + yd)")
  case (Pair y' yd')
  from yearAndDay_spec [OF this]
  have s: "daysToYear y' + yd' = daysToYear y + yd" "0 \<le> yd'" "yd' < 365 + (if isLeap y' then 1 else 0)"
    by auto
  have "y = y'"
    using s assms by (intro year_unique [where n = "daysToYear y + yd"]) (auto simp: daysToYear_Suc)
  with s Pair show ?thesis by simp
qed


section \<open>Months\<close>

lemma month_cases: "1 \<le> m \<Longrightarrow> m \<le> 12 \<Longrightarrow> m \<in> {1, 2, 3, 4, 5, 6, 7, 8, 9, 10, 11, 12 :: int}"
  by simp arith

lemma daysBefore_bounds:
  assumes "1 \<le> m" "m \<le> 12"
  shows "0 \<le> daysBefore l m" "daysBefore l m < daysBefore l (m + 1)"
    "daysBefore l (m + 1) \<le> 365 + (if l then 1 else 0)"
  using month_cases [OF assms] by (elim insertE; simp add: daysBefore_def)+

lemma monthOfDay_range: "1 \<le> monthOfDay l yd \<and> monthOfDay l yd \<le> 12"
  by (auto simp: Let_def)

lemma monthOfDay_eq:
  assumes "1 \<le> m" "m \<le> 12" "daysBefore l m \<le> yd" "yd < daysBefore l (m + 1)"
  shows "monthOfDay l yd = m"
  using month_cases [OF assms(1,2)] assms(3,4)
  by (cases l) (elim insertE; simp add: daysBefore_def)+

lemma int_step_exists:
  fixes f :: "int \<Rightarrow> int"
  assumes "a < b" "f a \<le> x" "x < f b"
  shows "\<exists>m. a \<le> m \<and> m < b \<and> f m \<le> x \<and> x < f (m + 1)"
  using assms
proof (induction b rule: int_gr_induct)
  case (step i)
  then show ?case
  proof (cases "f i \<le> x")
    case True
    with step show ?thesis by (intro exI [of _ i]) auto
  next
    case False
    with step.IH step.prems obtain m where "a \<le> m \<and> m < i \<and> f m \<le> x \<and> x < f (m + 1)" by auto
    then show ?thesis by (intro exI [of _ m]) auto
  qed
qed auto

lemma monthOfDay_bounds:
  assumes "0 \<le> yd" "yd < 365 + (if l then 1 else 0)"
  shows "daysBefore l (monthOfDay l yd) \<le> yd" "yd < daysBefore l (monthOfDay l yd + 1)"
proof -
  have "daysBefore l 1 \<le> yd" "yd < daysBefore l 13" using assms by (simp_all add: daysBefore_def)
  then obtain m where "1 \<le> m" "m < 13" "daysBefore l m \<le> yd" "yd < daysBefore l (m + 1)"
    using int_step_exists [of 1 13 "daysBefore l" yd] by auto
  with monthOfDay_eq [of m l yd]
  show "daysBefore l (monthOfDay l yd) \<le> yd" "yd < daysBefore l (monthOfDay l yd + 1)" by auto
qed

declare monthOfDay.simps [simp del]


section \<open>Fields of an instant\<close>

lemma day_split:
  "dayOf t = daysToYear (Year t) + daysBefore (isLeap (Year t)) (Month t) + (Day t - 1)"
  using yearAndDay_spec [of "dayOf t" "Year t" "snd (yearAndDay (dayOf t))"]
  by (simp add: Year_def Day_def)

lemma Month_range: "1 \<le> Month t" "Month t \<le> 12"
  using monthOfDay_range by (simp_all add: Month_def)

lemma month_bounds:
  "daysToYear (Year t) + daysBefore (isLeap (Year t)) (Month t) \<le> dayOf t"
  "dayOf t < daysToYear (Year t) + daysBefore (isLeap (Year t)) (Month t + 1)"
proof -
  have s: "daysToYear (Year t) + snd (yearAndDay (dayOf t)) = dayOf t"
    "0 \<le> snd (yearAndDay (dayOf t))"
    "snd (yearAndDay (dayOf t)) < 365 + (if isLeap (Year t) then 1 else 0)"
    using yearAndDay_spec [of "dayOf t" "Year t" "snd (yearAndDay (dayOf t))"] by (simp_all add: Year_def)
  from monthOfDay_bounds [OF s(2,3)] s(1)
  show "daysToYear (Year t) + daysBefore (isLeap (Year t)) (Month t) \<le> dayOf t"
    and "dayOf t < daysToYear (Year t) + daysBefore (isLeap (Year t)) (Month t + 1)"
    by (simp_all add: Month_def)
qed

lemma Day_range: "1 \<le> Day t" "Day t \<le> 31"
proof -
  show "1 \<le> Day t" using month_bounds(1) [of t] day_split [of t] by simp
  have "daysBefore l (m + 1) - daysBefore l m \<le> 31" if "1 \<le> m" "m \<le> 12" for l m
    using month_cases [OF that] by (elim insertE; simp add: daysBefore_def)
  from this [OF Month_range [of t], of "isLeap (Year t)"] show "Day t \<le> 31"
    using month_bounds(2) [of t] day_split [of t] by simp
qed

lemma fields_of_day:
  assumes "1 \<le> m" "m \<le> 12"
    and "daysToYear y + daysBefore (isLeap y) m \<le> dayOf t"
    and "dayOf t < daysToYear y + daysBefore (isLeap y) (m + 1)"
  shows "Year t = y" "Month t = m"
proof -
  define yd where "yd = dayOf t - daysToYear y"
  have yd: "daysBefore (isLeap y) m \<le> yd" "yd < daysBefore (isLeap y) (m + 1)"
    using assms by (simp_all add: yd_def)
  with daysBefore_bounds [OF assms(1,2), of "isLeap y"]
  have "0 \<le> yd" "yd < 365 + (if isLeap y then 1 else 0)" by linarith+
  from yearAndDay_eq [OF this] have "yearAndDay (dayOf t) = (y, yd)" by (simp add: yd_def)
  then show "Year t = y" by (simp add: Year_def)
  with \<open>yearAndDay (dayOf t) = (y, yd)\<close> monthOfDay_eq [OF assms(1,2) yd]
  show "Month t = m" by (simp add: Month_def)
qed

lemma Weekday_range: "0 \<le> Weekday t" "Weekday t < 7"
  by (simp_all add: Weekday_def)

lemma HourOf_range: "0 \<le> HourOf t" "HourOf t < 24"
  by (simp_all add: HourOf_def) (simp add: div_less_iff_less_mult)?

lemma MinuteOf_range: "0 \<le> MinuteOf t" "MinuteOf t < 60"
  by (simp_all add: MinuteOf_def) (simp add: div_less_iff_less_mult)?


section \<open>Date and the next month\<close>

lemma dayNumber_next_month:
  assumes "1 \<le> m" "m \<le> 12"
  shows "dayNumber y (m + 1) 1 = daysToYear y + daysBefore (isLeap y) (m + 1)"
proof (cases "m = 12")
  case True
  then show ?thesis by (simp add: dayNumber_def Let_def daysToYear_Suc daysBefore_def)
next
  case False
  with assms have "m div 12 = 0" "m mod 12 = m" by auto
  then show ?thesis by (simp add: dayNumber_def Let_def)
qed

lemma dayNumber_same_month:
  assumes "1 \<le> m" "m \<le> 12"
  shows "dayNumber y m d = daysToYear y + daysBefore (isLeap y) m + (d - 1)"
proof -
  from assms have "(m - 1) div 12 = 0" "(m - 1) mod 12 = m - 1" by auto
  then show ?thesis by (simp add: dayNumber_def Let_def)
qed

lemma dayNumber_fields: "dayNumber (Year t) (Month t) (Day t + k) = dayOf t + k"
  using dayNumber_same_month [OF Month_range, of "Year t" t "Day t + k"] day_split [of t] by simp

lemma day_floor: "t = dayOf t * day_ns + t mod day_ns" "0 \<le> t mod day_ns" "t mod day_ns < day_ns"
  by (simp_all add: dayOf_def)

lemma dayOf_midnight: "dayOf (n * day_ns + r) = n" if "0 \<le> r" "r < day_ns" for n r
  using that by (simp add: dayOf_def)

text \<open>\<open>AddDate(0, 0, k)\<close> moves by whole days.\<close>

lemma AddDate_days: "AddDate t 0 0 k = t + k * day_ns"
  using day_floor(1) [of t] by (simp add: AddDate_def Date_def dayNumber_fields distrib_right)

lemma Date_midnight: "Date (Year t) (Month t) (Day t) 0 0 0 0 = dayOf t * day_ns"
  using dayNumber_fields [of t 0] by (simp add: Date_def)

lemma next_month_later: "t < Date (Year t) (Month t + 1) 1 0 0 0 0"
proof -
  have "dayOf t + 1 \<le> dayNumber (Year t) (Month t + 1) 1"
    using month_bounds(2) [of t] dayNumber_next_month [OF Month_range] by simp
  then have "(dayOf t + 1) * day_ns \<le> Date (Year t) (Month t + 1) 1 0 0 0 0"
    by (simp add: Date_def)
  with day_floor [of t] show ?thesis by simp
qed

lemma same_month:
  assumes "t \<le> u" "u < Date (Year t) (Month t + 1) 1 0 0 0 0"
  shows "Month u = Month t"
proof -
  have "dayOf t \<le> dayOf u" using assms(1) by (simp add: dayOf_def zdiv_mono1)
  moreover have "dayOf u < dayNumber (Year t) (Month t + 1) 1"
    using assms(2) by (simp add: dayOf_def Date_def div_less_iff_less_mult)
  ultimately show ?thesis
    using fields_of_day(2) [OF Month_range, of "Year t" t u] month_bounds(1) [of t]
      dayNumber_next_month [OF Month_range, of "Year t" t] by simp
qed

lemma same_day:
  assumes "dayOf u = dayOf t"
  shows "Month u = Month t" "Day u = Day t" "Weekday u = Weekday t"
  using assms by (simp_all add: Month_def Day_def Weekday_def Year_def)

lemma div_eqI: "t div d = u div d" if "0 < d" "t - t mod d \<le> u" "u < t - t mod d + d" for t u d :: int
proof -
  have "t - t mod d = d * (t div d)" by (simp add: minus_mod_eq_mult_div)
  with that have "0 \<le> u - d * (t div d)" "u - d * (t div d) < d" by auto
  then show ?thesis by (intro int_div_pos_eq [symmetric, where r = "u - d * (t div d)"]) auto
qed

end
