(* ===== verification/Cron.thy ===== *)
theory Cron
  imports Go_Time Go_Strings
begin

unbundle bit_operations_syntax

text \<open>
  The cron expression parser, \<open>src/pkg/cron/parser.go\<close>: the bit masks of an expression,
  \<open>Parse\<close> with its field and part parsers, \<open>fillRangeStep\<close>, and \<open>Next\<close>.

  \<open>fillRangeStep\<close> adds its step to a 64-bit \<open>int\<close>, so the model writes the wrap-around
  out; the loop is a \<^theory_text>\<open>partial_function\<close> whose \<open>None\<close> is a loop that never
  ends, and \<open>fillRangeStep_returns\<close> shows that no call \<open>parsePart\<close> makes is such a loop.
  \<open>Next\<close> is total: every branch of its loop moves the instant strictly forward.

  \<open>matches\<close> is the test the loop makes on one instant, and \<open>scan\<close> is the reference
  search, minute by minute; \<open>next_loop_scan\<close> shows that skipping whole months, days and
  hours loses no match.
\<close>

record Expression =
  second :: "64 word"
  minute :: "64 word"
  hour :: "64 word"
  dayOfMonth :: "64 word"
  month :: "64 word"
  dayOfWeek :: "64 word"

datatype part_error =
    InvalidStep string
  | InvalidRangeStart string
  | InvalidRangeEnd string
  | InvalidValue string
  | OutOfRange int int int int
  | Diverges

datatype parse_error =
    ExpectedFields nat
  | FieldError string part_error


section \<open>Parsing\<close>

partial_function (option) fill_loop :: "int \<Rightarrow> int \<Rightarrow> int \<Rightarrow> 64 word \<Rightarrow> (64 word) option" where
  "fill_loop i hi step msk =
     (if i \<le> hi then fill_loop (wrap64 (i + step)) hi step (msk OR shl1 i) else Some msk)"

declare fill_loop.simps [code]

definition fillRangeStep :: "int \<Rightarrow> int \<Rightarrow> int \<Rightarrow> (64 word) option" where
  "fillRangeStep lo hi step = fill_loop lo hi step 0"

definition parseStep :: "string \<Rightarrow> part_error + (int \<times> string)" where
  "parseStep part =
     (let idx = Index part (CHR ''/'') in
      if 0 \<le> idx then
        (case Atoi (drop (nat idx + 1) part) of
           None \<Rightarrow> Inl (InvalidStep (drop (nat idx + 1) part))
         | Some s \<Rightarrow> if s \<le> 0 then Inl (InvalidStep (drop (nat idx + 1) part))
                     else Inr (s, take (nat idx) part))
      else Inr (1, part))"

definition parseRange :: "string \<Rightarrow> int \<Rightarrow> int \<Rightarrow> part_error + (int \<times> int)" where
  "parseRange part mn mx =
     (if part \<noteq> ''*'' then
        (let idx = Index part (CHR ''-'') in
         if 0 \<le> idx then
           (case Atoi (take (nat idx) part) of
              None \<Rightarrow> Inl (InvalidRangeStart (take (nat idx) part))
            | Some lo \<Rightarrow>
                (case Atoi (drop (nat idx + 1) part) of
                   None \<Rightarrow> Inl (InvalidRangeEnd (drop (nat idx + 1) part))
                 | Some hi \<Rightarrow> Inr (lo, hi)))
         else (case Atoi part of None \<Rightarrow> Inl (InvalidValue part) | Some v \<Rightarrow> Inr (v, v)))
      else Inr (mn, mx))"

definition parsePart :: "string \<Rightarrow> int \<Rightarrow> int \<Rightarrow> part_error + 64 word" where
  "parsePart part mn mx =
     (case parseStep part of
        Inl e \<Rightarrow> Inl e
      | Inr (step, part') \<Rightarrow>
          (case parseRange part' mn mx of
             Inl e \<Rightarrow> Inl e
           | Inr (lo, hi) \<Rightarrow>
               if lo < mn \<or> mx < hi \<or> hi < lo then Inl (OutOfRange lo hi mn mx)
               else (case fillRangeStep lo hi step of None \<Rightarrow> Inl Diverges | Some m \<Rightarrow> Inr m)))"

fun parseParts :: "string list \<Rightarrow> int \<Rightarrow> int \<Rightarrow> 64 word \<Rightarrow> part_error + 64 word" where
  "parseParts [] mn mx msk = Inr msk"
| "parseParts (part # parts) mn mx msk =
     (case parsePart part mn mx of
        Inl e \<Rightarrow> Inl e
      | Inr m \<Rightarrow> parseParts parts mn mx (msk OR m))"

definition parseField :: "string \<Rightarrow> int \<Rightarrow> int \<Rightarrow> part_error + 64 word" where
  "parseField field mn mx =
     (if field = ''*'' then (case fillRangeStep mn mx 1 of None \<Rightarrow> Inl Diverges | Some m \<Rightarrow> Inr m)
      else parseParts (Split field (CHR '','')) mn mx 0)"

definition labelled :: "string \<Rightarrow> part_error + 'a \<Rightarrow> (parse_error + 'a)" where
  "labelled name r = (case r of Inl e \<Rightarrow> Inl (FieldError name e) | Inr m \<Rightarrow> Inr m)"

definition Parse :: "string \<Rightarrow> parse_error + Expression" where
  "Parse expr =
     (let fields = Fields expr in
      if length fields \<noteq> 5 then Inl (ExpectedFields (length fields))
      else
        case labelled ''minute'' (parseField (fields ! 0) 0 59) of Inl e \<Rightarrow> Inl e | Inr mi \<Rightarrow>
       (case labelled ''hour'' (parseField (fields ! 1) 0 23) of Inl e \<Rightarrow> Inl e | Inr h \<Rightarrow>
       (case labelled ''dom'' (parseField (fields ! 2) 1 31) of Inl e \<Rightarrow> Inl e | Inr dm \<Rightarrow>
       (case labelled ''month'' (parseField (fields ! 3) 1 12) of Inl e \<Rightarrow> Inl e | Inr mo \<Rightarrow>
       (case labelled ''dow'' (parseField (fields ! 4) 0 6) of Inl e \<Rightarrow> Inl e | Inr dw \<Rightarrow>
          Inr \<lparr>second = 0, minute = mi, hour = h, dayOfMonth = dm, month = mo, dayOfWeek = dw\<rparr>)))))"

text \<open>\<open>nextBit\<close> with \<open>bits.TrailingZeros64\<close>, the number of zero bits below the lowest set one.\<close>

definition TrailingZeros64 :: "64 word \<Rightarrow> int" where
  "TrailingZeros64 w = int (length (takeWhile (\<lambda>k. \<not> bit w k) [0..<64]))"

definition nextBit :: "64 word \<Rightarrow> int \<Rightarrow> int" where
  "nextBit msk pos =
     (let shifted = (if 0 \<le> pos \<and> pos < 64 then drop_bit (nat pos) msk else 0) in
      if shifted = 0 then - 1 else pos + TrailingZeros64 shifted)"


section \<open>The next activation\<close>

definition advanceMonth :: "time \<Rightarrow> time" where
  "advanceMonth t = Date (Year t) (Month t + 1) 1 0 0 0 0"

definition advanceDay :: "time \<Rightarrow> time" where
  "advanceDay t = (let t' = AddDate t 0 0 1 in Date (Year t') (Month t') (Day t') 0 0 0 0)"

definition advanceHour :: "time \<Rightarrow> time" where
  "advanceHour t =
     (let nxt = Truncate (t + hour_ns) hour_ns
      in Date (Year nxt) (Month nxt) (Day nxt) (HourOf nxt) 0 0 0)"

definition monthMatch :: "Expression \<Rightarrow> time \<Rightarrow> bool" where
  "monthMatch e t \<longleftrightarrow> month e AND shl1 (Month t) \<noteq> 0"

definition domMatch :: "Expression \<Rightarrow> time \<Rightarrow> bool" where
  "domMatch e t \<longleftrightarrow> dayOfMonth e AND shl1 (Day t) \<noteq> 0"

definition dowMatch :: "Expression \<Rightarrow> time \<Rightarrow> bool" where
  "dowMatch e t \<longleftrightarrow> dayOfWeek e AND shl1 (Weekday t) \<noteq> 0"

definition hourMatch :: "Expression \<Rightarrow> time \<Rightarrow> bool" where
  "hourMatch e t \<longleftrightarrow> hour e AND shl1 (HourOf t) \<noteq> 0"

definition minuteMatch :: "Expression \<Rightarrow> time \<Rightarrow> bool" where
  "minuteMatch e t \<longleftrightarrow> minute e AND shl1 (MinuteOf t) \<noteq> 0"

lemma advanceDay_eq: "advanceDay t = (dayOf t + 1) * day_ns"
proof -
  have "dayOf (t + day_ns) = dayOf t + 1" by (simp add: dayOf_def)
  then show ?thesis by (simp add: advanceDay_def Let_def AddDate_days Date_midnight)
qed

lemma advanceHour_eq: "advanceHour t = (t div hour_ns + 1) * hour_ns"
proof -
  define n where "n = Truncate (t + hour_ns) hour_ns"
  have n: "n = (t div hour_ns + 1) * hour_ns"
    by (simp add: n_def Truncate_def minus_mod_eq_mult_div)
  have "n mod day_ns mod hour_ns = 0"
    using mod_mod_cancel [of hour_ns day_ns n] by (simp add: n)
  then have "HourOf n * hour_ns = n mod day_ns"
    using div_mult_mod_eq [of "n mod day_ns" hour_ns] by (simp add: HourOf_def)
  moreover have "Date (Year n) (Month n) (Day n) (HourOf n) 0 0 0 = dayOf n * day_ns + HourOf n * hour_ns"
    using Date_midnight [of n] by (simp add: Date_def)
  ultimately have "advanceHour t = n"
    using day_floor(1) [of n] by (simp add: advanceHour_def Let_def n_def)
  with n show ?thesis by simp
qed

lemma advanceMonth_later: "t < advanceMonth t"
  by (simp add: advanceMonth_def next_month_later)

lemma advanceDay_later: "t < advanceDay t"
  using day_floor [of t] by (simp add: advanceDay_eq)

lemma advanceHour_later: "t < advanceHour t"
  using pos_mod_bound [of hour_ns t] mult_div_mod_eq [of hour_ns t] by (simp add: advanceHour_eq)

lemma advanceMinute_eq: "Truncate (t + minute_ns) minute_ns = (t div minute_ns + 1) * minute_ns"
  by (simp add: Truncate_def minus_mod_eq_mult_div)

lemma advanceMinute_later: "t < Truncate (t + minute_ns) minute_ns"
  using pos_mod_bound [of minute_ns t] mult_div_mod_eq [of minute_ns t] by (simp add: advanceMinute_eq)

function next_loop :: "Expression \<Rightarrow> time \<Rightarrow> time \<Rightarrow> time" where
  "next_loop e limit t =
     (if t < limit then
        if \<not> monthMatch e t then next_loop e limit (advanceMonth t)
        else if \<not> domMatch e t \<and> \<not> dowMatch e t then next_loop e limit (advanceDay t)
        else if \<not> hourMatch e t then next_loop e limit (advanceHour t)
        else if \<not> minuteMatch e t then next_loop e limit (Truncate (t + minute_ns) minute_ns)
        else t
      else 0)"
  by pat_completeness auto
termination
  by (relation "measure (\<lambda>(e, limit, t). nat (limit - t))")
    (use advanceMonth_later advanceDay_later advanceHour_later advanceMinute_later in auto)

declare next_loop.simps [simp del]

definition Next :: "Expression \<Rightarrow> time \<Rightarrow> time" where
  "Next e t =
     (let t' = Truncate t minute_ns + minute_ns in next_loop e (AddDate t' 4 0 0) t')"


text \<open>
  The reference search: the loop without skips, one minute at a time, with the whole test of an
  instant as one predicate.
\<close>

definition matches :: "Expression \<Rightarrow> time \<Rightarrow> bool" where
  "matches e t \<longleftrightarrow>
     monthMatch e t \<and> (domMatch e t \<or> dowMatch e t) \<and> hourMatch e t \<and> minuteMatch e t"

function scan :: "(time \<Rightarrow> bool) \<Rightarrow> time \<Rightarrow> time \<Rightarrow> time" where
  "scan P limit t = (if t < limit then if P t then t else scan P limit (t + minute_ns) else 0)"
  by pat_completeness auto
termination
  by (relation "measure (\<lambda>(P, limit, t). nat (limit - t))") auto

declare scan.simps [simp del]

text \<open>
  The values a list item stands for: an arithmetic progression within its range.
\<close>

definition covers :: "string \<Rightarrow> int \<Rightarrow> int \<Rightarrow> int \<Rightarrow> bool" where
  "covers part mn mx k \<longleftrightarrow>
     (case parseStep part of
        Inl _ \<Rightarrow> False
      | Inr (step, part') \<Rightarrow>
          (case parseRange part' mn mx of
             Inl _ \<Rightarrow> False
           | Inr (lo, hi) \<Rightarrow> lo \<le> k \<and> k \<le> hi \<and> (k - lo) mod step = 0))"

definition small_step :: "string \<Rightarrow> bool" where
  "small_step part \<longleftrightarrow>
     (case parseStep part of Inl _ \<Rightarrow> True | Inr (step, _) \<Rightarrow> step < 4611686018427387904)"


section \<open>Skipping loses no match\<close>

lemma scan_skip:
  assumes "t \<le> u" "(u - t) mod minute_ns = 0"
    and "\<And>v. t \<le> v \<Longrightarrow> v < u \<Longrightarrow> \<not> P v"
  shows "scan P limit t = scan P limit u"
proof -
  obtain q where q: "u - t = minute_ns * q" using assms(2) by (metis mod_0_imp_dvd dvdE)
  with assms(1) have "0 \<le> q" by simp
  then obtain k where "q = int k" by (rule nonneg_int_cases)
  with q have k: "u = t + int k * minute_ns" by simp
  have "scan P limit t = scan P limit (t + int j * minute_ns)" if "j \<le> k" for j
    using that
  proof (induction j)
    case (Suc j)
    let ?v = "t + int j * minute_ns"
    have "\<not> P ?v" using assms(3) [of ?v] Suc.prems k by simp
    then have "scan P limit ?v = scan P limit (?v + minute_ns)"
      by (subst scan.simps) (auto simp: scan.simps [of P limit "?v + minute_ns"])
    with Suc show ?case by (simp add: algebra_simps)
  qed simp
  from this [of k] k show ?thesis by simp
qed

lemma dayOf_interval:
  assumes "t \<le> u" "u < (dayOf t + 1) * day_ns"
  shows "dayOf u = dayOf t"
proof -
  have "t - t mod day_ns \<le> u" "u < t - t mod day_ns + day_ns"
    using assms day_floor [of t] by (simp_all add: distrib_right)
  from div_eqI [OF _ this] show ?thesis by (simp add: dayOf_def)
qed

lemma same_hour:
  assumes "t \<le> u" "u < (t div hour_ns + 1) * hour_ns"
  shows "dayOf u = dayOf t" "HourOf u = HourOf t"
proof -
  have h: "u div hour_ns = t div hour_ns"
    using div_eqI [of hour_ns t u] assms minus_mod_eq_mult_div [of t hour_ns]
      mult_div_mod_eq [of hour_ns t] pos_mod_sign [of hour_ns t] by simp
  have d: "dayOf v = v div hour_ns div 24" "HourOf v = v div hour_ns mod 24" for v
  proof -
    show "dayOf v = v div hour_ns div 24" by (simp add: dayOf_def zdiv_zmult2_eq [symmetric])
    show "HourOf v = v div hour_ns mod 24"
      using zmod_zmult2_eq [of 24 v hour_ns] by (simp add: HourOf_def)
  qed
  show "dayOf u = dayOf t" "HourOf u = HourOf t" by (simp_all only: d h)
qed

text \<open>A skip to \<open>u\<close> is sound when \<open>u\<close> is aligned and nothing before it matches.\<close>

lemma scan_skip_aligned:
  assumes "t < u" "t mod minute_ns = 0" "u mod minute_ns = 0"
    and "\<And>v. t \<le> v \<Longrightarrow> v < u \<Longrightarrow> \<not> P v"
  shows "scan P limit t = scan P limit u"
  using assms by (intro scan_skip) (auto simp: mod_diff_eq [symmetric, of u])

lemma aligned:
  "advanceMonth t mod minute_ns = 0" "advanceDay t mod minute_ns = 0"
  "advanceHour t mod minute_ns = 0" "Truncate (t + minute_ns) minute_ns mod minute_ns = 0"
  by (simp_all add: advanceMonth_def Date_def advanceDay_eq advanceHour_eq advanceMinute_eq
      mod_eq_0_iff_dvd)

lemma no_match_month: "\<not> monthMatch e t \<Longrightarrow> t \<le> v \<Longrightarrow> v < advanceMonth t \<Longrightarrow> \<not> matches e v"
  using same_month [of t v] by (simp add: matches_def monthMatch_def advanceMonth_def)

lemma no_match_day:
  "\<not> domMatch e t \<Longrightarrow> \<not> dowMatch e t \<Longrightarrow> t \<le> v \<Longrightarrow> v < advanceDay t \<Longrightarrow> \<not> matches e v"
  using same_day [OF dayOf_interval [of t v]] by (simp add: matches_def domMatch_def dowMatch_def advanceDay_eq)

lemma no_match_hour: "\<not> hourMatch e t \<Longrightarrow> t \<le> v \<Longrightarrow> v < advanceHour t \<Longrightarrow> \<not> matches e v"
  using same_hour(2) [of t v] by (simp add: matches_def hourMatch_def advanceHour_eq)

lemma scan_at: "t < limit \<Longrightarrow> P t \<Longrightarrow> scan P limit t = t"
  by (simp add: scan.simps)

lemma next_loop_scan:
  assumes "t mod minute_ns = 0"
  shows "next_loop e limit t = scan (matches e) limit t"
  using assms
proof (induction e limit t rule: next_loop.induct)
  case (1 e limit t)
  have skip: "scan (matches e) limit t = scan (matches e) limit u"
    if "t < u" "u mod minute_ns = 0" "\<And>v. t \<le> v \<Longrightarrow> v < u \<Longrightarrow> \<not> matches e v" for u
    using that "1.prems" by (intro scan_skip_aligned) auto
  consider (stop) "\<not> t < limit" | (mon) "t < limit" "\<not> monthMatch e t"
    | (day) "t < limit" "monthMatch e t" "\<not> domMatch e t \<and> \<not> dowMatch e t"
    | (hr) "t < limit" "monthMatch e t" "domMatch e t \<or> dowMatch e t" "\<not> hourMatch e t"
    | (min) "t < limit" "monthMatch e t" "domMatch e t \<or> dowMatch e t" "hourMatch e t" "\<not> minuteMatch e t"
    | (found) "t < limit" "matches e t"
    unfolding matches_def by blast
  then show ?case
  proof cases
    case stop
    then show ?thesis by (simp add: next_loop.simps [of e limit t] scan.simps [of _ limit t])
  next
    case mon
    have "scan (matches e) limit t = scan (matches e) limit (advanceMonth t)"
      by (rule skip [OF advanceMonth_later aligned(1)]) (rule no_match_month [OF mon(2)])
    with mon "1.IH"(1) aligned(1) show ?thesis by (simp add: next_loop.simps [of e limit t])
  next
    case day
    have "scan (matches e) limit t = scan (matches e) limit (advanceDay t)"
      by (rule skip [OF advanceDay_later aligned(2)]) (use day in \<open>auto dest: no_match_day\<close>)
    with day "1.IH"(2) aligned(2) show ?thesis by (simp add: next_loop.simps [of e limit t])
  next
    case hr
    have "scan (matches e) limit t = scan (matches e) limit (advanceHour t)"
      by (rule skip [OF advanceHour_later aligned(3)]) (rule no_match_hour [OF hr(4)])
    with hr "1.IH"(3) aligned(3) show ?thesis by (auto simp: next_loop.simps [of e limit t])
  next
    case min
    let ?u = "Truncate (t + minute_ns) minute_ns"
    have u: "?u = t + minute_ns" using "1.prems" by (simp add: Truncate_def mod_add_eq [symmetric])
    have "scan (matches e) limit t = scan (matches e) limit ?u"
      using min by (subst scan.simps)
        (simp add: matches_def u scan.simps [of "matches e" limit "t + minute_ns"])
    with min "1.IH"(4) aligned(4) [of t] show ?thesis
      by (auto simp: next_loop.simps [of e limit t])
  next
    case found
    then have "next_loop e limit t = t" by (auto simp: next_loop.simps [of e limit t] matches_def)
    with found show ?thesis by (simp add: scan_at)
  qed
qed


lemma scan_least:
  assumes "t mod minute_ns = 0"
  shows "(t \<le> scan P limit t \<and> scan P limit t < limit \<and> scan P limit t mod minute_ns = 0
            \<and> P (scan P limit t)
            \<and> (\<forall>u. t \<le> u \<and> u < scan P limit t \<and> u mod minute_ns = 0 \<longrightarrow> \<not> P u))
       \<or> (scan P limit t = 0 \<and> (\<forall>u. t \<le> u \<and> u < limit \<and> u mod minute_ns = 0 \<longrightarrow> \<not> P u))"
  using assms
proof (induction P limit t rule: scan.induct)
  case (1 P limit t)
  have gap: "u = t \<or> t + minute_ns \<le> u" if "t \<le> u" "u mod minute_ns = 0" for u
  proof -
    have "minute_ns dvd u - t" using that(2) "1.prems" by (simp add: dvd_diff mod_0_imp_dvd)
    then obtain q where "u - t = minute_ns * q" by auto
    with that(1) show ?thesis by (cases "q = 0") auto
  qed
  show ?case
  proof (cases "t < limit \<and> \<not> P t")
    case True
    have r: "scan P limit t = scan P limit (t + minute_ns)"
      using True by (simp add: scan.simps [of P limit t])
    have "(t + minute_ns) mod minute_ns = 0" using "1.prems" by simp
    note IH = "1.IH" [OF conjunct1 [OF True] conjunct2 [OF True] this]
    let ?r = "scan P limit (t + minute_ns)"
    have ext: "\<forall>u. t \<le> u \<and> u < b \<and> u mod minute_ns = 0 \<longrightarrow> \<not> P u"
      if "\<forall>u. t + minute_ns \<le> u \<and> u < b \<and> u mod minute_ns = 0 \<longrightarrow> \<not> P u" for b
      using that gap conjunct2 [OF True] by metis
    from IH show ?thesis
    proof (elim disjE conjE)
      assume h: "t + minute_ns \<le> ?r" "?r < limit" "?r mod minute_ns = 0" "P ?r"
        "\<forall>u. t + minute_ns \<le> u \<and> u < ?r \<and> u mod minute_ns = 0 \<longrightarrow> \<not> P u"
      from h(1) have "t \<le> ?r" by simp
      from this h(2-4) ext [OF h(5)] show ?thesis unfolding r by (intro disjI1 conjI)
    next
      assume h: "?r = 0" "\<forall>u. t + minute_ns \<le> u \<and> u < limit \<and> u mod minute_ns = 0 \<longrightarrow> \<not> P u"
      from h(1) ext [OF h(2)] show ?thesis unfolding r by (intro disjI2 conjI)
    qed
  next
    case False
    with "1.prems" show ?thesis by (auto simp: scan.simps [of P limit t])
  qed
qed

lemma Truncate_minute: "(Truncate t minute_ns + minute_ns) mod minute_ns = 0"
  by (simp add: Truncate_def minus_mod_eq_mult_div)

lemma Truncate_gap: "t < u \<Longrightarrow> u mod minute_ns = 0 \<Longrightarrow> Truncate t minute_ns + minute_ns \<le> u"
proof -
  assume "t < u" "u mod minute_ns = 0"
  then obtain q where q: "u = q * minute_ns" by (metis mod_0_imp_dvd dvdE mult.commute)
  with \<open>t < u\<close> have "t div minute_ns < q" by (simp add: div_less_iff_less_mult)
  then have "(t div minute_ns + 1) * minute_ns \<le> q * minute_ns" by simp
  then show ?thesis by (simp add: q Truncate_def minus_mod_eq_mult_div)
qed

lemma Truncate_later: "t < Truncate t minute_ns + minute_ns"
  using pos_mod_bound [of minute_ns t] by (simp add: Truncate_def)

lemma Next_scan:
  "Next e t =
     scan (matches e) (AddDate (Truncate t minute_ns + minute_ns) 4 0 0)
       (Truncate t minute_ns + minute_ns)"
  by (simp only: Next_def Let_def next_loop_scan [OF Truncate_minute])

lemma Next_least:
  assumes "Next e t \<noteq> 0"
  shows "t < Next e t" "Next e t mod minute_ns = 0" "matches e (Next e t)"
    "t < u \<Longrightarrow> u < Next e t \<Longrightarrow> u mod minute_ns = 0 \<Longrightarrow> \<not> matches e u"
  using scan_least [OF Truncate_minute, of t "matches e" "AddDate (Truncate t minute_ns + minute_ns) 4 0 0"]
    assms Truncate_later [of t] Truncate_gap [of t u] unfolding Next_scan by auto

lemma Next_zero:
  assumes "Next e t = 0" "0 \<le> t" "t < u" "u < AddDate (Truncate t minute_ns + minute_ns) 4 0 0"
    "u mod minute_ns = 0"
  shows "\<not> matches e u"
  using scan_least [OF Truncate_minute, of t "matches e" "AddDate (Truncate t minute_ns + minute_ns) 4 0 0"]
    assms Truncate_later [of t] Truncate_gap [of t u] unfolding Next_scan by auto

text \<open>The day test is a disjunction: with every weekday allowed the day of the month is irrelevant.\<close>

lemma Next_ignores_dom:
  assumes "\<And>d. 0 \<le> d \<Longrightarrow> d < 7 \<Longrightarrow> dayOfWeek e AND shl1 d \<noteq> 0"
  shows "Next (e\<lparr>dayOfMonth := d\<rparr>) t = Next e t"
proof -
  have "dowMatch e u" for u unfolding dowMatch_def by (rule assms) (rule Weekday_range)+
  then have "matches (e\<lparr>dayOfMonth := d\<rparr>) = matches e"
    by (auto simp: fun_eq_iff matches_def monthMatch_def dowMatch_def hourMatch_def minuteMatch_def)
  then show ?thesis by (simp add: Next_scan)
qed



section \<open>The field masks\<close>

lemma fill_loop_bits:
  assumes "0 \<le> i" "hi < 64" "0 < step" "hi + step < 9223372036854775808"
  shows "\<exists>m. fill_loop i hi step acc = Some m
    \<and> (\<forall>k. bit m k \<longleftrightarrow> bit acc k \<or> (i \<le> int k \<and> int k \<le> hi \<and> (int k - i) mod step = 0))"
  using assms(1)
proof (induction "nat (hi + 1 - i)" arbitrary: i acc rule: less_induct)
  case less
  show ?case
  proof (cases "i \<le> hi")
    case False
    then show ?thesis by (subst fill_loop.simps) auto
  next
    case True
    have w: "wrap64 (i + step) = i + step"
      using True less.prems assms by (intro wrap64_id) (simp add: in_int64_def)
    have "\<exists>m. fill_loop (i + step) hi step (acc OR shl1 i) = Some m
      \<and> (\<forall>k. bit m k \<longleftrightarrow> bit (acc OR shl1 i) k
               \<or> (i + step \<le> int k \<and> int k \<le> hi \<and> (int k - (i + step)) mod step = 0))"
      using True assms(3) less.prems by (intro less.hyps) auto
    then obtain m where m: "fill_loop (i + step) hi step (acc OR shl1 i) = Some m"
      and bits: "\<And>k. bit m k \<longleftrightarrow> bit (acc OR shl1 i) k
               \<or> (i + step \<le> int k \<and> int k \<le> hi \<and> (int k - (i + step)) mod step = 0)" by blast
    have shift: "(x - (i + step)) mod step = (x - i) mod step" for x
      by (metis diff_diff_eq minus_mod_self2)
    have grid: "x = i \<or> i + step \<le> x" if "i \<le> x" "(x - i) mod step = 0" for x
    proof -
      obtain q where q: "x - i = step * q" using \<open>(x - i) mod step = 0\<close> by (metis mod_0_imp_dvd dvdE)
      with that(1) assms(3) have "0 \<le> q" by (metis diff_ge_0_iff_ge zero_le_mult_iff not_less)
      then show ?thesis
      proof (cases "q = 0")
        case True with q show ?thesis by simp
      next
        case False
        with \<open>0 \<le> q\<close> have "1 \<le> q" by simp
        with assms(3) have "step * 1 \<le> step * q" by (intro mult_left_mono) auto
        with q show ?thesis by simp
      qed
    qed
    have "bit m k \<longleftrightarrow> bit acc k \<or> (i \<le> int k \<and> int k \<le> hi \<and> (int k - i) mod step = 0)" for k
    proof -
      have "bit (shl1 i) k \<longleftrightarrow> int k = i" using True less.prems assms(2) by (auto simp: bit_shl1)
      then show ?thesis
        unfolding bits shift bit_or_iff using grid [of "int k"] True assms(3) by auto
    qed
    with m True w show ?thesis by (subst fill_loop.simps) auto
  qed
qed

text \<open>
  With a step so large that \<open>i += step\<close> wraps, every second addition moves the index down by
  \<open>2 * d\<close>, where \<open>d\<close> is the distance of the step from \<open>2 ^ 63\<close>: the loop still
  ends, but it also sets bits below the start of the range.
\<close>

lemma fill_loop_wrapping:
  assumes "- 64 \<le> i" "i \<le> hi" "hi < 64" "0 < d" "d \<le> 64"
  shows "\<exists>m. fill_loop i hi (9223372036854775808 - d) acc = Some m
    \<and> (\<forall>k. bit m k \<longrightarrow> bit acc k \<or> int k \<le> hi)"
  using assms(1,2)
proof (induction "nat (i + 200)" arbitrary: i acc rule: less_induct)
  case less
  let ?s = "9223372036854775808 - d"
  have bit1: "bit (acc OR shl1 i) k \<longrightarrow> bit acc k \<or> int k \<le> hi" for k
    using less.prems by (auto simp: bit_or_iff bit_shl1)
  show ?case
  proof (cases "i < d")
    case True
    have w: "wrap64 (i + ?s) = i + ?s"
      using True less.prems assms by (intro wrap64_id) (simp add: in_int64_def)
    have "\<not> i + ?s \<le> hi" using assms less.prems by simp
    then have "fill_loop i hi ?s acc = Some (acc OR shl1 i)"
      using less.prems w by (subst fill_loop.simps) (simp add: fill_loop.simps [of "i + ?s"])
    with bit1 show ?thesis by blast
  next
    case False
    let ?j = "i - d - 9223372036854775808"
    have "i + ?s + 9223372036854775808 = (i - d) + 18446744073709551616" by simp
    then have "(i + ?s + 9223372036854775808) mod 18446744073709551616 = i - d"
      using False less.prems assms by (simp add: mod_pos_pos_trivial)
    then have w1: "wrap64 (i + ?s) = ?j" by (simp add: wrap64_def)
    have w2: "wrap64 (?j + ?s) = i - 2 * d"
    proof -
      have "?j + ?s = i - 2 * d" by simp
      moreover have "in_int64 (i - 2 * d)" using less.prems assms by (simp add: in_int64_def)
      ultimately show ?thesis by (simp only: wrap64_id)
    qed
    have j: "?j \<le> hi" "shl1 ?j = 0" using less.prems assms by (simp_all add: shl1_def)
    have "fill_loop i hi ?s acc = fill_loop ?j hi ?s (acc OR shl1 i)"
      using less.prems w1 by (subst fill_loop.simps) simp
    also have "\<dots> = fill_loop (i - 2 * d) hi ?s (acc OR shl1 i)"
      using j w2 by (subst fill_loop.simps) simp
    finally have step: "fill_loop i hi ?s acc = fill_loop (i - 2 * d) hi ?s (acc OR shl1 i)" .
    have "\<exists>m. fill_loop (i - 2 * d) hi ?s (acc OR shl1 i) = Some m
        \<and> (\<forall>k. bit m k \<longrightarrow> bit (acc OR shl1 i) k \<or> int k \<le> hi)"
      using False less.prems assms by (intro less.hyps) auto
    with step bit1 show ?thesis by metis
  qed
qed

lemma fillRangeStep_bits:
  assumes "0 \<le> lo" "hi < 64" "0 < step" "hi + step < 9223372036854775808"
  shows "\<exists>m. fillRangeStep lo hi step = Some m
    \<and> (\<forall>k. bit m k \<longleftrightarrow> lo \<le> int k \<and> int k \<le> hi \<and> (int k - lo) mod step = 0)"
  using fill_loop_bits [OF assms, of 0] by (simp add: fillRangeStep_def)

lemma fillRangeStep_returns:
  assumes "0 \<le> lo" "lo \<le> hi" "hi < 64" "0 < step" "in_int64 step"
  shows "\<exists>m. fillRangeStep lo hi step = Some m \<and> (\<forall>k. bit m k \<longrightarrow> int k \<le> hi)"
proof (cases "hi + step < 9223372036854775808")
  case True
  from fillRangeStep_bits [OF assms(1,3,4) True] show ?thesis by blast
next
  case False
  define d where "d = 9223372036854775808 - step"
  have "0 < d" "d \<le> 64" "step = 9223372036854775808 - d"
    using False assms by (simp_all add: d_def in_int64_def)
  with fill_loop_wrapping [of lo hi d 0] assms show ?thesis by (simp add: fillRangeStep_def)
qed


lemma parseStep_pos: "parseStep part = Inr (step, part') \<Longrightarrow> 0 < step \<and> in_int64 step"
  by (auto simp: parseStep_def Let_def in_int64_def dest: Atoi_in_int64 split: if_splits option.splits)

lemma parsePart_cases:
  assumes "0 \<le> mn" "mx < 64"
  obtains (error) e where "parsePart part mn mx = Inl e" "e \<noteq> Diverges"
  | (mask) step part' lo hi m where "parseStep part = Inr (step, part')" "0 < step" "in_int64 step"
      "parseRange part' mn mx = Inr (lo, hi)" "mn \<le> lo" "lo \<le> hi" "hi \<le> mx"
      "fillRangeStep lo hi step = Some m" "parsePart part mn mx = Inr m" "\<forall>k. bit m k \<longrightarrow> int k \<le> hi"
proof (cases "parseStep part")
  case (Inl e)
  then show ?thesis
    by (intro error) (auto simp: parsePart_def parseStep_def Let_def split: if_splits option.splits)
next
  case (Inr sp)
  then obtain step part' where s: "parseStep part = Inr (step, part')" by (cases sp) auto
  show ?thesis
  proof (cases "parseRange part' mn mx")
    case (Inl e)
    with s show ?thesis
      by (intro error) (auto simp: parsePart_def parseRange_def Let_def split: if_splits option.splits)
  next
    case (Inr lh)
    then obtain lo hi where r: "parseRange part' mn mx = Inr (lo, hi)" by (cases lh) auto
    show ?thesis
    proof (cases "lo < mn \<or> mx < hi \<or> hi < lo")
      case True
      with s r show ?thesis by (intro error) (auto simp: parsePart_def)
    next
      case False
      with parseStep_pos [OF s] assms fillRangeStep_returns [of lo hi step]
      obtain m where "fillRangeStep lo hi step = Some m" "\<forall>k. bit m k \<longrightarrow> int k \<le> hi" by auto
      with s r False parseStep_pos [OF s] show ?thesis by (intro mask) (auto simp: parsePart_def)
    qed
  qed
qed

lemma parseParts_bounds:
  assumes "0 \<le> mn" "mx < 64"
  shows "parseParts parts mn mx acc \<noteq> Inl Diverges"
    and "parseParts parts mn mx acc = Inr m \<Longrightarrow> bit m k \<Longrightarrow> bit acc k \<or> int k \<le> mx"
proof (induction parts arbitrary: acc)
  case (Cons part parts)
  { case 1 from Cons.IH(1) show ?case
      by (cases rule: parsePart_cases [OF assms, of part]) auto }
  { case 2 then show ?case
      by (cases rule: parsePart_cases [OF assms, of part])
        (fastforce dest: Cons.IH(2) simp: bit_or_iff)+ }
qed auto

lemma fillRangeStep_star:
  assumes "0 \<le> mn" "mn \<le> mx" "mx < 64"
  obtains m where "fillRangeStep mn mx 1 = Some m" "\<And>k. bit m k \<longleftrightarrow> mn \<le> int k \<and> int k \<le> mx"
  using fillRangeStep_bits [of mn mx 1] assms by auto

lemma parseField_bounds:
  assumes "0 \<le> mn" "mn \<le> mx" "mx < 64"
  shows "parseField field mn mx \<noteq> Inl Diverges"
    and "parseField field mn mx = Inr m \<Longrightarrow> bit m k \<Longrightarrow> int k \<le> mx"
proof -
  obtain m0 where "fillRangeStep mn mx 1 = Some m0" "\<And>k. bit m0 k \<longleftrightarrow> mn \<le> int k \<and> int k \<le> mx"
    using fillRangeStep_star [OF assms] by blast
  with parseParts_bounds [OF assms(1,3), of "Split field (CHR '','')" 0]
  show "parseField field mn mx \<noteq> Inl Diverges"
    and "parseField field mn mx = Inr m \<Longrightarrow> bit m k \<Longrightarrow> int k \<le> mx"
    by (auto simp: parseField_def split: if_splits)
qed

lemma parsePart_bits:
  assumes "0 \<le> mn" "mx < 64" "parsePart part mn mx = Inr m" "small_step part"
  shows "bit m k \<longleftrightarrow> covers part mn mx (int k)"
proof (cases rule: parsePart_cases [OF assms(1,2), of part, case_names error mask])
  case (mask step part' lo hi m')
  then have "hi + step < 9223372036854775808" using assms(2,4) by (simp add: small_step_def)
  with fillRangeStep_bits [of lo hi step] mask assms show ?thesis by (auto simp: covers_def)
qed (use assms in auto)

lemma parseParts_bits:
  assumes "0 \<le> mn" "mx < 64" "parseParts parts mn mx acc = Inr m" "\<forall>part \<in> set parts. small_step part"
  shows "bit m k \<longleftrightarrow> bit acc k \<or> (\<exists>part \<in> set parts. covers part mn mx (int k))"
  using assms(3,4)
proof (induction parts arbitrary: acc)
  case (Cons part parts)
  then obtain m1 where m1: "parsePart part mn mx = Inr m1" "parseParts parts mn mx (acc OR m1) = Inr m"
    by (auto split: sum.splits)
  with Cons parsePart_bits [OF assms(1,2) m1(1)] show ?case by (auto simp: bit_or_iff)
qed simp

lemma covers_star: "covers ''*'' mn mx k \<longleftrightarrow> mn \<le> k \<and> k \<le> mx"
  by (simp add: covers_def parseStep_def parseRange_def)

lemma parseField_bits:
  assumes "0 \<le> mn" "mn \<le> mx" "mx < 64" "parseField field mn mx = Inr m"
    and "\<forall>part \<in> set (Split field (CHR '','')). small_step part"
  shows "bit m k \<longleftrightarrow> (\<exists>part \<in> set (Split field (CHR '','')). covers part mn mx (int k))"
proof (cases "field = ''*''")
  case True
  obtain m0 where "fillRangeStep mn mx 1 = Some m0" "\<And>k. bit m0 k \<longleftrightarrow> mn \<le> int k \<and> int k \<le> mx"
    using fillRangeStep_star [OF assms(1-3)] by blast
  with True assms(4) show ?thesis by (simp add: parseField_def covers_star)
next
  case False
  with assms parseParts_bits [OF assms(1,3), of "Split field (CHR '','')" 0 m] show ?thesis
    by (simp add: parseField_def)
qed


lemma Next_ignores_dow:
  assumes "\<And>d. 1 \<le> d \<Longrightarrow> d \<le> 31 \<Longrightarrow> dayOfMonth e AND shl1 d \<noteq> 0"
  shows "Next (e\<lparr>dayOfWeek := w\<rparr>) t = Next e t"
proof -
  have "domMatch e u" for u unfolding domMatch_def by (rule assms) (rule Day_range)+
  then have "matches (e\<lparr>dayOfWeek := w\<rparr>) = matches e"
    by (auto simp: fun_eq_iff matches_def monthMatch_def domMatch_def hourMatch_def minuteMatch_def)
  then show ?thesis by (simp add: Next_scan)
qed

lemma labelled_Inr [simp]: "labelled n r = Inr m \<longleftrightarrow> r = Inr m"
  by (auto simp: labelled_def split: sum.splits)

lemma Parse_Inr:
  assumes "Parse expr = Inr e"
  shows "length (Fields expr) = 5"
    "parseField (Fields expr ! 0) 0 59 = Inr (minute e)" "parseField (Fields expr ! 1) 0 23 = Inr (hour e)"
    "parseField (Fields expr ! 2) 1 31 = Inr (dayOfMonth e)" "parseField (Fields expr ! 3) 1 12 = Inr (month e)"
    "parseField (Fields expr ! 4) 0 6 = Inr (dayOfWeek e)" "second e = 0"
  using assms by (auto simp: Parse_def Let_def split: if_splits sum.splits)

lemma parseField_star_test:
  assumes "0 \<le> mn" "mn \<le> mx" "mx < 64" "parseField ''*'' mn mx = Inr m" "mn \<le> d" "d \<le> mx"
  shows "m AND shl1 d \<noteq> 0"
proof -
  obtain m0 where m0: "fillRangeStep mn mx 1 = Some m0" "\<And>k. bit m0 k \<longleftrightarrow> mn \<le> int k \<and> int k \<le> mx"
    using fillRangeStep_star [OF assms(1-3)] by blast
  with assms have "bit (m AND shl1 d) (nat d)" by (simp add: parseField_def bit_and_iff bit_shl1)
  then show ?thesis by (auto simp del: bit_and_iff)
qed

lemma TrailingZeros64_spec:
  assumes "w \<noteq> 0"
  shows "0 \<le> TrailingZeros64 w" "bit w (nat (TrailingZeros64 w))" "int k < TrailingZeros64 w \<Longrightarrow> \<not> bit w k"
proof -
  let ?n = "length (takeWhile (\<lambda>k. \<not> bit w k) [0..<64])"
  obtain j where "j < 64" "bit w j" using assms by (auto simp: word64_eq_0_iff)
  then have lt: "?n < length [0..<64]"
    by (metis (no_types, lifting) atLeastLessThan_iff atLeastLessThan_upt le0 length_takeWhile_le
        linorder_not_less order_antisym set_takeWhileD takeWhile_eq_take take_all)
  show "0 \<le> TrailingZeros64 w" by (simp add: TrailingZeros64_def)
  from nth_length_takeWhile [OF lt] lt show "bit w (nat (TrailingZeros64 w))"
    by (simp add: TrailingZeros64_def)
  assume "int k < TrailingZeros64 w"
  then have k: "k < ?n" by (simp add: TrailingZeros64_def)
  then have "takeWhile (\<lambda>k. \<not> bit w k) [0..<64] ! k = k"
    using lt by (simp add: takeWhile_nth)
  with k nth_mem [OF k] show "\<not> bit w k" by (metis set_takeWhileD)
qed

lemma nextBit_none: "0 \<le> pos \<Longrightarrow> nextBit msk pos = - 1 \<Longrightarrow> pos \<le> int k \<Longrightarrow> \<not> bit msk k"
proof -
  assume a: "0 \<le> pos" "nextBit msk pos = - 1" "pos \<le> int k"
  show ?thesis
  proof (cases "pos < 64")
    case True
    with a TrailingZeros64_spec(1) [of "drop_bit (nat pos) msk"] have "drop_bit (nat pos) msk = 0"
      by (auto simp: nextBit_def Let_def split: if_splits)
    then have "\<not> bit (drop_bit (nat pos) msk) (k - nat pos)" by simp
    with a show ?thesis by (simp add: bit_drop_bit_eq)
  next
    case False
    with a show ?thesis by (auto dest: bit_imp_le_length)
  qed
qed

lemma nextBit_some:
  assumes "0 \<le> pos" "nextBit msk pos \<noteq> - 1"
  shows "pos \<le> nextBit msk pos" "bit msk (nat (nextBit msk pos))"
    "pos \<le> int k \<Longrightarrow> int k < nextBit msk pos \<Longrightarrow> \<not> bit msk k"
proof -
  let ?w = "drop_bit (nat pos) msk"
  have w: "pos < 64" "?w \<noteq> 0" "nextBit msk pos = pos + TrailingZeros64 ?w"
    using assms by (auto simp: nextBit_def Let_def split: if_splits)
  note tz = TrailingZeros64_spec [OF w(2)]
  show "pos \<le> nextBit msk pos" using w(3) tz(1) by simp
  show "bit msk (nat (nextBit msk pos))"
    using tz(1,2) assms(1) by (simp add: w(3) bit_drop_bit_eq nat_add_distrib)
  assume "pos \<le> int k" "int k < nextBit msk pos"
  then show "\<not> bit msk k" using tz(3) [of "k - nat pos"] assms(1) by (simp add: w(3) bit_drop_bit_eq)
qed


section \<open>Properties\<close>






text \<open>
  C21: Parsing always terminates, and an accepted expression has only bits of its fields' ranges:
  at most 59, 23, 31, 12 and 6, whatever numbers the text contains.
\<close>

theorem Parse_bounded:
  "case Parse expr of
     Inl (FieldError f e) \<Rightarrow> e \<noteq> Diverges
   | Inl (ExpectedFields n) \<Rightarrow> n \<noteq> 5
   | Inr e \<Rightarrow> {k. bit (minute e) k} \<subseteq> {..59} \<and> {k. bit (hour e) k} \<subseteq> {..23}
       \<and> {k. bit (dayOfMonth e) k} \<subseteq> {..31} \<and> {k. bit (month e) k} \<subseteq> {..12}
       \<and> {k. bit (dayOfWeek e) k} \<subseteq> {..6}"
proof (cases "Parse expr")
  case (Inl err)
  then show ?thesis
    using parseField_bounds(1) [of 0 59] parseField_bounds(1) [of 0 23] parseField_bounds(1) [of 1 31]
      parseField_bounds(1) [of 1 12] parseField_bounds(1) [of 0 6]
    by (auto simp: Parse_def Let_def labelled_def split: if_splits sum.splits)
next
  case (Inr e)
  note p = Parse_Inr [OF Inr]
  from parseField_bounds(2) [OF _ _ _ p(2)] parseField_bounds(2) [OF _ _ _ p(3)]
    parseField_bounds(2) [OF _ _ _ p(4)] parseField_bounds(2) [OF _ _ _ p(5)]
    parseField_bounds(2) [OF _ _ _ p(6)] Inr
  show ?thesis by fastforce
qed

text \<open>
  C37: A day of the month has no effect in an expression whose day of the week is \<open>*\<close>, and
  conversely: the day test accepts either field, and \<open>*\<close> accepts every day.  So
  \<open>0 0 1 * *\<close> fires at every midnight and \<open>0 9 * * 1\<close> at nine every day.
\<close>

theorem star_day_field_overrides:
  assumes "Parse expr = Inr e"
  shows "(Fields expr ! 4 = ''*'' \<longrightarrow> Next (e\<lparr>dayOfMonth := d\<rparr>) t = Next e t)
       \<and> (Fields expr ! 2 = ''*'' \<longrightarrow> Next (e\<lparr>dayOfWeek := w\<rparr>) t = Next e t)"
proof (intro conjI impI)
  assume "Fields expr ! 4 = ''*''"
  with Parse_Inr(6) [OF assms] have "parseField ''*'' 0 6 = Inr (dayOfWeek e)" by simp
  then show "Next (e\<lparr>dayOfMonth := d\<rparr>) t = Next e t"
    by (intro Next_ignores_dom parseField_star_test [of 0 6]) auto
next
  assume "Fields expr ! 2 = ''*''"
  with Parse_Inr(4) [OF assms] have "parseField ''*'' 1 31 = Inr (dayOfMonth e)" by simp
  then show "Next (e\<lparr>dayOfWeek := w\<rparr>) t = Next e t"
    by (intro Next_ignores_dow parseField_star_test [of 1 31]) auto
qed

theorem star_day_field_overrides_witness:
  "\<exists>e. Parse ''0 0 1 * *'' = Inr e \<and> Next e 63839750340000000000 = 63839750400000000000
     \<and> Day 63839750400000000000 = 2 \<and> Next (e\<lparr>dayOfMonth := 0\<rparr>) 63839750340000000000 = 63839750400000000000"
proof -
  define e where "e = \<lparr>second = 0, minute = 1 :: 64 word, hour = 1, dayOfMonth = 2, month = 8190, dayOfWeek = 127\<rparr>"
  have p: "Parse ''0 0 1 * *'' = Inr e" unfolding e_def by code_simp
  have n: "Next e 63839750340000000000 = 63839750400000000000" unfolding e_def by code_simp
  have "Fields ''0 0 1 * *'' ! 4 = ''*''" by code_simp
  with star_day_field_overrides [OF p, of 0 63839750340000000000 0] n
  have "Next (e\<lparr>dayOfMonth := 0\<rparr>) 63839750340000000000 = 63839750400000000000" by simp
  moreover have "Day 63839750400000000000 = 2" by code_simp
  ultimately show ?thesis using p n by blast
qed


text \<open>
  \<open>nextBit\<close> returns the lowest set position of the mask that is at least \<open>pos\<close>, and
  -1 exactly when there is none.
\<close>

theorem nextBit_spec:
  assumes "0 \<le> pos"
  shows "if nextBit msk pos = - 1 then \<not> (\<exists>k. pos \<le> int k \<and> bit msk k)
         else pos \<le> nextBit msk pos \<and> bit msk (nat (nextBit msk pos))
              \<and> \<not> (\<exists>k. pos \<le> int k \<and> int k < nextBit msk pos \<and> bit msk k)"
  using nextBit_none [OF assms, of msk] nextBit_some [OF assms, of msk] by auto

theorem nextBit_spec_witness: "nextBit 40 4 = 5 \<and> bit (40 :: 64 word) 5"
proof -
  have "nextBit 40 4 = 5" by code_simp
  with nextBit_spec [of 4 40] show ?thesis by simp
qed

end
