(* ===== verification/Scheduler.thy ===== *)
theory Scheduler
  imports Executor Cron
begin

text \<open>
  The scheduler, \<open>src/internal/scheduler/scheduler.go\<close> and \<open>recovery.go\<close>.

  The operations take what they call (\<open>Submit\<close>, the executor, the clock, the source of
  request ids) as a record of functions on a world.  A goroutine the source starts with
  \<open>go sc.fireJob(j, now)\<close> appears as the job in the result (\<open>tick\<close>, \<open>FireNow\<close>,
  \<open>ReconcileMissedJobs\<close>).  The locale \<open>scheduler_backend\<close> is the contract between the scheduler and
  what it calls; it is interpreted on \<open>node\<close>, whose \<open>Submit\<close> is that of the store on top
  of the node's Raft peer and whose executor is the dispatcher.
\<close>

section \<open>Operations\<close>

text \<open>
  What the scheduler calls: \<open>st.Submit\<close>, the executor, the random source and the clock, each as
  a function on a world of type \<open>'w\<close>.
\<close>

record 'w sched_env =
  submit :: "Cmd \<Rightarrow> 'w \<Rightarrow> submit_error option \<times> 'w"
  execRun :: "Job \<Rightarrow> 'w \<Rightarrow> RunRecord \<times> 'w"
  randRead :: "nat \<Rightarrow> 'w \<Rightarrow> 8 word list \<times> 'w"
  timeNow :: "'w \<Rightarrow> int \<times> 'w"

definition newReqID :: "'w sched_env \<Rightarrow> 'w \<Rightarrow> string \<times> 'w" where
  "newReqID env w = (let (b, w) = randRead env 8 w in (EncodeToString b, w))"

definition nextRun :: "string \<Rightarrow> int \<Rightarrow> int option" where
  "nextRun expr now =
     (case Parse expr of
        Inl _ \<Rightarrow> None
      | Inr e \<Rightarrow> let t = Next e now in if t = 0 then None else Some t)"

definition upsertOf :: "string \<Rightarrow> Job \<Rightarrow> Cmd" where
  "upsertOf r j = \<lparr>cmdType = CmdUpsert, ReqID = r, cmdJob = j, cmdID = [], cmdRun = zeroRun\<rparr>"

definition recordOf :: "string \<Rightarrow> RunRecord \<Rightarrow> Cmd" where
  "recordOf r run = \<lparr>cmdType = CmdRecord, ReqID = r, cmdJob = zeroJob, cmdID = [], cmdRun = run\<rparr>"

definition finishRun :: "'w sched_env \<Rightarrow> Job \<Rightarrow> int \<Rightarrow> RunRecord \<Rightarrow> 'w \<Rightarrow> RunRecord \<times> 'w" where
  "finishRun env j now run w =
     (let run = run\<lparr>runJobID := jobID j\<rparr>;
          run = (if StartedAt run = 0 then run\<lparr>StartedAt := now\<rparr> else run)
      in if FinishedAt run = 0 then (let (t, w) = timeNow env w in (run\<lparr>FinishedAt := t\<rparr>, w)) else (run, w))"

definition fireJob :: "'w sched_env \<Rightarrow> Job \<Rightarrow> int \<Rightarrow> 'w \<Rightarrow> 'w" where
  "fireJob env j now w =
     (case nextRun (CronExpr j) now of
        None \<Rightarrow> w
      | Some nxt \<Rightarrow>
          let j = j\<lparr>NextRun := nxt\<rparr>;
              (r, w) = newReqID env w;
              (err, w) = submit env (upsertOf r j) w
          in if err \<noteq> None then w
             else
               let (run, w) = execRun env j w;
                   (run, w) = finishRun env j now run w;
                   (r, w) = newReqID env w;
                   (err, w) = submit env (recordOf r run) w
               in w)"

text \<open>The jobs for which a tick starts a goroutine that runs \<open>fireJob\<close>.\<close>

definition tick :: "int \<Rightarrow> Job list \<Rightarrow> Job list" where
  "tick now js = filter (\<lambda>j. \<not> (NextRun j = 0 \<or> now < NextRun j)) js"

text \<open>
  One turn of \<open>tickLoop\<close>, by what its \<open>select\<close> receives: \<open>None\<close> when the loop returns,
  otherwise the jobs it fires.  \<open>st\<close> is what \<open>GetState\<close> says at that moment.
\<close>

datatype select_case = Done | Tick int

definition tickLoop_step :: "select_case \<Rightarrow> int \<times> bool \<Rightarrow> Job list \<Rightarrow> Job list option" where
  "tickLoop_step c st js =
     (case c of
        Done \<Rightarrow> None
      | Tick now \<Rightarrow> Some (if \<not> snd st then [] else tick now js))"

text \<open>
  The channel \<open>done\<close> only ever gets closed, so it is a flag; what \<open>select\<close> may receive depends on
  it.  Closing a closed channel panics.
\<close>

definition tickLoop_ready :: "bool \<Rightarrow> select_case \<Rightarrow> bool" where
  "tickLoop_ready closed c = (case c of Done \<Rightarrow> closed | Tick now \<Rightarrow> True)"

definition Scheduler_Kill :: "bool \<Rightarrow> bool option" where
  "Scheduler_Kill closed = (if closed then None else Some True)"

datatype fire_error = JobNotFound string

definition FireNow :: "string \<Rightarrow> Store \<Rightarrow> fire_error + Job" where
  "FireNow i s = (let (j, ok) = GetJob i s in if \<not> ok then Inl (JobNotFound i) else Inr j)"

definition advanceNextRun :: "'w sched_env \<Rightarrow> Job \<Rightarrow> int \<Rightarrow> 'w \<Rightarrow> 'w" where
  "advanceNextRun env j now w =
     (case nextRun (CronExpr j) now of
        None \<Rightarrow> w
      | Some nxt \<Rightarrow>
          let (r, w) = newReqID env w; (err, w) = submit env (upsertOf r (j\<lparr>NextRun := nxt\<rparr>)) w in w)"

text \<open>The jobs for which reconciliation starts \<open>fireJob\<close>, and the world after the others.\<close>

fun ReconcileMissedJobs :: "'w sched_env \<Rightarrow> int \<Rightarrow> Job list \<Rightarrow> 'w \<Rightarrow> Job list \<times> 'w" where
  "ReconcileMissedJobs env now [] w = ([], w)"
| "ReconcileMissedJobs env now (j # js) w =
     (if NextRun j = 0 \<or> \<not> NextRun j < now then ReconcileMissedJobs env now js w
      else if CatchupPolicy j = ''skip'' then ReconcileMissedJobs env now js (advanceNextRun env j now w)
      else if CatchupPolicy j = ''run_once'' then
        (let (fired, w') = ReconcileMissedJobs env now js w in (j # fired, w'))
      else ReconcileMissedJobs env now js w)"


section \<open>The store as the scheduler sees it\<close>

text \<open>
  What the scheduler relies on: a submit without an error has executed the command, running a job
  leaves the store alone, and so do the clock and the source of request ids.  Nothing is said of a
  submit that fails: its command may or may not be executed.
\<close>

locale scheduler_backend =
  fixes env :: "'w sched_env" and ok :: "'w \<Rightarrow> bool" and view :: "'w \<Rightarrow> 'v" and exec :: "Cmd \<Rightarrow> 'v \<Rightarrow> 'v"
    and ran :: "'w \<Rightarrow> Job list"
  assumes submit_ok: "ok w \<Longrightarrow> submit env c w = (err, w') \<Longrightarrow> ok w' \<and> ran w' = ran w"
    and submit_nil: "ok w \<Longrightarrow> submit env c w = (None, w') \<Longrightarrow> view w' = exec c (view w)"
    and run_ok: "ok w \<Longrightarrow> execRun env j w = (rec, w') \<Longrightarrow> ok w' \<and> view w' = view w \<and> ran w' = ran w @ [j]"
    and rand_ok: "ok w \<Longrightarrow> randRead env n w = (b, w') \<Longrightarrow> ok w' \<and> view w' = view w \<and> ran w' = ran w"
    and now_ok: "ok w \<Longrightarrow> timeNow env w = (t, w') \<Longrightarrow> ok w' \<and> view w' = view w \<and> ran w' = ran w"
begin

lemma reqid_ok: "ok w \<Longrightarrow> newReqID env w = (r, w') \<Longrightarrow> ok w' \<and> view w' = view w \<and> ran w' = ran w"
  using rand_ok [of w 8] by (cases "randRead env 8 w") (auto simp: newReqID_def)

lemma finishRun_ok:
  assumes "ok w" "finishRun env j now run w = (run', w')"
  shows "ok w' \<and> view w' = view w \<and> ran w' = ran w \<and> runJobID run' = jobID j \<and> Status run' = Status run
    \<and> StartedAt run' = (if StartedAt run = 0 then now else StartedAt run)"
  using assms now_ok [of w]
  by (cases "timeNow env w") (auto simp: finishRun_def Let_def split: if_splits)

lemma fireJob_none: "nextRun (CronExpr j) now = None \<Longrightarrow> fireJob env j now w = w"
  by (simp add: fireJob_def)

text \<open>The outcomes of firing a job: refused, or run once after its next time was stored.\<close>

lemma fireJob_cases:
  assumes "ok w" "nextRun (CronExpr j) now = Some nxt"
  obtains (refused) r w1 e where "newReqID env w = (r, w1)"
      "submit env (upsertOf r (j\<lparr>NextRun := nxt\<rparr>)) w1 = (Some e, fireJob env j now w)"
      "ok (fireJob env j now w)" "ran (fireJob env j now w) = ran w"
  | (fired) r w1 w2 r2 w5 run err where "newReqID env w = (r, w1)"
      "submit env (upsertOf r (j\<lparr>NextRun := nxt\<rparr>)) w1 = (None, w2)"
      "view w2 = exec (upsertOf r (j\<lparr>NextRun := nxt\<rparr>)) (view w)"
      "ok w5" "view w5 = view w2" "runJobID run = jobID j"
      "submit env (recordOf r2 run) w5 = (err, fireJob env j now w)"
      "ok (fireJob env j now w)" "ran (fireJob env j now w) = ran w @ [j\<lparr>NextRun := nxt\<rparr>]"
proof -
  let ?j = "j\<lparr>NextRun := nxt\<rparr>"
  obtain r w1 where 1: "newReqID env w = (r, w1)" by fastforce
  obtain e w2 where 2: "submit env (upsertOf r ?j) w1 = (e, w2)" by fastforce
  note o1 = reqid_ok [OF assms(1) 1]
  note o2 = submit_ok [OF conjunct1 [OF o1] 2]
  show ?thesis
  proof (cases e)
    case (Some err)
    then have "fireJob env j now w = w2" using assms(2) 1 2 by (simp add: fireJob_def)
    with 1 2 Some o1 o2 refused show ?thesis by auto
  next
    case None
    obtain run0 w3 where 3: "execRun env ?j w2 = (run0, w3)" by fastforce
    obtain run w4 where 4: "finishRun env ?j now run0 w3 = (run, w4)" by fastforce
    obtain r2 w5 where 5: "newReqID env w4 = (r2, w5)" by fastforce
    obtain err w6 where 6: "submit env (recordOf r2 run) w5 = (err, w6)" by fastforce
    note o3 = run_ok [OF conjunct1 [OF o2] 3]
    note o4 = finishRun_ok [OF conjunct1 [OF o3] 4]
    note o5 = reqid_ok [OF conjunct1 [OF o4] 5]
    note o6 = submit_ok [OF conjunct1 [OF o5] 6]
    have v2: "view w2 = exec (upsertOf r ?j) (view w)"
      using submit_nil [OF conjunct1 [OF o1] 2 [unfolded None]] o1 by simp
    have "fireJob env j now w = w6" using assms(2) 1 2 3 4 5 6 None by (simp add: fireJob_def)
    with 1 2 None v2 o1 o2 o3 o4 o5 o6 6 show ?thesis by (intro fired [of r w1 w2 w5 run r2 err]) auto
  qed
qed

lemma advanceNextRun_ok:
  assumes "ok w" shows "ok (advanceNextRun env j now w) \<and> ran (advanceNextRun env j now w) = ran w"
proof (cases "nextRun (CronExpr j) now")
  case (Some nxt)
  obtain r w1 where 1: "newReqID env w = (r, w1)" by fastforce
  obtain e w2 where 2: "submit env (upsertOf r (j\<lparr>NextRun := nxt\<rparr>)) w1 = (e, w2)" by fastforce
  from reqid_ok [OF assms 1] submit_ok [OF _ 2] show ?thesis using Some 1 2 by (simp add: advanceNextRun_def)
qed (use assms in \<open>simp add: advanceNextRun_def\<close>)

text \<open>Reconciliation itself runs nothing; it picks the missed jobs to run once.\<close>

lemma Reconcile_ok:
  "ok w \<Longrightarrow> ok (snd (ReconcileMissedJobs env now js w)) \<and> ran (snd (ReconcileMissedJobs env now js w)) = ran w
     \<and> fst (ReconcileMissedJobs env now js w)
         = filter (\<lambda>j. NextRun j \<noteq> 0 \<and> NextRun j < now \<and> CatchupPolicy j = ''run_once'') js"
proof (induction js arbitrary: w)
  case (Cons j js)
  note adv = advanceNextRun_ok [OF Cons.prems, of j now]
  show ?case using Cons.IH [OF Cons.prems] Cons.IH [of "advanceNextRun env j now w"] adv
    by (auto simp: Let_def split: prod.split)
qed simp

lemma fireJob_at_most_once:
  assumes "ok w"
  shows "ok (fireJob env j now w)
    \<and> (ran (fireJob env j now w) = ran w \<or> (\<exists>nxt. nextRun (CronExpr j) now = Some nxt \<and> ran (fireJob env j now w) = ran w @ [j\<lparr>NextRun := nxt\<rparr>]))"
proof (cases "nextRun (CronExpr j) now")
  case None
  with assms show ?thesis by (simp add: fireJob_none)
next
  case (Some nxt)
  from assms Some show ?thesis by (cases rule: fireJob_cases) (use Some in auto)
qed

end


section \<open>The world of a node\<close>

text \<open>
  A node as the scheduler meets it: its Raft peer and its store, the jobs executed so far, the
  clock, the random source, the outside world of the executors, whether the cluster commits what
  the leader appends within the time a submit waits, and whether the scheduler was killed.  \<open>submitNode\<close> is \<open>Submit\<close> from its critical section
  to its return: a committed entry is applied and its waiter told; otherwise the call times out.
\<close>

record node =
  nodeRaft :: storeRaft
  nodeStore :: Store
  nodeRan :: "Job list"
  nodeClock :: int
  nodeRandom :: "nat \<Rightarrow> nat \<Rightarrow> 8 word"
  nodeReqs :: nat
  nodeEnv :: exec_env
  nodeCommits :: bool
  nodeDone :: bool

definition submitNode :: "Cmd \<Rightarrow> node \<Rightarrow> submit_error option \<times> node" where
  "submitNode cmd w =
     (case Submit_begin cmd (nodeRaft w) (nodeStore w) of
        (Inl e, rf, s) \<Rightarrow> (Some e, w\<lparr>nodeRaft := rf, nodeStore := s\<rparr>)
      | (Inr (i, ch), rf, s) \<Rightarrow>
          if nodeCommits w then
            (case applyLoop_msg [] (commandMsg (Some cmd) i) s of
               None \<Rightarrow> (Some ErrTimeout, w\<lparr>nodeRaft := rf, nodeStore := s\<rparr>)
             | Some (req, s') \<Rightarrow>
                 (case chRecv ch s' of
                    None \<Rightarrow> (Some ErrTimeout, w\<lparr>nodeRaft := rf, nodeStore := s'\<rparr>)
                  | Some (m, s'') \<Rightarrow> (m, w\<lparr>nodeRaft := rf, nodeStore := s''\<rparr>)))
          else (let (e, s') = Submit_timeout i s in (e, w\<lparr>nodeRaft := rf, nodeStore := s'\<rparr>)))"

definition runNode :: "Job \<Rightarrow> node \<Rightarrow> RunRecord \<times> node" where
  "runNode j w = (Dispatcher_Run NewDispatcher (nodeEnv w) j, w\<lparr>nodeRan := nodeRan w @ [j]\<rparr>)"

definition randNode :: "nat \<Rightarrow> node \<Rightarrow> 8 word list \<times> node" where
  "randNode n w = (map (nodeRandom w (nodeReqs w)) [0..<n], w\<lparr>nodeReqs := nodeReqs w + 1\<rparr>)"

definition nodeSched :: "node sched_env" where
  "nodeSched = \<lparr>submit = submitNode, execRun = runNode, randRead = randNode,
     timeNow = (\<lambda>w. (nodeClock w, w))\<rparr>"

definition reqNode :: "node \<Rightarrow> string \<times> node" where
  "reqNode w = (EncodeToString (map (nodeRandom w (nodeReqs w)) [0..<8]), w\<lparr>nodeReqs := nodeReqs w + 1\<rparr>)"

lemma nodeSched_simps [simp]:
  "submit nodeSched = submitNode" "execRun nodeSched = runNode" "randRead nodeSched = randNode"
  "timeNow nodeSched w = (nodeClock w, w)"
  by (simp_all add: nodeSched_def)

lemma newReqID_node [simp]: "newReqID nodeSched w = reqNode w"
  by (simp add: newReqID_def reqNode_def randNode_def)

definition nodeOk :: "node \<Rightarrow> bool" where
  "nodeOk w \<longleftrightarrow> waiters_ok (nodeStore w) \<and> rfSet (nodeStore w)"

definition execView ::
    "Cmd \<Rightarrow> (string \<rightharpoonup> Job) \<times> (string \<rightharpoonup> RunRecord list) \<Rightarrow> (string \<rightharpoonup> Job) \<times> (string \<rightharpoonup> RunRecord list)" where
  "execView c v = storeView (applySwitch c ((makeStore True None)\<lparr>jobs := fst v, runs := snd v\<rparr>))"

lemma execView: "execView c (storeView s) = storeView (applySwitch c s)"
  unfolding execView_def by (rule store_machine.exec_view) (simp add: storeView_def)

lemma Submit_begin_cases:
  assumes "nodeOk w"
  obtains (refused) rf where "Submit_begin c (nodeRaft w) (nodeStore w) = (Inl ErrNotLeader, rf, nodeStore w)"
      "state (nodeRaft w) \<noteq> leader"
  | (accepted) i rf s where "Submit_begin c (nodeRaft w) (nodeStore w) = (Inr (i, nextChan (nodeStore w)), rf, s)"
      "waiters_ok s" "rfSet s" "storeView s = storeView (nodeStore w)"
      "pending s i = Some \<lparr>peCh = nextChan (nodeStore w), peReqID = ReqID c\<rparr>"
      "state rf = state (nodeRaft w)"
proof -
  have ok: "waiters_ok (snd (snd (Submit_begin c (nodeRaft w) (nodeStore w))))"
    using assms by (intro Submit_begin_ok) (simp add: nodeOk_def)
  obtain i t l rf where st: "Start c (nodeRaft w) = ((i, t, l), rf)" by (metis prod.collapse)
  then have l: "l \<longleftrightarrow> state (nodeRaft w) = leader" "state rf = state (nodeRaft w)"
    by (auto simp: Start_def Let_def split: if_splits)
  show ?thesis
  proof (cases l)
    case True
    then show ?thesis
      using assms ok st l
      by (intro accepted [of i rf "snd (snd (Submit_begin c (nodeRaft w) (nodeStore w)))"])
        (auto simp: Submit_begin_def Let_def nodeOk_def storeView_def)
  next
    case False
    then show ?thesis using assms st l by (intro refused) (auto simp: Submit_begin_def nodeOk_def)
  qed
qed

lemma submitNode_spec:
  assumes "nodeOk w"
  shows "\<exists>rf s e. submitNode c w = (e, w\<lparr>nodeRaft := rf, nodeStore := s\<rparr>) \<and> waiters_ok s \<and> rfSet s
    \<and> storeView s = (if e = None then storeView (applySwitch c (nodeStore w)) else storeView (nodeStore w))"
  using assms
proof (cases rule: Submit_begin_cases [of _ c])
  case (refused rf)
  with assms show ?thesis
    by (intro exI [of _ rf] exI [of _ "nodeStore w"] exI [of _ "Some ErrNotLeader"]) (auto simp: submitNode_def nodeOk_def)
next
  case (accepted i rf s)
  show ?thesis
  proof (cases "nodeCommits w")
    case False
    with accepted show ?thesis
      by (intro exI [of _ rf] exI [of _ "s\<lparr>pending := (pending s)(i := None)\<rparr>"] exI [of _ "Some ErrTimeout"])
        (auto simp: submitNode_def Submit_timeout_def waiters_ok_drop storeView_def)
  next
    case True
    obtain req s' where s': "applyCmd c i s = Some (req, s')" "waiters_ok s'"
      "storeView s' = storeView (applySwitch c s)" "chans s' (nextChan (nodeStore w)) = [None]" "rfSet s'"
      using applyCmd_ok [OF accepted(2), of c i] accepted(3,5) by auto
    define s'' where "s'' = s'\<lparr>chans := (chans s')(nextChan (nodeStore w) := [])\<rparr>"
    have recv: "chRecv (nextChan (nodeStore w)) s' = Some (None, s'')" using s'(4) by (simp add: chRecv_def s''_def)
    have "waiters_ok s''" using chRecv_ok [OF s'(2) recv] .
    moreover have "storeView s'' = storeView (applySwitch c (nodeStore w))"
      using s'(3) store_machine.exec_view [OF accepted(4), of c] by (simp add: s''_def storeView_def)
    ultimately show ?thesis
      using accepted(1) True s' recv
      by (intro exI [of _ rf] exI [of _ s''] exI [of _ None])
        (simp add: submitNode_def applyLoop_msg_def commandMsg_def, simp add: s''_def)
  qed
qed

interpretation node_backend: scheduler_backend nodeSched nodeOk "\<lambda>w. storeView (nodeStore w)" execView nodeRan
proof
  fix w w' :: node and c err
  assume w: "nodeOk w" and s: "submit nodeSched c w = (err, w')"
  then show "nodeOk w' \<and> nodeRan w' = nodeRan w"
    using submitNode_spec [OF w, of c] by (auto simp: nodeSched_def nodeOk_def)
next
  fix w w' :: node and c
  assume w: "nodeOk w" and s: "submit nodeSched c w = (None, w')"
  then show "storeView (nodeStore w') = execView c (storeView (nodeStore w))"
    using submitNode_spec [OF w, of c] by (auto simp: nodeSched_def execView)
qed (auto simp: nodeSched_def runNode_def randNode_def nodeOk_def)


section \<open>Next times\<close>

lemma nextRun_Some:
  assumes "nextRun expr now = Some t" "0 \<le> now"
  shows "\<exists>e. Parse expr = Inr e \<and> now < t \<and> t mod minute_ns = 0 \<and> matches e t
    \<and> \<not> (\<exists>u. now < u \<and> u < t \<and> u mod minute_ns = 0 \<and> matches e u)"
proof -
  obtain e where "Parse expr = Inr e" "t = Next e now" "Next e now \<noteq> 0"
    using assms(1) by (auto simp: nextRun_def Let_def split: sum.splits if_splits)
  with Next_least [of e now] assms(2) show ?thesis by auto
qed

lemma storeView_upsert: "storeView s = storeView (applySwitch (upsertOf r j) s0) \<Longrightarrow> jobs s (jobID j) = Some j"
  by (simp add: storeView_def applySwitch_def upsertOf_def)

lemma applySwitch_record:
  "runJobID run = k \<Longrightarrow> jobs s k = Some j \<Longrightarrow>
     jobs (applySwitch (recordOf r run) s) k = Some (j\<lparr>LastRun := StartedAt run, LastStatus := Status run\<rparr>)"
  by (simp add: applySwitch_def recordOf_def CmdRecord_def CmdUpsert_def CmdDelete_def recordRun_eq)

lemma fired_stored:
  assumes "nodeOk w" "nodeRan (fireJob nodeSched j now w) \<noteq> nodeRan w"
  shows "\<exists>nxt j'. nextRun (CronExpr j) now = Some nxt \<and> nodeRan (fireJob nodeSched j now w) = nodeRan w @ [j\<lparr>NextRun := nxt\<rparr>]
    \<and> jobs (nodeStore (fireJob nodeSched j now w)) (jobID j) = Some j' \<and> NextRun j' = nxt"
proof (cases "nextRun (CronExpr j) now")
  case None
  with assms show ?thesis by (simp add: fireJob_def)
next
  case (Some nxt)
  let ?w = "fireJob nodeSched j now w"
  from assms(1) Some show ?thesis
  proof (cases rule: node_backend.fireJob_cases)
    case (refused r w1 e)
    with assms show ?thesis by simp
  next
    case (fired r w1 w2 r2 w5 run err)
    have j5: "jobs (nodeStore w5) (jobID j) = Some (j\<lparr>NextRun := nxt\<rparr>)"
      using fired(3,5) storeView_upsert [of "nodeStore w5" r "j\<lparr>NextRun := nxt\<rparr>" "nodeStore w"]
      by (simp add: execView)
    obtain rf s where s: "submitNode (recordOf r2 run) w5 = (err, w5\<lparr>nodeRaft := rf, nodeStore := s\<rparr>)"
      "storeView s = (if err = None then storeView (applySwitch (recordOf r2 run) (nodeStore w5)) else storeView (nodeStore w5))"
      using submitNode_spec [OF fired(4), of "recordOf r2 run"] fired(7) by auto
    have "?w = w5\<lparr>nodeRaft := rf, nodeStore := s\<rparr>" using fired(7) s(1) by simp
    then have "nodeStore ?w = s" by simp
    moreover have "\<exists>j'. jobs s (jobID j) = Some j' \<and> NextRun j' = nxt"
      using s(2) j5 applySwitch_record [OF fired(6) j5, of r2] by (auto simp: storeView_def split: if_splits)
    ultimately show ?thesis using Some fired(9) by auto
  qed
qed

text \<open>A leader whose entries commit in time: a submit succeeds.\<close>

definition leading :: "node \<Rightarrow> bool" where
  "leading w \<longleftrightarrow> state (nodeRaft w) = leader \<and> nodeCommits w"

lemma submitNode_leading:
  assumes "nodeOk w" "leading w"
  shows "fst (submitNode c w) = None \<and> leading (snd (submitNode c w)) \<and> nodeOk (snd (submitNode c w))"
  using assms(1)
proof (cases rule: Submit_begin_cases [of _ c])
  case (accepted i rf s)
  obtain req s' where s': "applyCmd c i s = Some (req, s')" "waiters_ok s'" "chans s' (nextChan (nodeStore w)) = [None]"
    "rfSet s'"
    using applyCmd_ok [OF accepted(2), of c i] accepted(3,5) by auto
  have recv: "chRecv (nextChan (nodeStore w)) s'
      = Some (None, s'\<lparr>chans := (chans s')(nextChan (nodeStore w) := [])\<rparr>)" using s'(3) by (simp add: chRecv_def)
  from assms(2) accepted(1,6) s' recv chRecv_ok [OF s'(2) recv] show ?thesis
    by (simp add: submitNode_def applyLoop_msg_def commandMsg_def leading_def nodeOk_def)
qed (use assms in \<open>simp add: leading_def\<close>)

lemma advance_leading:
  assumes "nodeOk w" "leading w" "nextRun (CronExpr j) now = Some nxt"
  defines "w' \<equiv> advanceNextRun nodeSched j now w"
  shows "nodeOk w'" "leading w'" "jobs (nodeStore w') = (jobs (nodeStore w))(jobID j \<mapsto> j\<lparr>NextRun := nxt\<rparr>)"
proof -
  define w1 where "w1 = snd (reqNode w)"
  define c where "c = upsertOf (fst (reqNode w)) (j\<lparr>NextRun := nxt\<rparr>)"
  have w1: "nodeOk w1" "leading w1" "nodeStore w1 = nodeStore w"
    using assms(1,2) by (simp_all add: w1_def reqNode_def nodeOk_def leading_def)
  have w': "w' = snd (submitNode c w1)"
    using assms(3) by (simp add: w'_def advanceNextRun_def w1_def c_def split: prod.split)
  show "nodeOk w'" "leading w'" using submitNode_leading [OF w1(1,2), of c] w' by simp_all
  obtain rf s e where s: "submitNode c w1 = (e, w1\<lparr>nodeRaft := rf, nodeStore := s\<rparr>)"
    "storeView s = (if e = None then storeView (applySwitch c (nodeStore w1)) else storeView (nodeStore w1))"
    using submitNode_spec [OF w1(1), of c] by blast
  moreover have "e = None" using submitNode_leading [OF w1(1,2), of c] s(1) by simp
  ultimately show "jobs (nodeStore w') = (jobs (nodeStore w))(jobID j \<mapsto> j\<lparr>NextRun := nxt\<rparr>)"
    using w1(3) w' by (simp add: storeView_def applySwitch_def c_def upsertOf_def)
qed

lemma advance_none: "nextRun (CronExpr j) now = None \<Longrightarrow> advanceNextRun nodeSched j now w = w"
  by (simp add: advanceNextRun_def)

definition missed :: "int \<Rightarrow> Job \<Rightarrow> bool" where
  "missed now j \<longleftrightarrow> NextRun j \<noteq> 0 \<and> NextRun j < now"

lemma Reconcile_step:
  "snd (ReconcileMissedJobs env now (j # js) w)
     = snd (ReconcileMissedJobs env now js
         (if missed now j \<and> CatchupPolicy j = ''skip'' then advanceNextRun env j now w else w))"
  by (auto simp: missed_def split: prod.split)

lemma Reconcile_untouched:
  assumes "nodeOk w" "leading w" "\<forall>j \<in> set js. jobID j \<noteq> k"
  shows "jobs (nodeStore (snd (ReconcileMissedJobs nodeSched now js w))) k = jobs (nodeStore w) k"
  using assms
proof (induction js arbitrary: w)
  case (Cons j js)
  define w1 where "w1 = (if missed now j \<and> CatchupPolicy j = ''skip'' then advanceNextRun nodeSched j now w else w)"
  have "nodeOk w1 \<and> leading w1 \<and> jobs (nodeStore w1) k = jobs (nodeStore w) k"
    using Cons.prems advance_leading [OF Cons.prems(1,2), of j now] advance_none [of j now w]
    by (cases "nextRun (CronExpr j) now") (auto simp: w1_def)
  with Cons show ?case unfolding Reconcile_step w1_def [symmetric] by simp
qed simp

lemma Reconcile_skips:
  assumes "nodeOk w" "leading w" "distinct (map jobID js)" "j \<in> set js" "missed now j" "CatchupPolicy j = ''skip''"
    "nextRun (CronExpr j) now = Some nxt"
  shows "jobs (nodeStore (snd (ReconcileMissedJobs nodeSched now js w))) (jobID j) = Some (j\<lparr>NextRun := nxt\<rparr>)"
  using assms
proof (induction js arbitrary: w)
  case (Cons i js)
  define w1 where "w1 = (if missed now i \<and> CatchupPolicy i = ''skip'' then advanceNextRun nodeSched i now w else w)"
  have w1: "nodeOk w1" "leading w1"
    using Cons.prems advance_leading [OF Cons.prems(1,2), of i now] advance_none [of i now w]
    by (cases "nextRun (CronExpr i) now"; simp add: w1_def)+
  show ?case
  proof (cases "i = j")
    case True
    then have "jobs (nodeStore w1) (jobID j) = Some (j\<lparr>NextRun := nxt\<rparr>)"
      using advance_leading(3) [OF Cons.prems(1,2,7)] Cons.prems(5,6) by (simp add: w1_def)
    moreover have "\<forall>i \<in> set js. jobID i \<noteq> jobID j" using Cons.prems(3) True by (simp add: image_iff) metis
    ultimately show ?thesis
      unfolding Reconcile_step w1_def [symmetric] using Reconcile_untouched [OF w1] by simp
  next
    case False
    then show ?thesis
      unfolding Reconcile_step w1_def [symmetric] using Cons.IH [OF w1] Cons.prems by simp
  qed
qed simp


lemma submitNode_follower:
  assumes "nodeOk w" "state (nodeRaft w) \<noteq> leader"
  shows "\<exists>w'. submitNode c w = (Some ErrNotLeader, w') \<and> nodeStore w' = nodeStore w \<and> nodeRan w' = nodeRan w"
  using assms by (simp add: nodeOk_def submitNode_def Submit_begin_def Start_def)

lemma fire_leading:
  assumes "nodeOk w" "leading w" "nextRun (CronExpr j) now = Some nxt"
  shows "nodeRan (fireJob nodeSched j now w) = nodeRan w @ [j\<lparr>NextRun := nxt\<rparr>]"
  using assms(1,3)
proof (cases rule: node_backend.fireJob_cases)
  case (refused r w1 e)
  then have "w1 = snd (reqNode w)" by simp
  then have "nodeOk w1" "leading w1"
    using assms(1,2) by (simp_all add: reqNode_def nodeOk_def leading_def)
  with submitNode_leading [of w1 "upsertOf r (j\<lparr>NextRun := nxt\<rparr>)"] refused(2) show ?thesis by simp
qed


lemma leading_world:
  "nodeOk w \<Longrightarrow> leading w \<Longrightarrow> nodeOk (snd (reqNode w)) \<and> leading (snd (reqNode w))"
  "nodeOk w \<Longrightarrow> leading w \<Longrightarrow> nodeOk (snd (runNode j w)) \<and> leading (snd (runNode j w))"
  "nodeOk w \<Longrightarrow> leading w \<Longrightarrow> nodeOk (snd (finishRun nodeSched j now run w)) \<and> leading (snd (finishRun nodeSched j now run w))"
  by (simp_all add: reqNode_def runNode_def finishRun_def nodeOk_def leading_def Let_def)

lemma fire_keeps_leading:
  assumes "nodeOk w" "leading w" "nextRun (CronExpr j) now = Some nxt"
  shows "nodeOk (fireJob nodeSched j now w) \<and> leading (fireJob nodeSched j now w)"
proof -
  have "nodeOk (snd (submitNode c w)) \<and> leading (snd (submitNode c w))" if "nodeOk w \<and> leading w" for c w
    using submitNode_leading that by blast
  then show ?thesis
    using assms leading_world submitNode_leading
    by (simp add: fireJob_def Let_def split_beta)
qed


section \<open>Properties\<close>

definition midnightJob :: Job where
  "midnightJob = zeroJob\<lparr>jobID := ''a'', CronExpr := ''0 0 1 * *'', jobExecutor := ''kafka'', Payload := ''t:m'',
     CatchupPolicy := ''skip'', NextRun := 60000000000\<rparr>"

definition quietEnv :: exec_env where
  "quietEnv = \<lparr>envStarted = 1, envFinished = 2, envShell = (\<lambda>t p. ([], ShellOk, False)), envPost = (\<lambda>t p b. Inr 200)\<rparr>"

definition leaderNode :: node where
  "leaderNode = \<lparr>nodeRaft = leaderAt 1, nodeStore = makeStore True None, nodeRan = [], nodeClock = 5,
     nodeRandom = (\<lambda>n k. of_nat (8 * n + k)), nodeReqs = 0, nodeEnv = quietEnv, nodeCommits = True, nodeDone = False\<rparr>"

lemma leaderNode_ok: "nodeOk leaderNode" "leading leaderNode"
  by (simp_all add: leaderNode_def nodeOk_def waiters_ok_make leading_def leaderAt_def) (simp add: makeStore_def)

lemma midnight_next: "nextRun (CronExpr midnightJob) 63839750340000000000 = Some 63839750400000000000"
proof -
  define e where "e = \<lparr>second = 0, minute = 1 :: 64 word, hour = 1, dayOfMonth = 2, month = 8190, dayOfWeek = 127\<rparr>"
  have p: "Parse ''0 0 1 * *'' = Inr e" unfolding e_def by code_simp
  have n: "Next e 63839750340000000000 = 63839750400000000000" unfolding e_def by code_simp
  show ?thesis by (simp add: midnightJob_def nextRun_def p n)
qed

text \<open>
  C18: A job is executed at most once per firing, and only after its next time, which is later than
  the firing, was committed: whatever happens afterwards, the store holds the job with that next
  time, so that another tick at the same moment does not fire it again.
\<close>

theorem fired_job_is_rescheduled:
  assumes "nodeOk w" and "0 \<le> now" and "nodeRan (fireJob nodeSched j now w) \<noteq> nodeRan w"
  shows "\<exists>nxt j'. nodeRan (fireJob nodeSched j now w) = nodeRan w @ [j\<lparr>NextRun := nxt\<rparr>] \<and> now < nxt
    \<and> jobs (nodeStore (fireJob nodeSched j now w)) (jobID j) = Some j' \<and> NextRun j' = nxt \<and> tick now [j'] = []"
proof -
  obtain nxt j' where nxt: "nextRun (CronExpr j) now = Some nxt" and
    f: "nodeRan (fireJob nodeSched j now w) = nodeRan w @ [j\<lparr>NextRun := nxt\<rparr>]"
    "jobs (nodeStore (fireJob nodeSched j now w)) (jobID j) = Some j'" "NextRun j' = nxt"
    using fired_stored [OF assms(1,3)] by blast
  have "now < nxt" using nextRun_Some [OF nxt assms(2)] by blast
  with f show ?thesis by (intro exI [of _ nxt] exI [of _ j']) (simp add: tick_def)
qed

theorem fired_job_is_rescheduled_witness:
  "\<exists>j'. jobs (nodeStore (fireJob nodeSched midnightJob 63839750340000000000 leaderNode)) ''a'' = Some j'
     \<and> tick 63839750340000000000 [midnightJob] = [midnightJob] \<and> tick 63839750340000000000 [j'] = []"
proof -
  have "nodeRan (fireJob nodeSched midnightJob 63839750340000000000 leaderNode) \<noteq> nodeRan leaderNode"
    using fire_leading [OF leaderNode_ok midnight_next] by simp
  from fired_job_is_rescheduled [OF leaderNode_ok(1) _ this] show ?thesis
    by (auto simp: tick_def midnightJob_def)
qed

text \<open>
  C28: On a node that is not the leader, firing a job executes nothing and changes no job and no run
  history, whatever the tick that started it had seen.
\<close>

theorem follower_fires_nothing:
  assumes "nodeOk w" and "state (nodeRaft w) \<noteq> leader"
  shows "nodeRan (fireJob nodeSched j now w) = nodeRan w \<and> nodeStore (fireJob nodeSched j now w) = nodeStore w"
proof (cases "nextRun (CronExpr j) now")
  case None
  then show ?thesis by (simp add: fireJob_def)
next
  case (Some nxt)
  have fails: "\<exists>w'. submitNode c w1 = (Some ErrNotLeader, w') \<and> nodeStore w' = nodeStore w \<and> nodeRan w' = nodeRan w"
    if "newReqID nodeSched w = (r, w1)" for r w1 c
  proof -
    have "nodeOk w1" "state (nodeRaft w1) \<noteq> leader" "nodeStore w1 = nodeStore w" "nodeRan w1 = nodeRan w"
      using that assms by (auto simp: reqNode_def nodeOk_def)
    with submitNode_follower [of w1 c] show ?thesis by simp
  qed
  from assms(1) Some show ?thesis
  proof (cases rule: node_backend.fireJob_cases)
    case (refused r w1 e)
    with fails [OF refused(1), of "upsertOf r (j\<lparr>NextRun := nxt\<rparr>)"] show ?thesis by auto
  next
    case (fired r w1 w2 r2 w5 run err)
    with fails [OF fired(1), of "upsertOf r (j\<lparr>NextRun := nxt\<rparr>)"] show ?thesis by auto
  qed
qed

theorem follower_fires_nothing_witness:
  "nodeRan (fireJob nodeSched midnightJob 63839750340000000000
     (leaderNode\<lparr>nodeRaft := (leaderAt 1)\<lparr>state := follower\<rparr>\<rparr>)) = []"
proof -
  let ?w = "leaderNode\<lparr>nodeRaft := (leaderAt 1)\<lparr>state := follower\<rparr>\<rparr>"
  have "nodeOk ?w" "state (nodeRaft ?w) \<noteq> leader"
    using leaderNode_ok(1) by (simp_all add: nodeOk_def)
  from follower_fires_nothing [OF this, of midnightJob 63839750340000000000] show ?thesis
    by (simp add: leaderNode_def)
qed

text \<open>
  Firing a job writes back the copy the tick had read: a job that was deleted in between is in
  the store again afterwards.
\<close>

theorem firing_restores_deleted_job:
  assumes "nodeOk w" and "jobs (nodeStore w) (jobID j) = None" and "leading w"
    and "nextRun (CronExpr j) now = Some nxt"
  shows "jobs (nodeStore (fireJob nodeSched j now w)) (jobID j) \<noteq> None"
  using fired_stored [OF assms(1), of j now] fire_leading [OF assms(1,3,4)] by auto

theorem firing_restores_deleted_job_witness:
  "jobs (nodeStore leaderNode) ''a'' = None
   \<and> jobs (nodeStore (fireJob nodeSched midnightJob 63839750340000000000 leaderNode)) ''a'' \<noteq> None"
proof -
  have "jobs (nodeStore leaderNode) (jobID midnightJob) = None" by (simp add: leaderNode_def makeStore_def)
  from firing_restores_deleted_job [OF leaderNode_ok(1) this leaderNode_ok(2) midnight_next] this show ?thesis
    by (simp add: midnightJob_def)
qed



text \<open>
  C40: A missed job with the policy \<open>run_once\<close> can run twice: the tick loop and the reconciliation both
  find it due, and each of the two goroutines commits the next time and then executes the job.
\<close>

theorem missed_job_runs_twice:
  assumes "nodeOk w" and "leading w" and "nextRun (CronExpr j) now = Some nxt" and "missed now j" and "CatchupPolicy j = ''run_once''"
  shows "tick now [j] = [j] \<and> fst (ReconcileMissedJobs nodeSched now [j] w) = [j]
    \<and> nodeRan (fireJob nodeSched j now (fireJob nodeSched j now w)) = nodeRan w @ [j\<lparr>NextRun := nxt\<rparr>, j\<lparr>NextRun := nxt\<rparr>]"
  using assms fire_leading [OF assms(1-3)] fire_leading [OF _ _ assms(3)] fire_keeps_leading [OF assms(1-3)]
  by (simp add: tick_def missed_def)

theorem missed_job_runs_twice_witness:
  "length (nodeRan (fireJob nodeSched (midnightJob\<lparr>CatchupPolicy := ''run_once''\<rparr>) 63839750340000000000
     (fireJob nodeSched (midnightJob\<lparr>CatchupPolicy := ''run_once''\<rparr>) 63839750340000000000 leaderNode))) = 2"
proof -
  let ?j = "midnightJob\<lparr>CatchupPolicy := ''run_once''\<rparr>"
  have n: "nextRun (CronExpr ?j) 63839750340000000000 = Some 63839750400000000000" using midnight_next by simp
  have m: "missed 63839750340000000000 ?j" by (simp add: missed_def midnightJob_def)
  from missed_job_runs_twice [OF leaderNode_ok n m] show ?thesis by (simp add: leaderNode_def)
qed

end
