(* ===== verification/Api.thy ===== *)
theory Api
  imports Scheduler
begin

text \<open>
  The REST API, \<open>src/internal/api/handlers.go\<close> and \<open>server.go\<close>.  A handler maps what it
  calls (a record of functions on a world) and the request to a response, a status code with a
  body.  The locale \<open>job_store\<close> is the interface \<open>jobStore\<close> with the laws the handlers
  rely on; it is interpreted on the node of \<open>Scheduler\<close>.
\<close>

section \<open>Requests and responses\<close>

record createJobReq =
  reqID :: string
  reqName :: string
  reqCronExpr :: string
  reqExecutor :: string
  reqPayload :: string
  reqCatchupPolicy :: string

text \<open>The messages of \<open>writeError\<close>, by what they say and the value they quote.\<close>

datatype error_text =
    InvalidJSON string
  | InvalidCronExpr parse_error
  | NotLeaderRetry
  | NotLeader
  | SubmitFailed submit_error
  | NotFound string
  | FireFailed fire_error

datatype body =
    ErrorBody error_text
  | JobBody Job
  | JobsBody "Job list"
  | DetailBody Job "RunRecord list"
  | TriggeredBody string
  | ClusterBody int bool
  | TextBody string
  | NoBody

type_synonym response = "int \<times> body"

definition writeJSON :: "int \<Rightarrow> body \<Rightarrow> response" where
  "writeJSON code v = (code, v)"

definition writeError :: "int \<Rightarrow> error_text \<Rightarrow> response" where
  "writeError code msg = writeJSON code (ErrorBody msg)"

text \<open>The interfaces \<open>jobStore\<close>, \<open>jobScheduler\<close> and \<open>leaderChecker\<close>, with the clock and the random source.\<close>

record 'w api_env =
  stSubmit :: "Cmd \<Rightarrow> 'w \<Rightarrow> submit_error option \<times> 'w"
  stGetJob :: "string \<Rightarrow> 'w \<Rightarrow> Job \<times> bool"
  stListJobs :: "'w \<Rightarrow> Job list"
  stGetRuns :: "string \<Rightarrow> 'w \<Rightarrow> RunRecord list"
  scFireNow :: "string \<Rightarrow> 'w \<Rightarrow> fire_error option \<times> 'w"
  lcGetState :: "'w \<Rightarrow> int \<times> bool"
  apiRand :: "nat \<Rightarrow> 'w \<Rightarrow> 8 word list \<times> 'w"
  apiNow :: "'w \<Rightarrow> int \<times> 'w"

definition generateID :: "'w api_env \<Rightarrow> 'w \<Rightarrow> string \<times> 'w" where
  "generateID env w = (let (b, w) = apiRand env 8 w in (EncodeToString b, w))"


section \<open>Handlers\<close>

text \<open>The JSON decoder is outside the program: its result, an error text or the request, is an argument.\<close>

definition createJob :: "'w api_env \<Rightarrow> string + createJobReq \<Rightarrow> 'w \<Rightarrow> response \<times> 'w" where
  "createJob env decoded w =
     (case decoded of
        Inl e \<Rightarrow> (writeError 400 (InvalidJSON e), w)
      | Inr req \<Rightarrow>
          (case Parse (reqCronExpr req) of
             Inl e \<Rightarrow> (writeError 400 (InvalidCronExpr e), w)
           | Inr expr \<Rightarrow>
               let (i, w) = (if reqID req = [] then generateID env w else (reqID req, w));
                   policy = (if reqCatchupPolicy req = [] then ''skip'' else reqCatchupPolicy req);
                   (t1, w) = apiNow env w;
                   (t2, w) = apiNow env w;
                   job = zeroJob\<lparr>jobID := i, jobName := reqName req, CronExpr := reqCronExpr req,
                           jobExecutor := reqExecutor req, Payload := reqPayload req, CatchupPolicy := policy,
                           NextRun := Next expr t1, CreatedAt := t2\<rparr>;
                   (r, w) = generateID env w;
                   (err, w) = stSubmit env (upsertOf r job) w
               in (case err of
                     Some ErrNotLeader \<Rightarrow> (writeError 409 NotLeaderRetry, w)
                   | Some e \<Rightarrow> (writeError 500 (SubmitFailed e), w)
                   | None \<Rightarrow> (writeJSON 201 (JobBody job), w))))"

definition listJobs :: "'w api_env \<Rightarrow> 'w \<Rightarrow> response" where
  "listJobs env w = writeJSON 200 (JobsBody (stListJobs env w))"

definition getJob :: "'w api_env \<Rightarrow> string \<Rightarrow> 'w \<Rightarrow> response" where
  "getJob env i w =
     (let (j, ok) = stGetJob env i w in
      if \<not> ok then writeError 404 (NotFound i)
      else writeJSON 200 (DetailBody j (stGetRuns env i w)))"

definition deleteOf :: "string \<Rightarrow> string \<Rightarrow> Cmd" where
  "deleteOf r i = \<lparr>cmdType = CmdDelete, ReqID = r, cmdJob = zeroJob, cmdID = i, cmdRun = zeroRun\<rparr>"

definition deleteJob :: "'w api_env \<Rightarrow> string \<Rightarrow> 'w \<Rightarrow> response \<times> 'w" where
  "deleteJob env i w =
     (if \<not> snd (stGetJob env i w) then (writeError 404 (NotFound i), w)
      else
        let (r, w) = generateID env w;
            (err, w) = stSubmit env (deleteOf r i) w
        in (case err of
              Some ErrNotLeader \<Rightarrow> (writeError 409 NotLeader, w)
            | Some e \<Rightarrow> (writeError 500 (SubmitFailed e), w)
            | None \<Rightarrow> ((204, NoBody), w)))"

definition triggerJob :: "'w api_env \<Rightarrow> string \<Rightarrow> 'w \<Rightarrow> response \<times> 'w" where
  "triggerJob env i w =
     (let (err, w) = scFireNow env i w in
      case err of
        Some e \<Rightarrow> (writeError 404 (FireFailed e), w)
      | None \<Rightarrow> (writeJSON 202 (TriggeredBody i), w))"

definition clusterStatus :: "'w api_env \<Rightarrow> 'w \<Rightarrow> response" where
  "clusterStatus env w = (let (t, l) = lcGetState env w in writeJSON 200 (ClusterBody t l))"


section \<open>Routes\<close>

datatype endpoint =
    CreateJob | ListAll | GetOne string | DeleteOne string | Trigger string | Cluster

text \<open>
  The patterns \<open>New\<close> registers, on the method and the segments of the path.  A pattern for
  \<open>GET\<close> also matches \<open>HEAD\<close>, and \<open>{id}\<close> matches one segment that is not empty.
\<close>

definition isGet :: "string \<Rightarrow> bool" where
  "isGet m \<longleftrightarrow> m = ''GET'' \<or> m = ''HEAD''"

fun routes :: "string \<Rightarrow> string list \<Rightarrow> endpoint option" where
  "routes m [s] =
     (if s = ''jobs'' then (if m = ''POST'' then Some CreateJob else if isGet m then Some ListAll else None)
      else if s = ''cluster'' \<and> isGet m then Some Cluster
      else None)"
| "routes m [s, i] =
     (if s = ''jobs'' \<and> i \<noteq> [] then
        (if isGet m then Some (GetOne i) else if m = ''DELETE'' then Some (DeleteOne i) else None)
      else None)"
| "routes m [s, i, t] =
     (if s = ''jobs'' \<and> i \<noteq> [] \<and> t = ''trigger'' \<and> m = ''POST'' then Some (Trigger i) else None)"
| "routes m _ = None"

definition serve :: "'w api_env \<Rightarrow> endpoint \<Rightarrow> string + createJobReq \<Rightarrow> 'w \<Rightarrow> response \<times> 'w" where
  "serve env ep decoded w =
     (case ep of
        CreateJob \<Rightarrow> createJob env decoded w
      | ListAll \<Rightarrow> (listJobs env w, w)
      | GetOne i \<Rightarrow> (getJob env i w, w)
      | DeleteOne i \<Rightarrow> deleteJob env i w
      | Trigger i \<Rightarrow> triggerJob env i w
      | Cluster \<Rightarrow> (clusterStatus env w, w))"

text \<open>
  The multiplexer: a request no pattern matches is answered with 405 when another method would match
  the path and with 404 otherwise; the answer to \<open>HEAD\<close> is sent without its body.
\<close>

definition unmatched :: "string list \<Rightarrow> response" where
  "unmatched path =
     (if list_ex (\<lambda>m. routes m path \<noteq> None) [''GET'', ''POST'', ''DELETE''] then (405, TextBody ''Method Not Allowed'')
      else (404, TextBody ''404 page not found''))"

definition mux :: "'w api_env \<Rightarrow> string \<Rightarrow> string list \<Rightarrow> string + createJobReq \<Rightarrow> 'w \<Rightarrow> response \<times> 'w" where
  "mux env m path decoded w =
     (let ((code, b), w) = (case routes m path of Some ep \<Rightarrow> serve env ep decoded w | None \<Rightarrow> (unmatched path, w))
      in ((code, if m = ''HEAD'' then NoBody else b), w))"

text \<open>The middleware around it (\<open>middleware.go\<close>): the same answer, and a line in the log.\<close>

definition logging ::
    "('w \<Rightarrow> int \<times> 'w) \<Rightarrow> (string \<Rightarrow> string list \<Rightarrow> 'r \<Rightarrow> 'w \<Rightarrow> response \<times> 'w) \<Rightarrow>
     string \<Rightarrow> string list \<Rightarrow> 'r \<Rightarrow> 'w \<Rightarrow> (response \<times> string \<times> string list \<times> int) \<times> 'w" where
  "logging now handler m path r w =
     (let (start, w) = now w;
          (resp, w) = handler m path r w;
          (stop, w) = now w
      in ((resp, m, path, stop - start), w))"

definition ServeHTTP ::
    "'w api_env \<Rightarrow> string \<Rightarrow> string list \<Rightarrow> string + createJobReq \<Rightarrow> 'w
       \<Rightarrow> (response \<times> string \<times> string list \<times> int) \<times> 'w" where
  "ServeHTTP env = logging (apiNow env) (mux env)"

text \<open>The job a valid request asks for, and the handler on such a request.\<close>

definition jobOf :: "createJobReq \<Rightarrow> string \<Rightarrow> Expression \<Rightarrow> int \<Rightarrow> int \<Rightarrow> Job" where
  "jobOf req i expr t1 t2 = zeroJob\<lparr>jobID := i, jobName := reqName req, CronExpr := reqCronExpr req,
     jobExecutor := reqExecutor req, Payload := reqPayload req,
     CatchupPolicy := (if reqCatchupPolicy req = [] then ''skip'' else reqCatchupPolicy req),
     NextRun := Next expr t1, CreatedAt := t2\<rparr>"

definition createOutcome :: "Job \<Rightarrow> submit_error option \<Rightarrow> response" where
  "createOutcome job e = (case e of
       Some ErrNotLeader \<Rightarrow> writeError 409 NotLeaderRetry
     | Some e \<Rightarrow> writeError 500 (SubmitFailed e)
     | None \<Rightarrow> writeJSON 201 (JobBody job))"

lemma createJob_valid:
  assumes "Parse (reqCronExpr req) = Inr expr"
    "(if reqID req = [] then generateID env w else (reqID req, w)) = (i, w1)"
    "apiNow env w1 = (t1, w2)" "apiNow env w2 = (t2, w3)" "generateID env w3 = (r, w4)"
    "stSubmit env (upsertOf r (jobOf req i expr t1 t2)) w4 = (e, w5)"
  shows "createJob env (Inr req) w = (createOutcome (jobOf req i expr t1 t2) e, w5)"
  using assms unfolding jobOf_def
  by (simp add: createJob_def createOutcome_def Let_def split: option.split submit_error.split)

section \<open>What the API relies on\<close>

locale job_store =
  fixes env :: "'w api_env" and ok :: "'w \<Rightarrow> bool"
  assumes submit_keeps: "ok w \<Longrightarrow> stSubmit env c w = (err, w') \<Longrightarrow> ok w'"
    and upsert_get: "ok w \<Longrightarrow> stSubmit env c w = (None, w') \<Longrightarrow> cmdType c = CmdUpsert \<Longrightarrow>
      stGetJob env (jobID (cmdJob c)) w' = (cmdJob c, True)"
    and delete_get: "ok w \<Longrightarrow> stSubmit env c w = (None, w') \<Longrightarrow> cmdType c = CmdDelete \<Longrightarrow>
      \<not> snd (stGetJob env (cmdID c) w') \<and> stGetRuns env (cmdID c) w' = []"
    and rand_ok: "ok w \<Longrightarrow> apiRand env n w = (b, w') \<Longrightarrow> ok w'"
    and clock_ok: "ok w \<Longrightarrow> apiNow env w = (t, w') \<Longrightarrow> ok w'"
begin

lemma gen_ok: "ok w \<Longrightarrow> generateID env w = (r, w') \<Longrightarrow> ok w'"
  using rand_ok [of w 8] by (cases "apiRand env 8 w") (auto simp: generateID_def)

lemma createJob_submits:
  assumes "ok w" "createJob env decoded w = (resp, w')" "fst resp = 201"
  obtains r job w1 where "ok w1" "stSubmit env (upsertOf r job) w1 = (None, w')" "resp = (201, JobBody job)"
proof -
  obtain req where d: "decoded = Inr req"
    using assms by (cases decoded) (auto simp: createJob_def writeError_def writeJSON_def)
  obtain expr where p: "Parse (reqCronExpr req) = Inr expr"
    using assms d by (cases "Parse (reqCronExpr req)") (auto simp: createJob_def writeError_def writeJSON_def)
  obtain i w1 where 1: "(if reqID req = [] then generateID env w else (reqID req, w)) = (i, w1)" by fastforce
  obtain t1 w2 where 2: "apiNow env w1 = (t1, w2)" by fastforce
  obtain t2 w3 where 3: "apiNow env w2 = (t2, w3)" by fastforce
  obtain r w4 where 4: "generateID env w3 = (r, w4)" by fastforce
  obtain e w5 where 5: "stSubmit env (upsertOf r (jobOf req i expr t1 t2)) w4 = (e, w5)" by fastforce
  have ok: "ok w4"
    using assms(1) 1 2 3 4 gen_ok clock_ok by (metis prod.inject)
  have "resp = createOutcome (jobOf req i expr t1 t2) e" "w' = w5"
    using createJob_valid [OF p 1 2 3 4 5] assms(2) d by simp_all
  moreover from this have "e = None"
    using assms(3) by (auto simp: createOutcome_def writeError_def writeJSON_def split: option.splits submit_error.splits)
  ultimately show ?thesis using that ok 5 by (simp add: createOutcome_def writeJSON_def)
qed

lemma create_then_get:
  assumes "ok w" "createJob env decoded w = ((201, JobBody job), w')"
  shows "\<exists>runs. getJob env (jobID job) w' = (200, DetailBody job runs)"
proof -
  obtain r job' w1 where "ok w1" "stSubmit env (upsertOf r job') w1 = (None, w')"
    "(201 :: int, JobBody job) = (201, JobBody job')"
    by (rule createJob_submits [OF assms]) simp_all
  with upsert_get [OF this(1,2)] show ?thesis by (simp add: getJob_def writeJSON_def upsertOf_def)
qed

lemma delete_then_get:
  assumes "ok w" "deleteJob env i w = ((204, b), w')"
  shows "getJob env i w' = (404, ErrorBody (NotFound i)) \<and> stGetRuns env i w' = []"
proof -
  obtain r w1 where 1: "generateID env w = (r, w1)" by fastforce
  obtain e w2 where 2: "stSubmit env (deleteOf r i) w1 = (e, w2)" by fastforce
  have "e = None" "w2 = w'"
    using assms(2) 1 2 by (auto simp: deleteJob_def Let_def writeError_def writeJSON_def split: if_splits option.splits submit_error.splits)
  with delete_get [OF gen_ok [OF assms(1) 1], of "deleteOf r i" w'] 2 show ?thesis
    by (auto simp: getJob_def deleteOf_def writeError_def writeJSON_def split: prod.split)
qed

end


section \<open>The API of a node\<close>

text \<open>
  The API wired as \<open>main\<close> wires it: to the node's store, scheduler and Raft peer.  The goroutine
  \<open>FireNow\<close> starts is run at once; \<open>ks\<close> is the order in which the job map is visited.
\<close>

definition nodeApi :: "string list \<Rightarrow> node api_env" where
  "nodeApi ks = \<lparr>stSubmit = submitNode, stGetJob = (\<lambda>i w. GetJob i (nodeStore w)),
     stListJobs = (\<lambda>w. ListJobs ks (nodeStore w)), stGetRuns = (\<lambda>i w. GetRuns i (nodeStore w)),
     scFireNow = (\<lambda>i w. case FireNow i (nodeStore w) of Inl e \<Rightarrow> (Some e, w)
                        | Inr j \<Rightarrow> (None, fireJob nodeSched j (nodeClock w) w)),
     lcGetState = (\<lambda>w. GetState (nodeRaft w)), apiRand = randNode, apiNow = (\<lambda>w. (nodeClock w, w))\<rparr>"

lemma nodeApi_simps [simp]:
  "stSubmit (nodeApi ks) = submitNode" "stGetJob (nodeApi ks) i w = GetJob i (nodeStore w)"
  "stListJobs (nodeApi ks) w = ListJobs ks (nodeStore w)" "stGetRuns (nodeApi ks) i w = GetRuns i (nodeStore w)"
  "lcGetState (nodeApi ks) w = GetState (nodeRaft w)" "apiRand (nodeApi ks) = randNode"
  "apiNow (nodeApi ks) w = (nodeClock w, w)"
  by (simp_all add: nodeApi_def)

lemma generateID_node [simp]: "generateID (nodeApi ks) w = reqNode w"
  by (simp add: generateID_def reqNode_def randNode_def)

lemma submitNode_keeps: "nodeOk w \<Longrightarrow> submitNode c w = (e, w') \<Longrightarrow> nodeOk w'"
  using submitNode_spec [of w c] by (auto simp: nodeOk_def)

lemma submitNode_nil:
  "nodeOk w \<Longrightarrow> submitNode c w = (None, w') \<Longrightarrow> storeView (nodeStore w') = storeView (applySwitch c (nodeStore w))"
  using submitNode_spec [of w c] by auto

lemma nodeOk_reqs [simp]: "nodeOk (w\<lparr>nodeReqs := k\<rparr>) = nodeOk w"
  by (simp add: nodeOk_def)

interpretation node_store: job_store "nodeApi ks" nodeOk for ks
proof
  fix w w' :: node and c
  assume w: "nodeOk w" and s: "stSubmit (nodeApi ks) c w = (None, w')"
  then have v: "jobs (nodeStore w') = jobs (applySwitch c (nodeStore w))"
    "runs (nodeStore w') = runs (applySwitch c (nodeStore w))"
    using submitNode_nil [OF w, of c w'] by (simp_all add: storeView_def)
  show "stGetJob (nodeApi ks) (jobID (cmdJob c)) w' = (cmdJob c, True)" if "cmdType c = CmdUpsert"
    using v that by (simp add: GetJob_def applySwitch_def)
  show "\<not> snd (stGetJob (nodeApi ks) (cmdID c) w') \<and> stGetRuns (nodeApi ks) (cmdID c) w' = []" if "cmdType c = CmdDelete"
    using v that by (simp add: GetJob_def GetRuns_def applySwitch_def CmdDelete_def CmdUpsert_def goIndex_def)
qed (auto simp: randNode_def intro: submitNode_keeps)


section \<open>Properties\<close>

text \<open>
  C30: A job whose creation was answered with 201 can be read at once from the same node, with exactly
  the fields the response showed.
\<close>

theorem created_job_is_readable:
  assumes "nodeOk w" and "createJob (nodeApi ks) decoded w = ((201, JobBody job), w')"
  shows "\<exists>runs. getJob (nodeApi ks) (jobID job) w' = (200, DetailBody job runs)"
  using assms by (rule node_store.create_then_get)

definition midnightReq :: createJobReq where
  "midnightReq = \<lparr>reqID = ''a'', reqName = ''n'', reqCronExpr = ''0 0 1 * *'', reqExecutor = ''kafka'',
     reqPayload = ''t:m'', reqCatchupPolicy = []\<rparr>"

lemma create_on_leader:
  assumes "nodeOk w" "leading w"
  shows "\<exists>job w'. createJob (nodeApi ks) (Inr midnightReq) w = ((201, JobBody job), w') \<and> jobID job = ''a''
    \<and> CatchupPolicy job = ''skip'' \<and> nodeOk w' \<and> leading w'"
proof -
  define e where "e = \<lparr>second = 0, minute = 1 :: 64 word, hour = 1, dayOfMonth = 2, month = 8190, dayOfWeek = 127\<rparr>"
  have p: "Parse ''0 0 1 * *'' = Inr e" unfolding e_def by code_simp
  obtain r w1 where g: "reqNode w = (r, w1)" by fastforce
  then have w1: "nodeOk w1" "leading w1" using assms by (auto simp: reqNode_def nodeOk_def leading_def)
  let ?job = "jobOf midnightReq ''a'' e (nodeClock w) (nodeClock w)"
  obtain w5 where s: "submitNode (upsertOf r ?job) w1 = (None, w5)" "nodeOk w5" "leading w5"
    using submitNode_leading [OF w1, of "upsertOf r ?job"] by (metis prod.collapse)
  have "createJob (nodeApi ks) (Inr midnightReq) w = (createOutcome ?job None, w5)"
    by (rule createJob_valid [where ?w1.0 = w and ?w2.0 = w and ?w3.0 = w]) (use p g s in \<open>simp_all add: midnightReq_def\<close>)
  with s show ?thesis by (auto simp: createOutcome_def writeJSON_def jobOf_def midnightReq_def)
qed

theorem created_job_is_readable_witness:
  "\<exists>job w' runs. createJob (nodeApi []) (Inr midnightReq) leaderNode = ((201, JobBody job), w')
     \<and> getJob (nodeApi []) ''a'' w' = (200, DetailBody job runs)"
proof -
  obtain job w' where c: "createJob (nodeApi []) (Inr midnightReq) leaderNode = ((201, JobBody job), w')" "jobID job = ''a''"
    using create_on_leader [OF leaderNode_ok] by blast
  from created_job_is_readable [OF leaderNode_ok(1) c(1)] c show ?thesis by auto
qed


text \<open>
  C31: After a deletion answered with 204 the job is gone from the node: reading it gives 404 and its run
  history is empty.
\<close>

theorem deleted_job_is_gone:
  assumes "nodeOk w" and "deleteJob (nodeApi ks) i w = ((204, b), w')"
  shows "getJob (nodeApi ks) i w' = (404, ErrorBody (NotFound i)) \<and> GetRuns i (nodeStore w') = []"
  using node_store.delete_then_get [OF assms] by simp

lemma delete_on_leader:
  assumes "nodeOk w" "leading w" "getJob (nodeApi ks) i w = (200, b)"
  shows "\<exists>w'. deleteJob (nodeApi ks) i w = ((204, NoBody), w')"
proof -
  obtain r w1 where g: "reqNode w = (r, w1)" by fastforce
  then have w1: "nodeOk w1" "leading w1" using assms by (auto simp: reqNode_def leading_def)
  obtain w2 where "submitNode (deleteOf r i) w1 = (None, w2)"
    using submitNode_leading [OF w1, of "deleteOf r i"] by (metis prod.collapse)
  moreover have "snd (GetJob i (nodeStore w))"
    using assms(3) by (auto simp: getJob_def writeError_def writeJSON_def split: prod.splits if_splits)
  ultimately show ?thesis using g by (simp add: deleteJob_def)
qed

theorem deleted_job_is_gone_witness:
  "\<exists>w1 w2. deleteJob (nodeApi []) ''a'' w1 = ((204, NoBody), w2)
     \<and> getJob (nodeApi []) ''a'' w2 = (404, ErrorBody (NotFound ''a''))"
proof -
  obtain job w1 where c: "createJob (nodeApi []) (Inr midnightReq) leaderNode = ((201, JobBody job), w1)"
    "jobID job = ''a''" "nodeOk w1" "leading w1"
    using create_on_leader [OF leaderNode_ok] by blast
  obtain runs where "getJob (nodeApi []) ''a'' w1 = (200, DetailBody job runs)"
    using node_store.create_then_get [OF leaderNode_ok(1) c(1)] c(2) by auto
  from delete_on_leader [OF c(3,4) this] obtain w2 where d: "deleteJob (nodeApi []) ''a'' w1 = ((204, NoBody), w2)" by blast
  from deleted_job_is_gone [OF c(3) d] d show ?thesis by blast
qed

text \<open>
  C32: A node that is not the leader answers every well-formed creation and every deletion of an existing
  job with 409, and its store stays exactly as it was.
\<close>

theorem follower_rejects_writes:
  assumes "nodeOk w" and "state (nodeRaft w) \<noteq> leader" and "Parse (reqCronExpr req) = Inr e"
    and "snd (GetJob i (nodeStore w))"
  shows "(\<exists>w'. createJob (nodeApi ks) (Inr req) w = ((409, ErrorBody NotLeaderRetry), w') \<and> nodeStore w' = nodeStore w)
    \<and> (\<exists>w'. deleteJob (nodeApi ks) i w = ((409, ErrorBody NotLeader), w') \<and> nodeStore w' = nodeStore w)"
proof
  have gen: "nodeOk w1 \<and> state (nodeRaft w1) \<noteq> leader \<and> nodeStore w1 = nodeStore w0"
    if "reqNode w0 = (r, w1)" "nodeOk w0" "state (nodeRaft w0) \<noteq> leader" for w0 w1 r
    using that by (auto simp: reqNode_def)
  obtain k w1 where 1: "(if reqID req = [] then reqNode w else (reqID req, w)) = (k, w1)" by fastforce
  with gen [of w k w1] assms(1,2) have w1: "nodeOk w1 \<and> state (nodeRaft w1) \<noteq> leader \<and> nodeStore w1 = nodeStore w"
    by (auto split: if_splits)
  obtain r w2 where 2: "reqNode w1 = (r, w2)" by fastforce
  with gen w1 have w2: "nodeOk w2 \<and> state (nodeRaft w2) \<noteq> leader \<and> nodeStore w2 = nodeStore w" by metis
  let ?job = "jobOf req k e (nodeClock w1) (nodeClock w1)"
  obtain w3 where s: "submitNode (upsertOf r ?job) w2 = (Some ErrNotLeader, w3)" "nodeStore w3 = nodeStore w"
    using submitNode_follower w2 by metis
  have "createJob (nodeApi ks) (Inr req) w = (createOutcome ?job (Some ErrNotLeader), w3)"
    by (rule createJob_valid [where ?w2.0 = w1 and ?w3.0 = w1]) (use assms(3) 1 2 s in \<open>simp_all split: if_splits\<close>)
  with s(2) show "\<exists>w'. createJob (nodeApi ks) (Inr req) w = ((409, ErrorBody NotLeaderRetry), w') \<and> nodeStore w' = nodeStore w"
    by (auto simp: createOutcome_def writeError_def writeJSON_def)
  obtain q w4 where 4: "reqNode w = (q, w4)" by fastforce
  with gen assms(1,2) have w4: "nodeOk w4 \<and> state (nodeRaft w4) \<noteq> leader \<and> nodeStore w4 = nodeStore w" by metis
  obtain w5 where "submitNode (deleteOf q i) w4 = (Some ErrNotLeader, w5)" "nodeStore w5 = nodeStore w"
    using submitNode_follower w4 by metis
  with 4 assms(4) show "\<exists>w'. deleteJob (nodeApi ks) i w = ((409, ErrorBody NotLeader), w') \<and> nodeStore w' = nodeStore w"
    by (auto simp: deleteJob_def writeError_def writeJSON_def)
qed

definition followerNode :: node where
  "followerNode = leaderNode\<lparr>nodeRaft := (leaderAt 1)\<lparr>state := follower\<rparr>,
     nodeStore := (makeStore True None)\<lparr>jobs := [''a'' \<mapsto> midnightJob]\<rparr>\<rparr>"

theorem follower_rejects_writes_witness:
  "\<exists>w'. createJob (nodeApi []) (Inr midnightReq) followerNode = ((409, ErrorBody NotLeaderRetry), w')
     \<and> nodeStore w' = nodeStore followerNode"
proof -
  have w: "waiters_ok ((makeStore True None)\<lparr>jobs := [''a'' \<mapsto> midnightJob]\<rparr>)"
    by (rule waiters_ok_frame [OF waiters_ok_make]) simp_all
  have f: "nodeOk followerNode" "state (nodeRaft followerNode) \<noteq> leader" "snd (GetJob ''a'' (nodeStore followerNode))"
    using w by (simp_all add: followerNode_def nodeOk_def GetJob_def) (simp add: makeStore_def)
  have "Parse (reqCronExpr midnightReq) =
      Inr \<lparr>second = 0, minute = 1, hour = 1, dayOfMonth = 2, month = 8190, dayOfWeek = 127\<rparr>"
    unfolding midnightReq_def by code_simp
  from follower_rejects_writes [OF f(1,2) this f(3)] show ?thesis by blast
qed

end
