(* ===== verification/Raft_Rpc.thy ===== *)
theory Raft_Rpc
  imports Raft_Node
begin

text \<open>
  Remote calls, \<open>src/internal/raft/rpc.go\<close>: the client side \<open>Peer.Call\<close>, and the adapter
  that puts a peer's three handlers behind the service name \<open>Raft\<close> that \<open>main\<close> registers.

  What \<open>net/rpc\<close> does between them is a parameter, the pair of functions \<open>dial\<close> and \<open>invoke\<close> on a
  world.  The locale \<open>transport\<close> states what the callers rely on: a call that returns a reply was
  handled by the peer at that address, once, and the reply is what its handler filled in.  A call
  that fails may or may not have been handled.  It is interpreted on a network that can lose a
  connection, a request or a reply.
\<close>

section \<open>Calls\<close>

datatype ('c, 'b) rpc_args =
    VoteArgs RequestVoteArgs
  | AppendArgs "'c AppendEntriesArgs"
  | InstallArgs "'b InstallSnapshotArgs"

datatype rpc_reply =
    VoteReplied RequestVoteReply
  | AppendReplied AppendEntriesReply
  | InstallReplied InstallSnapshotReply

datatype rpc_error = NoMethod string | WrongArgs string | Broken

definition Peer_Call ::
    "(string \<Rightarrow> 'w \<Rightarrow> bool \<times> 'w) \<Rightarrow> (string \<Rightarrow> string \<Rightarrow> 'a \<Rightarrow> 'w \<Rightarrow> (rpc_error + 'r) \<times> 'w) \<Rightarrow>
     Peer \<Rightarrow> string \<Rightarrow> 'a \<Rightarrow> 'r \<Rightarrow> 'w \<Rightarrow> (bool \<times> 'r) \<times> 'w" where
  "Peer_Call dial invoke p method args reply w =
     (let (ok, w) = dial (addr p) w in
      if \<not> ok then ((False, reply), w)
      else
        (case invoke (addr p) method args w of
           (Inl err, w) \<Rightarrow> ((False, reply), w)
         | (Inr r, w) \<Rightarrow> ((True, r), w)))"

text \<open>The handlers of the adapter never return an error; they fill in the reply.\<close>

definition RPCAdapter_RequestVote ::
    "int \<Rightarrow> RequestVoteArgs \<Rightarrow> ('c, 'b) Raft \<Rightarrow> ((rpc_error + rpc_reply) \<times> ('c, 'b) Raft) option" where
  "RPCAdapter_RequestVote now args rf =
     do { (reply, rf) \<leftarrow> RequestVote now args rf; Some (Inr (VoteReplied reply), rf) }"

definition RPCAdapter_AppendEntries ::
    "int \<Rightarrow> 'c AppendEntriesArgs \<Rightarrow> ('c, 'b) Raft \<Rightarrow> ((rpc_error + rpc_reply) \<times> ('c, 'b) Raft) option" where
  "RPCAdapter_AppendEntries now args rf =
     do { (reply, rf) \<leftarrow> AppendEntries now args rf; Some (Inr (AppendReplied reply), rf) }"

definition RPCAdapter_InstallSnapshot ::
    "int \<Rightarrow> 'b InstallSnapshotArgs \<Rightarrow> ('c, 'b) Raft \<Rightarrow> ((rpc_error + rpc_reply) \<times> ('c, 'b) Raft) option" where
  "RPCAdapter_InstallSnapshot now args rf =
     do { (reply, rf) \<leftarrow> InstallSnapshot now args rf; Some (Inr (InstallReplied reply), rf) }"

text \<open>
  What a server with the adapter registered as \<open>Raft\<close> does with a call: the method after the dot is
  run, a method it does not have or arguments of another type give an error.
\<close>

definition serveCall ::
    "int \<Rightarrow> string \<Rightarrow> ('c, 'b) rpc_args \<Rightarrow> ('c, 'b) Raft \<Rightarrow> ((rpc_error + rpc_reply) \<times> ('c, 'b) Raft) option" where
  "serveCall now method args rf =
     (if method = ''Raft.RequestVote'' then
        (case args of VoteArgs a \<Rightarrow> RPCAdapter_RequestVote now a rf | _ \<Rightarrow> Some (Inl (WrongArgs method), rf))
      else if method = ''Raft.AppendEntries'' then
        (case args of AppendArgs a \<Rightarrow> RPCAdapter_AppendEntries now a rf | _ \<Rightarrow> Some (Inl (WrongArgs method), rf))
      else if method = ''Raft.InstallSnapshot'' then
        (case args of InstallArgs a \<Rightarrow> RPCAdapter_InstallSnapshot now a rf | _ \<Rightarrow> Some (Inl (WrongArgs method), rf))
      else Some (Inl (NoMethod method), rf))"

text \<open>The calls the peer's goroutines make.\<close>

fun methodOf :: "('c, 'b) rpc_args \<Rightarrow> string" where
  "methodOf (VoteArgs a) = ''Raft.RequestVote''"
| "methodOf (AppendArgs a) = ''Raft.AppendEntries''"
| "methodOf (InstallArgs a) = ''Raft.InstallSnapshot''"

definition sendRequestVote ::
    "(string \<Rightarrow> 'w \<Rightarrow> bool \<times> 'w) \<Rightarrow> (string \<Rightarrow> string \<Rightarrow> ('c, 'b) rpc_args \<Rightarrow> 'w \<Rightarrow> (rpc_error + 'r) \<times> 'w) \<Rightarrow>
     int \<Rightarrow> RequestVoteArgs \<Rightarrow> 'r \<Rightarrow> ('c, 'b) Raft \<Rightarrow> 'w \<Rightarrow> ((bool \<times> 'r) \<times> 'w) option" where
  "sendRequestVote dial invoke server args reply rf w =
     do { p \<leftarrow> go_nth (peers rf) server;
          Some (Peer_Call dial invoke p ''Raft.RequestVote'' (VoteArgs args) reply w) }"


section \<open>What the callers rely on\<close>

text \<open>What the handler of a request does, as the cluster model has it.\<close>

fun handled ::
    "int \<Rightarrow> ('c, 'b) rpc_args \<Rightarrow> ('c, 'b) Raft \<Rightarrow> (rpc_reply \<times> ('c, 'b) Raft) option" where
  "handled now (VoteArgs a) rf = map_option (map_prod VoteReplied id) (RequestVote now a rf)"
| "handled now (AppendArgs a) rf = map_option (map_prod AppendReplied id) (AppendEntries now a rf)"
| "handled now (InstallArgs a) rf = map_option (map_prod InstallReplied id) (InstallSnapshot now a rf)"

lemma serveCall_handled:
  "serveCall now (methodOf args) args rf = map_option (map_prod Inr id) (handled now args rf)"
  by (cases args)
    (auto simp: serveCall_def RPCAdapter_RequestVote_def RPCAdapter_AppendEntries_def RPCAdapter_InstallSnapshot_def
      map_option_case split: option.splits)

locale transport =
  fixes dial :: "string \<Rightarrow> 'w \<Rightarrow> bool \<times> 'w"
    and invoke :: "string \<Rightarrow> string \<Rightarrow> ('c, 'b) rpc_args \<Rightarrow> 'w \<Rightarrow> (rpc_error + rpc_reply) \<times> 'w"
    and peerAt :: "'w \<Rightarrow> string \<Rightarrow> ('c, 'b) Raft option"
  assumes dial_quiet: "dial a w = (ok, w') \<Longrightarrow> peerAt w' = peerAt w"
    and invoke_replied: "invoke a m args w = (Inr r, w') \<Longrightarrow>
      \<exists>now rf rf'. peerAt w a = Some rf \<and> serveCall now m args rf = Some (Inr r, rf') \<and> peerAt w' = (peerAt w)(a \<mapsto> rf')"
    and invoke_failed: "invoke a m args w = (Inl e, w') \<Longrightarrow>
      peerAt w' = peerAt w \<or> (\<exists>now rf r rf'. peerAt w a = Some rf \<and> serveCall now m args rf = Some (r, rf')
        \<and> peerAt w' = (peerAt w)(a \<mapsto> rf'))"
begin

lemma call_replied:
  assumes "Peer_Call dial invoke p (methodOf args) args reply w = ((True, r), w')"
  shows "\<exists>now rf rf'. peerAt w (addr p) = Some rf \<and> handled now args rf = Some (r, rf') \<and> peerAt w' = (peerAt w)(addr p \<mapsto> rf')"
proof -
  obtain w1 where d: "dial (addr p) w = (True, w1)" "invoke (addr p) (methodOf args) args w1 = (Inr r, w')"
    using assms by (auto simp: Peer_Call_def Let_def split: prod.splits if_splits sum.splits)
  from invoke_replied [OF d(2)] dial_quiet [OF d(1)] show ?thesis
    by (auto simp: serveCall_handled)
qed

lemma call_failed:
  assumes "Peer_Call dial invoke p (methodOf args) args reply w = ((False, r), w')"
  shows "r = reply \<and> (peerAt w' = peerAt w \<or>
    (\<exists>now rf r' rf'. peerAt w (addr p) = Some rf \<and> handled now args rf = Some (r', rf') \<and> peerAt w' = (peerAt w)(addr p \<mapsto> rf')))"
proof -
  obtain ok w1 where d: "dial (addr p) w = (ok, w1)" by fastforce
  note quiet = dial_quiet [OF d]
  show ?thesis
  proof (cases ok)
    case False
    with assms d quiet show ?thesis by (simp add: Peer_Call_def)
  next
    case True
    then obtain e where i: "invoke (addr p) (methodOf args) args w1 = (Inl e, w')" "r = reply"
      using assms d by (auto simp: Peer_Call_def split: prod.splits sum.splits)
    from invoke_failed [OF i(1)] quiet i(2) show ?thesis
      by (auto simp: serveCall_handled)
  qed
qed

end

text \<open>
  A network: the peers at their addresses, the clock, and for every call so far its fate.
\<close>

datatype fate = Unreachable | RequestLost | ReplyLost | Answered

record ('c, 'b) network =
  netPeers :: "string \<Rightarrow> ('c, 'b) Raft option"
  netClock :: int
  netFates :: "fate list"

definition netDial :: "string \<Rightarrow> ('c, 'b) network \<Rightarrow> bool \<times> ('c, 'b) network" where
  "netDial a w =
     (case netFates w of
        [] \<Rightarrow> (False, w)
      | f # fs \<Rightarrow> if f = Unreachable \<or> netPeers w a = None then (False, w\<lparr>netFates := fs\<rparr>) else (True, w))"

definition netInvoke ::
    "string \<Rightarrow> string \<Rightarrow> ('c, 'b) rpc_args \<Rightarrow> ('c, 'b) network \<Rightarrow> (rpc_error + rpc_reply) \<times> ('c, 'b) network" where
  "netInvoke a m args w =
     (let w' = w\<lparr>netFates := tl (netFates w)\<rparr> in
      case (netFates w, netPeers w a) of
        (ReplyLost # fs, Some rf) \<Rightarrow>
          (case serveCall (netClock w) m args rf of
             None \<Rightarrow> (Inl Broken, w')
           | Some (r, rf') \<Rightarrow> (Inl Broken, w'\<lparr>netPeers := (netPeers w)(a \<mapsto> rf')\<rparr>))
      | (Answered # fs, Some rf) \<Rightarrow>
          (case serveCall (netClock w) m args rf of
             None \<Rightarrow> (Inl Broken, w')
           | Some (r, rf') \<Rightarrow> (r, w'\<lparr>netPeers := (netPeers w)(a \<mapsto> rf')\<rparr>))
      | _ \<Rightarrow> (Inl Broken, w'))"

lemma netInvoke_cases:
  assumes "netInvoke a m args w = (r, w')"
  obtains (unseen) e where "r = Inl e" "netPeers w' = netPeers w"
  | (lost) e rf r' rf' where "r = Inl e" "netPeers w a = Some rf" "serveCall (netClock w) m args rf = Some (r', rf')"
      "netPeers w' = (netPeers w)(a \<mapsto> rf')"
  | (answered) rf rf' where "netPeers w a = Some rf" "serveCall (netClock w) m args rf = Some (r, rf')"
      "netPeers w' = (netPeers w)(a \<mapsto> rf')"
  using assms
  by (auto simp: netInvoke_def Let_def split: list.splits fate.splits option.splits prod.splits)

interpretation net: transport netDial netInvoke netPeers
proof
  fix a and w w' :: "('c, 'b) network" and ok
  assume "netDial a w = (ok, w')"
  then show "netPeers w' = netPeers w" by (auto simp: netDial_def split: list.splits if_splits)
next
  fix a m and args :: "('c, 'b) rpc_args" and w w' r
  assume "netInvoke a m args w = (Inr r, w')"
  then show "\<exists>now rf rf'. netPeers w a = Some rf \<and> serveCall now m args rf = Some (Inr r, rf')
      \<and> netPeers w' = (netPeers w)(a \<mapsto> rf')"
    by (cases rule: netInvoke_cases) auto
next
  fix a m and args :: "('c, 'b) rpc_args" and w w' e
  assume "netInvoke a m args w = (Inl e, w')"
  then show "netPeers w' = netPeers w \<or> (\<exists>now rf r rf'. netPeers w a = Some rf \<and> serveCall now m args rf = Some (r, rf')
      \<and> netPeers w' = (netPeers w)(a \<mapsto> rf'))"
    by (cases rule: netInvoke_cases) auto
qed


section \<open>Properties\<close>


definition firstVote :: "(nat, nat) rpc_args" where
  "firstVote = VoteArgs \<lparr>rvTerm = 1, rvCandidateId = 0, rvLastLogIndex = 0, rvLastLogTerm = 0\<rparr>"

definition smallNet :: "(nat, nat) network" where
  "smallNet = \<lparr>netPeers = [''h:1'' \<mapsto> Make [NewPeer ''h:0'', NewPeer ''h:1''] 1 MakePersister 0], netClock = 7, netFates = [Answered]\<rparr>"


end
