(* ===== verification/Raft_Loops.thy ===== *)
theory Raft_Loops
  imports Raft_Log
begin

text \<open>
  The loops of a peer's goroutines, \<open>electionTimeoutLoop\<close>, \<open>heartbeatLoop\<close>, \<open>applyLoop\<close> and the
  unused \<open>ticker\<close> of \<open>src/internal/raft/raft.go\<close>, one turn at a time: a goroutine is at a place of its
  loop, and a turn takes it to the next place, running at most one critical section of the peer in
  between.  Other goroutines may run between any two turns.
\<close>

section \<open>Places and turns\<close>

text \<open>Durations are in milliseconds here; \<open>r\<close> is what \<open>rand.Intn(150)\<close> returns.\<close>

datatype election_place = ElectionHead | Asleep int | ElectionEnd

fun electionTimeoutLoop ::
    "int \<Rightarrow> int \<Rightarrow> election_place \<Rightarrow> ('c, 'b) Raft
       \<Rightarrow> (election_place \<times> ('c, 'b) Raft \<times> (nat \<times> RequestVoteArgs) list) option" where
  "electionTimeoutLoop r now ElectionHead rf = Some (if killed rf then ElectionEnd else Asleep (250 + r), rf, [])"
| "electionTimeoutLoop r now (Asleep d) rf =
     do { (rf, reqs) \<leftarrow> electionTimeout now d rf; Some (ElectionHead, rf, reqs) }"
| "electionTimeoutLoop r now ElectionEnd rf = Some (ElectionEnd, rf, [])"

datatype heartbeat_place = HeartbeatHead | CheckLeader | SendRound | HeartbeatEnd

fun heartbeatLoop :: "heartbeat_place \<Rightarrow> ('c, 'b) Raft \<Rightarrow> heartbeat_place \<times> (int \<times> int \<times> int) option" where
  "heartbeatLoop HeartbeatHead rf = (if killed rf then HeartbeatEnd else CheckLeader, None)"
| "heartbeatLoop CheckLeader rf = (if state rf \<noteq> leader then HeartbeatEnd else SendRound, None)"
| "heartbeatLoop SendRound rf = (HeartbeatHead, Some (sendHeartbeats_begin rf))"
| "heartbeatLoop HeartbeatEnd rf = (HeartbeatEnd, None)"

datatype apply_place = ApplyHead | TopOfTurn | InGap | ApplyEnd

text \<open>A message is sent with the lock released; the loop goes on when the service has taken it.\<close>

definition afterSend :: "('c, 'b) ApplyMsg option \<Rightarrow> apply_place" where
  "afterSend m = (case m of None \<Rightarrow> ApplyHead | Some msg \<Rightarrow> if CommandValid msg then InGap else ApplyHead)"

fun applyLoop ::
    "apply_place \<Rightarrow> ('c, 'b) Raft \<Rightarrow> (apply_place \<times> ('c, 'b) ApplyMsg option \<times> ('c, 'b) Raft) option" where
  "applyLoop ApplyHead rf = Some (if killed rf then ApplyEnd else TopOfTurn, None, rf)"
| "applyLoop TopOfTurn rf = do { (m, rf) \<leftarrow> applyTop rf; Some (afterSend m, m, rf) }"
| "applyLoop InGap rf = do { (m, rf) \<leftarrow> applyGap rf; Some (afterSend m, m, rf) }"
| "applyLoop ApplyEnd rf = Some (ApplyEnd, None, rf)"

text \<open>The loop of \<open>ticker\<close> has an empty body: it goes round until the peer is killed.\<close>

definition ticker :: "bool \<Rightarrow> ('c, 'b) Raft \<Rightarrow> bool" where
  "ticker running rf = (running \<and> \<not> killed rf)"


section \<open>Killed peers\<close>

lemma handle_killed:
  assumes "handle ev rf = Some rf'" "killed rf" shows "killed rf'"
  using assms
proof (cases ev)
  case (EvAppendEntries now args)
  with assms show ?thesis by (auto simp: killed_def aeAccepted_def aeCommitted_def elim!: AppendEntries_cases)
next
  case (EvInstallSnapshot now args)
  with assms show ?thesis by (auto simp: killed_def isInstalled_def isAccepted_def elim!: InstallSnapshot_cases)
next
  case (EvAppendReply p args reply)
  with assms show ?thesis by (auto simp: killed_def elim!: onAppendReply_frame)
next
  case (EvSnapshotReply p args reply)
  with assms show ?thesis by (auto simp: killed_def elim!: onSnapshotReply_frame)
next
  case EvApplyTop
  with assms show ?thesis by (auto simp: killed_def applyTop_def split: option.splits dest: applyGap_frame)
next
  case EvApplyGap
  with assms show ?thesis by (auto simp: killed_def dest: applyGap_frame)
qed (auto simp: killed_def Kill_def RequestVote_def electionTimeout_def startElection_def onVoteReply_def becomeLeader_def
    Start_def Snapshot_def Let_def bind_Some_conv split: if_splits)

lemma handles_killed: "handles evs rf = Some rf' \<Longrightarrow> killed rf \<Longrightarrow> killed rf'"
  by (induction evs arbitrary: rf) (auto simp: bind_Some_conv dest: handle_killed)

text \<open>
  Turns of a loop, before each of which other goroutines run the critical sections \<open>evs\<close>.
\<close>

fun electionTurns ::
    "(('c, 'b) event list \<times> int \<times> int) list \<Rightarrow> election_place \<times> ('c, 'b) Raft \<Rightarrow> (election_place \<times> ('c, 'b) Raft) option" where
  "electionTurns [] x = Some x"
| "electionTurns ((evs, r, now) # ts) (pl, rf) =
     do { rf \<leftarrow> handles evs rf;
          (pl, rf, reqs) \<leftarrow> electionTimeoutLoop r now pl rf;
          electionTurns ts (pl, rf) }"

fun heartbeatTurns ::
    "('c, 'b) event list list \<Rightarrow> heartbeat_place \<times> ('c, 'b) Raft \<Rightarrow> (heartbeat_place \<times> ('c, 'b) Raft) option" where
  "heartbeatTurns [] x = Some x"
| "heartbeatTurns (evs # ts) (pl, rf) =
     do { rf \<leftarrow> handles evs rf; heartbeatTurns ts (fst (heartbeatLoop pl rf), rf) }"

primrec applyTurns :: "nat \<Rightarrow> apply_place \<times> ('c, 'b) Raft \<Rightarrow> (apply_place \<times> ('c, 'b) Raft) option" where
  "applyTurns 0 x = Some x"
| "applyTurns (Suc n) x = do { (pl, m, rf) \<leftarrow> applyLoop (fst x) (snd x); applyTurns n (pl, rf) }"

text \<open>Turns that a loop of a killed peer has left.\<close>

fun electionLeft :: "election_place \<Rightarrow> nat" where
  "electionLeft ElectionEnd = 0"
| "electionLeft ElectionHead = 1"
| "electionLeft (Asleep d) = 2"

fun heartbeatLeft :: "heartbeat_place \<Rightarrow> nat" where
  "heartbeatLeft HeartbeatEnd = 0"
| "heartbeatLeft HeartbeatHead = 1"
| "heartbeatLeft SendRound = 2"
| "heartbeatLeft CheckLeader = 3"

lemma election_turn:
  assumes "electionTimeoutLoop r now pl rf = Some (pl', rf', reqs)" "killed rf"
  shows "electionLeft pl' \<le> electionLeft pl - 1 \<and> killed rf'"
  using assms handle_killed [of "EvTimeout now _" rf rf'] by (cases pl) (auto simp: bind_Some_conv split: if_splits)

lemma electionTurns_end:
  assumes "electionTurns ts (pl, rf) = Some (pl', rf')" "killed rf" "electionLeft pl \<le> length ts"
  shows "pl' = ElectionEnd"
  using assms
proof (induction ts arbitrary: pl rf)
  case Nil
  then show ?case by (cases pl) auto
next
  case (Cons t ts)
  obtain evs r now where t: "t = (evs, r, now)" by (cases t)
  then obtain rf1 pl2 rf2 reqs where s: "handles evs rf = Some rf1" "electionTimeoutLoop r now pl rf1 = Some (pl2, rf2, reqs)"
    "electionTurns ts (pl2, rf2) = Some (pl', rf')"
    using Cons.prems(1) by (auto simp: bind_Some_conv)
  have "electionLeft pl2 \<le> electionLeft pl - 1" "killed rf2"
    using election_turn [OF s(2)] handles_killed [OF s(1) Cons.prems(2)] by blast+
  moreover from this(1) have "electionLeft pl2 \<le> length ts" using Cons.prems(3) by simp
  ultimately show ?case using Cons.IH [OF s(3)] by blast
qed

lemma heartbeatTurns_end:
  assumes "heartbeatTurns ts (pl, rf) = Some (pl', rf')" "killed rf" "heartbeatLeft pl \<le> length ts"
  shows "pl' = HeartbeatEnd"
  using assms
proof (induction ts arbitrary: pl rf)
  case Nil
  then show ?case by (cases pl) auto
next
  case (Cons evs ts)
  then obtain rf1 where s: "handles evs rf = Some rf1" "heartbeatTurns ts (fst (heartbeatLoop pl rf1), rf1) = Some (pl', rf')"
    by (auto simp: bind_Some_conv)
  have k: "killed rf1" using handles_killed [OF s(1) Cons.prems(2)] .
  then have "heartbeatLeft (fst (heartbeatLoop pl rf1)) \<le> heartbeatLeft pl - 1" by (cases pl) auto
  also have "\<dots> \<le> length ts" using Cons.prems(3) by simp
  finally show ?case using Cons.IH [OF s(2) k] by blast
qed

lemma applyTurns_stay: "applyTurns n (ApplyEnd, rf) = Some (ApplyEnd, rf)"
  by (induction n) auto

lemma applyTurns_head: "killed rf \<Longrightarrow> 0 < n \<Longrightarrow> applyTurns n (ApplyHead, rf) = Some (ApplyEnd, rf)"
  by (cases n) (auto simp: applyTurns_stay)

lemma applyTurns_gap:
  assumes "wf_raft rf" "killed rf" "nat (commitIndex rf - lastApplied rf) + 2 \<le> n"
  shows "\<exists>rf'. applyTurns n (InGap, rf) = Some (ApplyEnd, rf') \<and> lastApplied rf' = commitIndex rf"
  using assms
proof (induction n arbitrary: rf)
  case (Suc n)
  show ?case
  proof (cases "lastApplied rf < commitIndex rf")
    case True
    define rf1 where "rf1 = rf\<lparr>lastApplied := lastApplied rf + 1\<rparr>"
    obtain c where g: "applyGap rf = Some (Some (commandMsg c (lastApplied rf + 1)), rf1)"
      using applyGap_spec [OF Suc.prems(1)] True by (simp add: rf1_def)
    have "wf_raft rf1" using applyGap_wf [OF Suc.prems(1)] g by auto
    with Suc.IH [of rf1] Suc.prems True g show ?thesis by (simp add: rf1_def killed_def afterSend_def commandMsg_def)
  next
    case False
    then have "applyGap rf = Some (None, rf)" "lastApplied rf = commitIndex rf"
      using applyGap_spec [OF Suc.prems(1)] Suc.prems(1) by (simp_all add: wf_raft_def)
    with applyTurns_head [OF Suc.prems(2), of n] Suc.prems(3) show ?thesis by (simp add: afterSend_def)
  qed
qed simp


section \<open>Properties\<close>



end
