(* ===== verification/Crond.thy ===== *)
theory Crond
  imports Api Raft_Rpc Raft_Loops
begin

text \<open>
  The program \<open>crond\<close>, \<open>src/cmd/crond/main.go\<close>: its configuration from the environment, and the
  node it starts.  The environment and the listener are arguments.
\<close>

section \<open>Start-up\<close>

datatype fatal =
    EnvRequired string
  | MeNotInteger string
  | MeOutOfRange int nat
  | ListenFailed string

record config =
  cfgBindAddr :: string
  cfgPeers :: "Peer list"
  cfgMe :: int
  cfgApiAddr :: string

definition mustEnv :: "(string \<Rightarrow> string) \<Rightarrow> string \<Rightarrow> fatal + string" where
  "mustEnv getenv key = (let v = getenv key in if v = [] then Inl (EnvRequired key) else Inr v)"

text \<open>\<open>main\<close> up to the listener; \<open>listen\<close> says whether an address can be listened on.\<close>

definition readConfig :: "(string \<Rightarrow> string) \<Rightarrow> (string \<Rightarrow> bool) \<Rightarrow> fatal + config" where
  "readConfig getenv listen =
     (case mustEnv getenv ''BIND_ADDR'' of Inl f \<Rightarrow> Inl f | Inr bindAddr \<Rightarrow>
      case mustEnv getenv ''PEERS'' of Inl f \<Rightarrow> Inl f | Inr peersEnv \<Rightarrow>
      case mustEnv getenv ''ME'' of Inl f \<Rightarrow> Inl f | Inr meStr \<Rightarrow>
      case Atoi meStr of None \<Rightarrow> Inl (MeNotInteger meStr) | Some m \<Rightarrow>
        let ps = map (\<lambda>a. NewPeer (TrimSpace a)) (Split peersEnv (CHR '','')) in
        if m < 0 \<or> int (length ps) \<le> m then Inl (MeOutOfRange m (length ps))
        else if \<not> listen bindAddr then Inl (ListenFailed bindAddr)
        else Inr \<lparr>cfgBindAddr = bindAddr, cfgPeers = ps, cfgMe = m, cfgApiAddr = getenv ''API_ADDR''\<rparr>)"

text \<open>The Raft peer, the store and the scheduler's world \<open>main\<close> sets up, all on one new persister.\<close>

definition startNode :: "config \<Rightarrow> exec_env \<Rightarrow> (nat \<Rightarrow> nat \<Rightarrow> 8 word) \<Rightarrow> int \<Rightarrow> node" where
  "startNode cfg env rand now =
     (let pr = MakePersister in
      \<lparr>nodeRaft = Make (cfgPeers cfg) (cfgMe cfg) pr now, nodeStore = makeStore True (Some pr), nodeRan = [],
       nodeClock = now, nodeRandom = rand, nodeReqs = 0, nodeEnv = env, nodeCommits = True, nodeDone = False\<rparr>)"

text \<open>A call to the RPC server: the adapter of this node's peer is registered there as \<open>Raft\<close>.\<close>

definition rpcServer ::
    "int \<Rightarrow> string \<Rightarrow> (Cmd, storeState) rpc_args \<Rightarrow> node \<Rightarrow> ((rpc_error + rpc_reply) \<times> node) option" where
  "rpcServer now method args w =
     do { (r, rf) \<leftarrow> serveCall now method args (nodeRaft w); Some (r, w\<lparr>nodeRaft := rf\<rparr>) }"

text \<open>
  One turn of the goroutine that waits for leadership: on the leader it reconciles once and ends,
  with the jobs to fire; otherwise (\<open>None\<close>) it sleeps and looks again.  \<open>ks\<close> is the order in which
  the job map is visited.
\<close>

definition awaitLeader_step :: "string list \<Rightarrow> node \<Rightarrow> (Job list \<times> node) option" where
  "awaitLeader_step ks w =
     (if snd (GetState (nodeRaft w)) then
        (let (now, w) = timeNow nodeSched w in Some (ReconcileMissedJobs nodeSched now (ListJobs ks (nodeStore w)) w))
      else None)"

text \<open>The handler \<open>main\<close> serves on \<open>API_ADDR\<close>, if that is set.\<close>

definition apiServer ::
    "config \<Rightarrow> string list \<Rightarrow> (string \<Rightarrow> string list \<Rightarrow> string + createJobReq \<Rightarrow> node
       \<Rightarrow> (response \<times> string \<times> string list \<times> int) \<times> node) option" where
  "apiServer cfg ks = (if cfgApiAddr cfg \<noteq> [] then Some (ServeHTTP (nodeApi ks)) else None)"

text \<open>After the signal: \<open>sc.Kill()\<close>, then \<open>rf.Kill()\<close>.\<close>

definition shutdown :: "node \<Rightarrow> node option" where
  "shutdown w =
     do { closed \<leftarrow> Scheduler_Kill (nodeDone w);
          Some (w\<lparr>nodeDone := closed, nodeRaft := Kill (nodeRaft w)\<rparr>) }"

text \<open>After the shutdown the scheduler's loop may end, the loops of the peer end, and a second one panics.\<close>

lemma shutdown_stops:
  assumes "shutdown w = Some w'"
  shows "killed (nodeRaft w')" "tickLoop_ready (nodeDone w') Done" "shutdown w' = None" "nodeStore w' = nodeStore w"
    "handles evs (nodeRaft w') = Some rf \<Longrightarrow> killed rf"
proof -
  show k: "killed (nodeRaft w')" and "tickLoop_ready (nodeDone w') Done" "shutdown w' = None" "nodeStore w' = nodeStore w"
    using assms by (auto simp: shutdown_def Scheduler_Kill_def tickLoop_ready_def bind_Some_conv killed_def Kill_def split: if_splits)
  show "killed rf" if "handles evs (nodeRaft w') = Some rf" using handles_killed [OF that k] .
qed


section \<open>Properties\<close>

text \<open>
  C34: When \<open>main\<close> gets past its configuration, this node's index is a valid position in the peer list,
  and the node starts well formed: its Raft peer is a follower in term 0 with an empty log, which has
  voted for nobody, and its store is empty and has no waiters.
\<close>

theorem node_starts_well_formed:
  assumes "readConfig getenv listen = Inr cfg"
  shows "wf_raft (nodeRaft (startNode cfg env rand now)) \<and> state (nodeRaft (startNode cfg env rand now)) = follower
    \<and> volatileImage (nodeRaft (startNode cfg env rand now)) = (0, - 1, [\<lparr>eTerm = 0, eCommand = None\<rparr>], 0, 0)
    \<and> nodeOk (startNode cfg env rand now) \<and> storeView (nodeStore (startNode cfg env rand now)) = (Map.empty, Map.empty)
    \<and> length (cfgPeers cfg) = length (Split (getenv ''PEERS'') (CHR '',''))"
proof -
  have c: "0 \<le> cfgMe cfg" "cfgMe cfg < int (length (cfgPeers cfg))"
    "length (cfgPeers cfg) = length (Split (getenv ''PEERS'') (CHR '',''))"
    using assms
    by (auto simp: readConfig_def mustEnv_def Let_def split: sum.splits option.splits if_splits)
  show ?thesis
    using c
    by (simp add: startNode_def nodeOk_def waiters_ok_make wf_raft_def volatileImage_def storeView_def
        Make_def readPersist_def lastLogIndex_def)
      (simp add: makeStore_def)
qed

definition sampleEnv :: "string \<Rightarrow> string" where
  "sampleEnv k = (if k = ''BIND_ADDR'' then '':8001'' else if k = ''PEERS'' then ''h1:8001, h2:8002,h3:8003''
                  else if k = ''ME'' then ''1'' else [])"

theorem node_starts_well_formed_witness:
  "\<exists>cfg. readConfig sampleEnv (\<lambda>_. True) = Inr cfg \<and> map addr (cfgPeers cfg) = [''h1:8001'', ''h2:8002'', ''h3:8003'']
     \<and> wf_raft (nodeRaft (startNode cfg quietEnv (\<lambda>_ _. 0) 7))"
proof -
  define cfg where "cfg = \<lparr>cfgBindAddr = '':8001'', cfgPeers = map NewPeer [''h1:8001'', ''h2:8002'', ''h3:8003''],
     cfgMe = 1, cfgApiAddr = []\<rparr>"
  have r: "readConfig sampleEnv (\<lambda>_. True) = Inr cfg" unfolding cfg_def by code_simp
  from node_starts_well_formed [OF r, of quietEnv "\<lambda>_ _. 0" 7] r show ?thesis by (simp add: cfg_def NewPeer_def)
qed

end
