(* ===== verification/Raft_Cluster.thy ===== *)
theory Raft_Cluster
  imports Raft_Apply
begin

text \<open>
  A cluster of Raft peers.

  The peers are those of \<open>Raft_Node\<close>; a step of the cluster is one critical section of one peer
  (a timeout, a request being handled, a reply being handled, a client command, a round of
  heartbeats, one turn of the apply loop, a compaction by the service) or the restart of a peer
  from its persister.  A request waits in the state from the moment the calling goroutine sends it;
  requests and replies may be handled in any order, late or never.  A vote request is handled at
  most once and its reply counted at most once, as \<open>net/rpc\<close> does within one call; append
  and install requests may even be repeated, which only adds behaviours.

  \<open>exec\<close> runs one step of a given name, and \<open>exec_iff_step\<close> shows that it has exactly the steps
  of the relation, so runs of the cluster can be computed.
\<close>

section \<open>The cluster\<close>

text \<open>
  The call a goroutine of an election makes to one peer: the request is on its way, the reply is on
  its way back, the reply was handled, or the call failed.  A call whose goroutine gave up or
  crashed before the peer saw the request is abandoned: the request may still arrive.
\<close>

datatype vote_call =
    NotCalled
  | Calling RequestVoteArgs
  | Replied RequestVoteArgs RequestVoteReply
  | Handled RequestVoteArgs RequestVoteReply
  | Abandoned RequestVoteArgs
  | Failed

fun giveUp :: "vote_call \<Rightarrow> vote_call" where
  "giveUp (Calling args) = Abandoned args"
| "giveUp (Replied args reply) = Failed"
| "giveUp st = st"

record ('c, 'b) cluster =
  nodes :: "nat \<Rightarrow> ('c, 'b) Raft"
  voteCount :: "nat \<Rightarrow> int \<Rightarrow> int"
  voteCalls :: "nat \<Rightarrow> int \<Rightarrow> nat \<Rightarrow> vote_call"
  hbRounds :: "(nat \<times> int \<times> int \<times> int) set"
  appendCalls :: "(nat \<times> nat \<times> 'c AppendEntriesArgs) set"
  appendReplies :: "(nat \<times> nat \<times> 'c AppendEntriesArgs \<times> AppendEntriesReply) set"
  installCalls :: "(nat \<times> nat \<times> 'b InstallSnapshotArgs) set"
  installReplies :: "(nat \<times> nat \<times> 'b InstallSnapshotArgs \<times> InstallSnapshotReply) set"
  inGap :: "nat \<Rightarrow> bool"
  delivered :: "nat \<Rightarrow> ('c, 'b) ApplyMsg list"

definition boot :: "Peer list \<Rightarrow> ('c, 'b) cluster" where
  "boot ps = \<lparr>nodes = (\<lambda>i. Make ps (int i) MakePersister 0), voteCount = (\<lambda>_ _. 0),
     voteCalls = (\<lambda>_ _ _. NotCalled), hbRounds = {}, appendCalls = {}, appendReplies = {},
     installCalls = {}, installReplies = {}, inGap = (\<lambda>_. False), delivered = (\<lambda>_. [])\<rparr>"

definition openCalls ::
    "nat \<Rightarrow> int \<Rightarrow> (nat \<times> RequestVoteArgs) list \<Rightarrow> (nat \<Rightarrow> int \<Rightarrow> nat \<Rightarrow> vote_call) \<Rightarrow> nat \<Rightarrow> int \<Rightarrow> nat \<Rightarrow> vote_call" where
  "openCalls i t reqs calls = (\<lambda>j u p.
     if j = i \<and> u = t then (case map_of reqs p of Some args \<Rightarrow> Calling args | None \<Rightarrow> calls j u p) else calls j u p)"

definition setCall ::
    "nat \<Rightarrow> int \<Rightarrow> nat \<Rightarrow> vote_call \<Rightarrow> (nat \<Rightarrow> int \<Rightarrow> nat \<Rightarrow> vote_call) \<Rightarrow> nat \<Rightarrow> int \<Rightarrow> nat \<Rightarrow> vote_call" where
  "setCall i t p st calls = (\<lambda>j u q. if j = i \<and> u = t \<and> q = p then st else calls j u q)"

definition dropCalls :: "nat \<Rightarrow> (nat \<Rightarrow> int \<Rightarrow> nat \<Rightarrow> vote_call) \<Rightarrow> nat \<Rightarrow> int \<Rightarrow> nat \<Rightarrow> vote_call" where
  "dropCalls i calls = (\<lambda>j u p. if j = i then giveUp (calls j u p) else calls j u p)"

definition send :: "nat \<Rightarrow> nat \<Rightarrow> ('c, 'b) outgoing \<Rightarrow> ('c, 'b) cluster \<Rightarrow> ('c, 'b) cluster" where
  "send i p out s =
     (case out of
        NoRequest \<Rightarrow> s
      | AppendRequest args \<Rightarrow> s\<lparr>appendCalls := insert (i, p, args) (appendCalls s)\<rparr>
      | SnapshotRequest args \<Rightarrow> s\<lparr>installCalls := insert (i, p, args) (installCalls s)\<rparr>)"

definition setNode :: "nat \<Rightarrow> ('c, 'b) Raft \<Rightarrow> ('c, 'b) cluster \<Rightarrow> ('c, 'b) cluster" where
  "setNode i rf s = s\<lparr>nodes := (nodes s)(i := rf)\<rparr>"

definition handOver :: "nat \<Rightarrow> ('c, 'b) ApplyMsg option \<Rightarrow> ('c, 'b) cluster \<Rightarrow> ('c, 'b) cluster" where
  "handOver i m s =
     (case m of
        None \<Rightarrow> s\<lparr>inGap := (inGap s)(i := False)\<rparr>
      | Some msg \<Rightarrow> s\<lparr>inGap := (inGap s)(i := CommandValid msg), delivered := (delivered s)(i := delivered s i @ [msg])\<rparr>)"

definition forget :: "nat \<Rightarrow> ('c, 'b) cluster \<Rightarrow> ('c, 'b) cluster" where
  "forget i s = s\<lparr>voteCalls := dropCalls i (voteCalls s), hbRounds := {r \<in> hbRounds s. fst r \<noteq> i},
     appendReplies := {r \<in> appendReplies s. fst r \<noteq> i}, installReplies := {r \<in> installReplies s. fst r \<noteq> i},
     inGap := (inGap s)(i := False), delivered := (delivered s)(i := [])\<rparr>"

inductive step :: "nat \<Rightarrow> ('c, 'b) cluster \<Rightarrow> ('c, 'b) cluster \<Rightarrow> bool" for n where
  timeout: "i < n \<Longrightarrow> electionTimeout now d (nodes s i) = Some (rf, reqs) \<Longrightarrow>
    step n s (setNode i rf (s\<lparr>voteCalls := openCalls i (currentTerm rf) reqs (voteCalls s),
      voteCount := (voteCount s)(i := (voteCount s i)(currentTerm rf := if reqs = [] then voteCount s i (currentTerm rf) else 1))\<rparr>))"
| vote: "voteCalls s i t p = Calling args \<Longrightarrow> p < n \<Longrightarrow> RequestVote now args (nodes s p) = Some (reply, rf) \<Longrightarrow>
    step n s (setNode p rf (s\<lparr>voteCalls := setCall i t p (Replied args reply) (voteCalls s)\<rparr>))"
| voteReply: "voteCalls s i t p = Replied args reply \<Longrightarrow> i < n \<Longrightarrow>
    onVoteReply t reply (voteCount s i t) (nodes s i) = (rf, v) \<Longrightarrow>
    step n s (setNode i rf (s\<lparr>voteCalls := setCall i t p (Handled args reply) (voteCalls s),
      voteCount := (voteCount s)(i := (voteCount s i)(t := v))\<rparr>))"
| voteLost: "step n s (s\<lparr>voteCalls := setCall i t p (giveUp (voteCalls s i t p)) (voteCalls s)\<rparr>)"
| voteLate: "voteCalls s i t p = Abandoned args \<Longrightarrow> p < n \<Longrightarrow> RequestVote now args (nodes s p) = Some (reply, rf) \<Longrightarrow>
    step n s (setNode p rf (s\<lparr>voteCalls := setCall i t p Failed (voteCalls s)\<rparr>))"
| command: "i < n \<Longrightarrow> Start c (nodes s i) = (r, rf) \<Longrightarrow> step n s (setNode i rf s)"
| heartbeat: "i < n \<Longrightarrow>
    step n s (s\<lparr>hbRounds := insert (i, sendHeartbeats_begin (nodes s i)) (hbRounds s)\<rparr>)"
| heartbeatPeer: "(i, hb) \<in> hbRounds s \<Longrightarrow> i < n \<Longrightarrow> p < n \<Longrightarrow> p \<noteq> i \<Longrightarrow>
    sendHeartbeats_peer hb p (nodes s i) = Some out \<Longrightarrow> step n s (send i p out s)"
| append: "(i, p, args) \<in> appendCalls s \<Longrightarrow> p < n \<Longrightarrow> AppendEntries now args (nodes s p) = Some (reply, rf) \<Longrightarrow>
    step n s (setNode p rf (s\<lparr>appendReplies := insert (i, p, args, reply) (appendReplies s)\<rparr>))"
| appendReply: "(i, p, args, reply) \<in> appendReplies s \<Longrightarrow> i < n \<Longrightarrow>
    onAppendReply p args reply (nodes s i) = Some rf \<Longrightarrow> step n s (setNode i rf s)"
| install: "(i, p, args) \<in> installCalls s \<Longrightarrow> p < n \<Longrightarrow> InstallSnapshot now args (nodes s p) = Some (ireply, rf) \<Longrightarrow>
    step n s (setNode p rf (s\<lparr>installReplies := insert (i, p, args, ireply) (installReplies s)\<rparr>))"
| installReply: "(i, p, args, ireply) \<in> installReplies s \<Longrightarrow> i < n \<Longrightarrow>
    onSnapshotReply p args ireply (nodes s i) = Some rf \<Longrightarrow> step n s (setNode i rf s)"
| applyOuter: "i < n \<Longrightarrow> \<not> inGap s i \<Longrightarrow> applyTop (nodes s i) = Some (m, rf) \<Longrightarrow>
    step n s (handOver i m (setNode i rf s))"
| applyInner: "i < n \<Longrightarrow> inGap s i \<Longrightarrow> applyGap (nodes s i) = Some (m, rf) \<Longrightarrow>
    step n s (handOver i m (setNode i rf s))"
| compact: "i < n \<Longrightarrow> index \<le> lastApplied (nodes s i) \<Longrightarrow> Snapshot index sn (nodes s i) = Some rf \<Longrightarrow>
    step n s (setNode i rf s)"
| restart: "i < n \<Longrightarrow>
    step n s (setNode i (Make (peers (nodes s i)) (int i) (persister (nodes s i)) now) (forget i s))"

inductive reachable :: "Peer list \<Rightarrow> ('c, 'b) cluster \<Rightarrow> bool" for ps where
  booted: "reachable ps (boot ps)"
| stepped: "reachable ps s \<Longrightarrow> step (length ps) s s' \<Longrightarrow> reachable ps s'"


section \<open>Runs that can be computed\<close>

text \<open>The name of a step: which rule, for which peers and messages, with which clock values.\<close>

datatype ('c, 'b) act =
    Timeout nat int int
  | Vote nat int nat int
  | VoteReply nat int nat
  | VoteLost nat int nat
  | VoteLate nat int nat int
  | Command nat 'c
  | Heartbeat nat
  | HeartbeatPeer nat "int \<times> int \<times> int" nat
  | Append nat nat "'c AppendEntriesArgs" int
  | AppendReply nat nat "'c AppendEntriesArgs" AppendEntriesReply
  | Install nat nat "'b InstallSnapshotArgs" int
  | InstallReply nat nat "'b InstallSnapshotArgs" InstallSnapshotReply
  | ApplyOuter nat
  | ApplyInner nat
  | Compact nat int "'b list"
  | Restart nat int

fun exec :: "nat \<Rightarrow> ('c, 'b) act \<Rightarrow> ('c, 'b) cluster \<Rightarrow> ('c, 'b) cluster option" where
  "exec n (Timeout i now d) s =
     (if i < n then
        do { (rf, reqs) \<leftarrow> electionTimeout now d (nodes s i);
             Some (setNode i rf (s\<lparr>voteCalls := openCalls i (currentTerm rf) reqs (voteCalls s),
               voteCount := (voteCount s)(i := (voteCount s i)
                 (currentTerm rf := if reqs = [] then voteCount s i (currentTerm rf) else 1))\<rparr>)) }
      else None)"
| "exec n (Vote i t p now) s =
     (case voteCalls s i t p of
        Calling args \<Rightarrow>
          if p < n then
            do { (reply, rf) \<leftarrow> RequestVote now args (nodes s p);
                 Some (setNode p rf (s\<lparr>voteCalls := setCall i t p (Replied args reply) (voteCalls s)\<rparr>)) }
          else None
      | _ \<Rightarrow> None)"
| "exec n (VoteReply i t p) s =
     (case voteCalls s i t p of
        Replied args reply \<Rightarrow>
          if i < n then
            (case onVoteReply t reply (voteCount s i t) (nodes s i) of (rf, v) \<Rightarrow>
               Some (setNode i rf (s\<lparr>voteCalls := setCall i t p (Handled args reply) (voteCalls s),
                 voteCount := (voteCount s)(i := (voteCount s i)(t := v))\<rparr>)))
          else None
      | _ \<Rightarrow> None)"
| "exec n (VoteLost i t p) s =
     Some (s\<lparr>voteCalls := setCall i t p (giveUp (voteCalls s i t p)) (voteCalls s)\<rparr>)"
| "exec n (VoteLate i t p now) s =
     (case voteCalls s i t p of
        Abandoned args \<Rightarrow>
          if p < n then
            do { (reply, rf) \<leftarrow> RequestVote now args (nodes s p);
                 Some (setNode p rf (s\<lparr>voteCalls := setCall i t p Failed (voteCalls s)\<rparr>)) }
          else None
      | _ \<Rightarrow> None)"
| "exec n (Command i c) s = (if i < n then Some (setNode i (snd (Start c (nodes s i))) s) else None)"
| "exec n (Heartbeat i) s =
     (if i < n then Some (s\<lparr>hbRounds := insert (i, sendHeartbeats_begin (nodes s i)) (hbRounds s)\<rparr>) else None)"
| "exec n (HeartbeatPeer i hb p) s =
     (if (i, hb) \<in> hbRounds s \<and> i < n \<and> p < n \<and> p \<noteq> i
      then do { out \<leftarrow> sendHeartbeats_peer hb p (nodes s i); Some (send i p out s) } else None)"
| "exec n (Append i p args now) s =
     (if (i, p, args) \<in> appendCalls s \<and> p < n then
        do { (reply, rf) \<leftarrow> AppendEntries now args (nodes s p);
             Some (setNode p rf (s\<lparr>appendReplies := insert (i, p, args, reply) (appendReplies s)\<rparr>)) }
      else None)"
| "exec n (AppendReply i p args reply) s =
     (if (i, p, args, reply) \<in> appendReplies s \<and> i < n
      then do { rf \<leftarrow> onAppendReply p args reply (nodes s i); Some (setNode i rf s) } else None)"
| "exec n (Install i p args now) s =
     (if (i, p, args) \<in> installCalls s \<and> p < n then
        do { (reply, rf) \<leftarrow> InstallSnapshot now args (nodes s p);
             Some (setNode p rf (s\<lparr>installReplies := insert (i, p, args, reply) (installReplies s)\<rparr>)) }
      else None)"
| "exec n (InstallReply i p args reply) s =
     (if (i, p, args, reply) \<in> installReplies s \<and> i < n
      then do { rf \<leftarrow> onSnapshotReply p args reply (nodes s i); Some (setNode i rf s) } else None)"
| "exec n (ApplyOuter i) s =
     (if i < n \<and> \<not> inGap s i
      then do { (m, rf) \<leftarrow> applyTop (nodes s i); Some (handOver i m (setNode i rf s)) } else None)"
| "exec n (ApplyInner i) s =
     (if i < n \<and> inGap s i
      then do { (m, rf) \<leftarrow> applyGap (nodes s i); Some (handOver i m (setNode i rf s)) } else None)"
| "exec n (Compact i index sn) s =
     (if i < n \<and> index \<le> lastApplied (nodes s i)
      then do { rf \<leftarrow> Snapshot index sn (nodes s i); Some (setNode i rf s) } else None)"
| "exec n (Restart i now) s =
     (if i < n then Some (setNode i (Make (peers (nodes s i)) (int i) (persister (nodes s i)) now) (forget i s))
      else None)"

lemma exec_step: "exec n a s = Some s' \<Longrightarrow> step n s s'"
proof (cases a)
  case (Command i c)
  moreover assume "exec n a s = Some s'"
  ultimately show ?thesis using step.command [of i n c s "fst (Start c (nodes s i))"] by (auto split: if_splits)
next
  case (Timeout i now d)
  moreover assume "exec n a s = Some s'"
  ultimately obtain rf reqs where "i < n" "electionTimeout now d (nodes s i) = Some (rf, reqs)"
    and "s' = setNode i rf (s\<lparr>voteCalls := openCalls i (currentTerm rf) reqs (voteCalls s),
      voteCount := (voteCount s)(i := (voteCount s i)
        (currentTerm rf := if reqs = [] then voteCount s i (currentTerm rf) else 1))\<rparr>)"
    by (cases "i < n") (auto simp: bind_Some_conv simp del: setNode_def)
  then show ?thesis using step.timeout [of i n now d s] by simp
qed (auto simp: bind_Some_conv split: if_splits vote_call.splits prod.splits intro: step.intros)

lemma step_exec: "step n s s' \<Longrightarrow> \<exists>a. exec n a s = Some s'"
proof (induction rule: step.induct)
  case (timeout i now d s rf reqs)
  then show ?case by (intro exI [of _ "Timeout i now d"]) simp
next
  case (vote s i t p args now reply rf)
  then show ?case by (intro exI [of _ "Vote i t p now"]) simp
next
  case (voteReply s i t p args reply rf v)
  then show ?case by (intro exI [of _ "VoteReply i t p"]) simp
next
  case (voteLost s i t p)
  then show ?case by (intro exI [of _ "VoteLost i t p"]) simp
next
  case (voteLate s i t p args now reply rf)
  then show ?case by (intro exI [of _ "VoteLate i t p now"]) simp
next
  case (command i c s r rf)
  then show ?case by (intro exI [of _ "Command i c"]) simp
next
  case (heartbeat i s)
  then show ?case by (intro exI [of _ "Heartbeat i"]) simp
next
  case (heartbeatPeer i hb s p out)
  then show ?case by (intro exI [of _ "HeartbeatPeer i hb p"]) simp
next
  case (append i p args s now reply rf)
  then show ?case by (intro exI [of _ "Append i p args now"]) simp
next
  case (appendReply i p args reply s rf)
  then show ?case by (intro exI [of _ "AppendReply i p args reply"]) simp
next
  case (install i p args s now ireply rf)
  then show ?case by (intro exI [of _ "Install i p args now"]) simp
next
  case (installReply i p args ireply s rf)
  then show ?case by (intro exI [of _ "InstallReply i p args ireply"]) simp
next
  case (applyOuter i s m rf)
  then show ?case by (intro exI [of _ "ApplyOuter i"]) simp
next
  case (applyInner i s m rf)
  then show ?case by (intro exI [of _ "ApplyInner i"]) simp
next
  case (compact i index s sn rf)
  then show ?case by (intro exI [of _ "Compact i index sn"]) simp
next
  case (restart i s now)
  then show ?case by (intro exI [of _ "Restart i now"]) simp
qed

primrec run :: "nat \<Rightarrow> ('c, 'b) act list \<Rightarrow> ('c, 'b) cluster \<Rightarrow> ('c, 'b) cluster option" where
  "run n [] s = Some s"
| "run n (a # as) s = do { s' \<leftarrow> exec n a s; run n as s' }"

lemma run_steps: "run n as s = Some s' \<Longrightarrow> (step n)\<^sup>*\<^sup>* s s'"
  by (induction as arbitrary: s) (auto simp: bind_Some_conv intro: converse_rtranclp_into_rtranclp dest: exec_step)

lemma steps_reachable: "(step (length ps))\<^sup>*\<^sup>* s s' \<Longrightarrow> reachable ps s \<Longrightarrow> reachable ps s'"
  by (induction rule: rtranclp_induct) (auto intro: reachable.stepped)

lemma run_reachable: "run (length ps) as (boot ps) = Some s \<Longrightarrow> reachable ps s"
  using run_steps steps_reachable reachable.booted by blast

text \<open>
  The executable step function and the step relation of the cluster have the same steps.
\<close>

theorem exec_iff_step: "step n s s' \<longleftrightarrow> (\<exists>a. exec n a s = Some s')"
  using exec_step step_exec by blast


section \<open>A sample run\<close>

text \<open>
  Three peers.  Peer 0 wins the first election with the vote of peer 1, takes the command 7,
  replicates it to peer 1, commits and applies it; with the next heartbeat peer 1 learns that it is
  committed and applies it too.
\<close>

definition threePeers :: "Peer list" where
  "threePeers = replicate 3 (NewPeer ''localhost:7000'')"

definition firstCall :: "nat AppendEntriesArgs" where
  "firstCall = \<lparr>aeTerm = 1, aeLeaderId = 0, aePrevLogIndex = 0, aePrevLogTerm = 0,
     aeEntries = [\<lparr>eTerm = 1, eCommand = Some 7\<rparr>], aeLeaderCommit = 0\<rparr>"

definition secondCall :: "nat AppendEntriesArgs" where
  "secondCall = \<lparr>aeTerm = 1, aeLeaderId = 0, aePrevLogIndex = 1, aePrevLogTerm = 1, aeEntries = [], aeLeaderCommit = 1\<rparr>"

definition electionRun :: "(nat, nat) act list" where
  "electionRun = [Timeout 0 400 300, Vote 0 1 1 401, VoteReply 0 1 1]"

definition commitRun :: "(nat, nat) act list" where
  "commitRun = electionRun @ [Command 0 7, Heartbeat 0, HeartbeatPeer 0 (1, 0, 0) 1, Append 0 1 firstCall 402,
     AppendReply 0 1 firstCall (aeReply 1 True (- 1) 0), ApplyOuter 0]"

definition deliverRun :: "(nat, nat) act list" where
  "deliverRun = commitRun @ [Heartbeat 0, HeartbeatPeer 0 (1, 0, 1) 1, Append 0 1 secondCall 403, ApplyOuter 1]"

lemma run_append: "run n (as @ bs) s = Option.bind (run n as s) (run n bs)"
  by (induction as arbitrary: s) (auto split: bind_splits)

text \<open>A run of the sample cluster, given what can be read off its last state.\<close>

lemma sample_run:
  assumes "map_option f (run 3 as (boot threePeers)) = Some x"
  shows "\<exists>s. reachable threePeers s \<and> run 3 as (boot threePeers) = Some s \<and> f s = x"
  using assms run_reachable [of threePeers as] by (auto simp: threePeers_def)

end
