(* ===== verification/Raft_Election.thy ===== *)
theory Raft_Election
  imports Raft_Cluster
begin

text \<open>
  The safety of elections.

  \<open>vote_inv\<close> is the invariant: a peer that supports a candidate in a term has pledged the
  term to it, in memory and on stable storage; it supports one candidate per term; the count of an
  election does not exceed the votes counted in it; a leader has a majority.  The locale
  \<open>quorum_system\<close> then gives election safety.
\<close>

section \<open>What a critical section leaves alone\<close>

text \<open>
  A step of a peer that is not the end of an election: it keeps its votes, its identity and the
  peer list, and is a leader afterwards only if it was one in the same term.
\<close>

definition quiet :: "('c, 'b) Raft \<Rightarrow> ('c, 'b) Raft \<Rightarrow> bool" where
  "quiet rf rf' \<longleftrightarrow> vote_kept rf rf' \<and> peers rf' = peers rf \<and> me rf' = me rf
     \<and> (state rf' = leader \<longrightarrow> state rf = leader \<and> currentTerm rf' = currentTerm rf)"

lemma quiet_refl [simp]: "quiet rf rf" by (simp add: quiet_def)

lemma quiet_frame:
  "vote_kept rf rf' \<Longrightarrow> peers rf' = peers rf \<Longrightarrow> me rf' = me rf \<Longrightarrow> state rf' \<noteq> leader \<Longrightarrow> quiet rf rf'"
  by (simp add: quiet_def)

lemma RequestVote_quiet: "RequestVote now args rf = Some (reply, rf') \<Longrightarrow> quiet rf rf'"
  using RequestVote_vote_kept [of now args rf reply rf']
  by (auto simp: quiet_def RequestVote_def Let_def bind_Some_conv split: if_splits)

lemma startElection_fields:
  assumes "startElection rf = Some (rf', reqs)"
  shows "peers rf' = peers rf" "me rf' = me rf" "state rf' = candidate" "currentTerm rf' = currentTerm rf + 1"
    "votedFor rf' = me rf" "durable rf' = volatileImage rf'"
    "(p, args) \<in> set reqs \<Longrightarrow> p < length (peers rf) \<and> int p \<noteq> me rf \<and> rvTerm args = currentTerm rf + 1
       \<and> rvCandidateId args = me rf"
  using assms
  by (auto simp: startElection_def Let_def bind_Some_conv volatileImage_def split: if_splits)

lemma Start_quiet: "Start c rf = (r, rf') \<Longrightarrow> quiet rf rf'"
  using Start_vote_kept [of c rf r rf'] by (auto simp: quiet_def Start_def Let_def split: if_splits)

lemma AppendEntries_quiet:
  assumes "AppendEntries now args rf = Some (reply, rf')" shows "quiet rf rf'"
  using AppendEntries_vote_kept [OF assms] assms
  by (auto simp: quiet_def elim!: AppendEntries_cases)

lemma InstallSnapshot_quiet:
  assumes "InstallSnapshot now args rf = Some (reply, rf')" shows "quiet rf rf'"
  using assms
  by (rule InstallSnapshot_cases)
    (use InstallSnapshot_vote_kept [OF assms] in \<open>simp_all add: quiet_def isInstalled_def\<close>)

lemma onAppendReply_quiet:
  assumes "onAppendReply peer args reply rf = Some rf'" shows "quiet rf rf'"
  using assms
  by (rule onAppendReply_frame) (use onAppendReply_vote_kept [OF assms] in \<open>simp_all add: quiet_def\<close>)

lemma onSnapshotReply_quiet:
  assumes "onSnapshotReply peer args reply rf = Some rf'" shows "quiet rf rf'"
  using assms
  by (rule onSnapshotReply_frame) (use onSnapshotReply_vote_kept [OF assms] in \<open>simp_all add: quiet_def\<close>)

lemma Snapshot_quiet: "Snapshot index sn rf = Some rf' \<Longrightarrow> quiet rf rf'"
  using Snapshot_vote_kept [of index sn rf rf']
  by (auto simp: quiet_def Snapshot_def bind_Some_conv split: if_splits)

lemma applyGap_quiet: "applyGap rf = Some (m, rf') \<Longrightarrow> quiet rf rf'"
  using applyGap_vote_kept [of rf m rf'] applyGap_frame [of rf m rf'] by (auto simp: quiet_def)

lemma applyTop_quiet: "applyTop rf = Some (m, rf') \<Longrightarrow> quiet rf rf'"
  using applyTop_vote_kept [of rf m rf'] applyGap_quiet
  by (auto simp: quiet_def applyTop_def split: option.splits)

lemma onVoteReply_cases:
  assumes "onVoteReply t reply v rf = (rf', v')"
  obtains (quiet) "quiet rf rf'" "v' = v"
  | (counted) "rvrVoteGranted reply" "v' = v + 1" "quiet rf rf'"
  | (won) "rvrVoteGranted reply" "v' = v + 1" "currentTerm rf = t"
      "int (length (peers rf)) div 2 + 1 \<le> v'" "rf' = becomeLeader rf"
proof -
  have kept: "vote_kept rf rf'" using assms by (rule onVoteReply_vote_kept)
  consider "currentTerm rf \<noteq> t \<or> state rf \<noteq> candidate"
    | "currentTerm rf = t" "state rf = candidate" "currentTerm rf < rvrTerm reply"
    | "currentTerm rf = t" "state rf = candidate" "\<not> currentTerm rf < rvrTerm reply" "rvrVoteGranted reply"
    | "currentTerm rf = t" "state rf = candidate" "\<not> currentTerm rf < rvrTerm reply" "\<not> rvrVoteGranted reply"
    by blast
  then show ?thesis
  proof cases
    case 1
    with assms show ?thesis by (intro quiet) (simp_all add: onVoteReply_def)
  next
    case 2
    with assms kept show ?thesis by (intro quiet) (auto simp: onVoteReply_def quiet_def)
  next
    case 3
    show ?thesis
    proof (cases "int (length (peers rf)) div 2 + 1 \<le> v + 1")
      case True
      with 3 assms show ?thesis by (intro won) (simp_all add: onVoteReply_def)
    next
      case False
      with 3 assms show ?thesis by (intro counted) (simp_all add: onVoteReply_def)
    qed
  next
    case 4
    with assms show ?thesis by (intro quiet) (simp_all add: onVoteReply_def)
  qed
qed


section \<open>Pledges\<close>

text \<open>A peer has pledged term \<open>T\<close> to candidate \<open>c\<close>: it is past \<open>T\<close>, or in it with its vote
  given to \<open>c\<close>; the same holds of what is on stable storage.\<close>

definition backs :: "int \<Rightarrow> int \<Rightarrow> int \<times> int \<Rightarrow> bool" where
  "backs T c b \<longleftrightarrow> T < fst b \<or> T = fst b \<and> snd b = c"

definition pledged :: "('c, 'b) Raft \<Rightarrow> int \<Rightarrow> int \<Rightarrow> bool" where
  "pledged rf T c \<longleftrightarrow> backs T c (currentTerm rf, votedFor rf)
     \<and> backs T c (fst (durable rf), fst (snd (durable rf)))"

lemma pledged_kept: "vote_kept rf rf' \<Longrightarrow> pledged rf T c \<Longrightarrow> 0 \<le> c \<Longrightarrow> pledged rf' T c"
  by (auto simp: pledged_def vote_kept_def backs_def)

lemma pledged_Make:
  assumes "pledged rf T c" shows "pledged (Make ps m (persister rf) now) T c"
proof -
  let ?new = "Make ps m (persister rf) now"
  have "durable ?new = durable rf" by (rule durable_cong) simp
  moreover have "(currentTerm ?new, votedFor ?new) = (fst (durable rf), fst (snd (durable rf)))"
    using readPersist_durable [of ps m rf now] by (cases "durable rf") (auto simp: volatileImage_def)
  ultimately show ?thesis using assms by (simp add: pledged_def)
qed

lemma RequestVote_pledged:
  assumes "RequestVote now args rf = Some (reply, rf')" "rvrVoteGranted reply"
  shows "pledged rf' (rvTerm args) (rvCandidateId args)"
    "pledged rf (rvTerm args) c \<Longrightarrow> c \<noteq> - 1 \<Longrightarrow> c = rvCandidateId args"
  using assms
  by (auto simp: RequestVote_def Let_def bind_Some_conv pledged_def backs_def durable_fields volatileImage_def
      split: if_splits)

definition savedBelow :: "('c, 'b) Raft \<Rightarrow> bool" where
  "savedBelow rf \<longleftrightarrow> fst (durable rf) \<le> currentTerm rf"

lemma savedBelow_kept: "vote_kept rf rf' \<Longrightarrow> savedBelow rf \<Longrightarrow> savedBelow rf'"
  by (auto simp: vote_kept_def savedBelow_def)


section \<open>The election invariant\<close>

type_synonym vote_calls = "nat \<Rightarrow> int \<Rightarrow> nat \<Rightarrow> vote_call"

fun isGrant :: "vote_call \<Rightarrow> bool" where
  "isGrant (Replied args reply) = rvrVoteGranted reply"
| "isGrant (Handled args reply) = rvrVoteGranted reply"
| "isGrant _ = False"

fun isCounted :: "vote_call \<Rightarrow> bool" where
  "isCounted (Handled args reply) = rvrVoteGranted reply"
| "isCounted _ = False"

fun call_ok :: "nat \<Rightarrow> nat \<Rightarrow> int \<Rightarrow> nat \<Rightarrow> vote_call \<Rightarrow> bool" where
  "call_ok n i t p NotCalled = True"
| "call_ok n i t p Failed = (i < n \<and> p < n \<and> p \<noteq> i)"
| "call_ok n i t p (Calling args) = (i < n \<and> p < n \<and> p \<noteq> i \<and> rvTerm args = t \<and> rvCandidateId args = int i)"
| "call_ok n i t p (Replied args _) = (i < n \<and> p < n \<and> p \<noteq> i \<and> rvTerm args = t \<and> rvCandidateId args = int i)"
| "call_ok n i t p (Handled args _) = (i < n \<and> p < n \<and> p \<noteq> i \<and> rvTerm args = t \<and> rvCandidateId args = int i)"
| "call_ok n i t p (Abandoned args) = (i < n \<and> p < n \<and> p \<noteq> i \<and> rvTerm args = t \<and> rvCandidateId args = int i)"

definition started :: "vote_calls \<Rightarrow> nat \<Rightarrow> int \<Rightarrow> bool" where
  "started calls i t \<longleftrightarrow> (\<exists>p. calls i t p \<noteq> NotCalled)"

text \<open>Peer \<open>p\<close> supports candidate \<open>i\<close> in term \<open>t\<close>: it granted its vote, or it is the candidate.\<close>

definition supports :: "vote_calls \<Rightarrow> nat \<Rightarrow> nat \<Rightarrow> int \<Rightarrow> bool" where
  "supports calls p i t \<longleftrightarrow> isGrant (calls i t p) \<or> p = i \<and> started calls i t"

definition voters :: "vote_calls \<Rightarrow> nat \<Rightarrow> int \<Rightarrow> nat set" where
  "voters calls i t = {p. isCounted (calls i t p)}"

definition elected :: "nat \<Rightarrow> vote_calls \<Rightarrow> nat \<Rightarrow> int \<Rightarrow> bool" where
  "elected n calls i t \<longleftrightarrow> started calls i t \<and> majority n (insert i (voters calls i t))"

definition nodes_ok :: "nat \<Rightarrow> (nat \<Rightarrow> ('c, 'b) Raft) \<Rightarrow> bool" where
  "nodes_ok n nd \<longleftrightarrow> (\<forall>i<n. length (peers (nd i)) = n \<and> me (nd i) = int i \<and> savedBelow (nd i))"

definition calls_ok :: "nat \<Rightarrow> vote_calls \<Rightarrow> bool" where
  "calls_ok n calls \<longleftrightarrow> (\<forall>i t p. call_ok n i t p (calls i t p))"

definition pledges_ok :: "(nat \<Rightarrow> ('c, 'b) Raft) \<Rightarrow> vote_calls \<Rightarrow> bool" where
  "pledges_ok nd calls \<longleftrightarrow> (\<forall>p i t. supports calls p i t \<longrightarrow> pledged (nd p) t (int i))"

definition single_vote :: "vote_calls \<Rightarrow> bool" where
  "single_vote calls \<longleftrightarrow> (\<forall>p i j t. supports calls p i t \<longrightarrow> supports calls p j t \<longrightarrow> i = j)"

definition counts_ok :: "vote_calls \<Rightarrow> (nat \<Rightarrow> int \<Rightarrow> int) \<Rightarrow> bool" where
  "counts_ok calls count \<longleftrightarrow>
     (\<forall>i t. started calls i t \<longrightarrow> count i t \<le> 1 + int (card (voters calls i t)))"

definition leaders_ok :: "nat \<Rightarrow> (nat \<Rightarrow> ('c, 'b) Raft) \<Rightarrow> vote_calls \<Rightarrow> bool" where
  "leaders_ok n nd calls \<longleftrightarrow>
     (\<forall>i<n. state (nd i) = leader \<longrightarrow> elected n calls i (currentTerm (nd i)))"

definition vote_inv ::
    "nat \<Rightarrow> (nat \<Rightarrow> ('c, 'b) Raft) \<Rightarrow> vote_calls \<Rightarrow> (nat \<Rightarrow> int \<Rightarrow> int) \<Rightarrow> bool" where
  "vote_inv n nd calls count \<longleftrightarrow> nodes_ok n nd \<and> calls_ok n calls \<and> pledges_ok nd calls
     \<and> single_vote calls \<and> counts_ok calls count \<and> leaders_ok n nd calls"

lemma vote_inv_quiet:
  assumes "vote_inv n nd calls count" "quiet (nd i) rf"
  shows "vote_inv n (nd(i := rf)) calls count"
  unfolding vote_inv_def
proof (intro conjI)
  show "nodes_ok n (nd(i := rf))"
    using assms by (auto simp: vote_inv_def nodes_ok_def quiet_def intro: savedBelow_kept)
  show "pledges_ok (nd(i := rf)) calls"
    using assms by (auto simp: vote_inv_def pledges_ok_def quiet_def intro: pledged_kept)
  show "leaders_ok n (nd(i := rf)) calls"
    using assms by (auto simp: vote_inv_def leaders_ok_def quiet_def)
qed (use assms in \<open>auto simp: vote_inv_def\<close>)

lemma voters_finite: "calls_ok n calls \<Longrightarrow> voters calls i t \<subseteq> {..<n} - {i} \<and> finite (voters calls i t)"
proof -
  assume ok: "calls_ok n calls"
  have "p < n \<and> p \<noteq> i" if "isCounted (calls i t p)" for p
    using ok [unfolded calls_ok_def, rule_format, of i t p] that by (cases "calls i t p") auto
  then have "voters calls i t \<subseteq> {..<n} - {i}" by (auto simp: voters_def)
  moreover from this have "finite (voters calls i t)" by (rule finite_subset) simp
  ultimately show ?thesis by blast
qed

text \<open>Replacing calls by ones that grant no more and count the same.\<close>

lemma vote_inv_weaken:
  assumes inv: "vote_inv n nd calls count"
    and same: "\<And>i t p. (calls' i t p = NotCalled) = (calls i t p = NotCalled)"
      "\<And>i t p. isGrant (calls' i t p) \<Longrightarrow> isGrant (calls i t p)"
      "\<And>i t p. isCounted (calls' i t p) = isCounted (calls i t p)"
    and ok: "calls_ok n calls'"
  shows "vote_inv n nd calls' count"
proof -
  have st: "started calls' = started calls" by (intro ext) (simp add: started_def same)
  have vo: "voters calls' = voters calls" by (intro ext) (simp add: voters_def same)
  have su: "supports calls' p i t \<Longrightarrow> supports calls p i t" for p i t
    using same(2) by (auto simp: supports_def st)
  have "single_vote calls'" using inv su unfolding vote_inv_def single_vote_def by blast
  with inv ok su show ?thesis
    by (auto simp: vote_inv_def pledges_ok_def counts_ok_def leaders_ok_def elected_def st vo)
qed

lemma giveUp_simps [simp]:
  "(giveUp c = NotCalled) = (c = NotCalled)" "isCounted (giveUp c) = isCounted c"
  "call_ok n i t p c \<Longrightarrow> call_ok n i t p (giveUp c)"
  by (cases c; simp)+

lemma giveUp_grant: "isGrant (giveUp c) \<Longrightarrow> isGrant c"
  by (cases c) simp_all

lemma vote_inv_giveUp:
  assumes "vote_inv n nd calls count"
  shows "vote_inv n nd (setCall i t p (giveUp (calls i t p)) calls) count"
    "vote_inv n nd (dropCalls i calls) count"
proof -
  have ok: "call_ok n i t p (calls i t p)" for i t p using assms by (simp add: vote_inv_def calls_ok_def)
  show "vote_inv n nd (setCall i t p (giveUp (calls i t p)) calls) count"
    by (rule vote_inv_weaken [OF assms]) (auto simp: setCall_def calls_ok_def ok dest: giveUp_grant split: if_splits)
  show "vote_inv n nd (dropCalls i calls) count"
    by (rule vote_inv_weaken [OF assms]) (auto simp: dropCalls_def calls_ok_def ok dest: giveUp_grant split: if_splits)
qed

lemma vote_inv_late:
  assumes "vote_inv n nd calls count" "calls i t p = Abandoned args"
  shows "vote_inv n nd (setCall i t p Failed calls) count"
proof -
  have ok: "call_ok n i t p (calls i t p)" for i t p using assms by (simp add: vote_inv_def calls_ok_def)
  with assms(2) have "call_ok n i t p Failed" by (metis call_ok.simps(2,6))
  with ok assms(2) show ?thesis
    by (intro vote_inv_weaken [OF assms(1)]) (auto simp: setCall_def calls_ok_def split: if_splits)
qed

lemma next_term_unused:
  assumes "vote_inv n nd calls count" "i < n"
  shows "calls i (currentTerm (nd i) + 1) p = NotCalled" "\<not> supports calls i j (currentTerm (nd i) + 1)"
proof -
  have "\<not> pledged (nd i) (currentTerm (nd i) + 1) c" for c by (simp add: pledged_def backs_def)
  with assms show "\<not> supports calls i j (currentTerm (nd i) + 1)" for j
    by (auto simp: vote_inv_def pledges_ok_def)
  from this [of i] show "calls i (currentTerm (nd i) + 1) p = NotCalled"
    by (auto simp: supports_def started_def)
qed

lemma vote_inv_election:
  assumes inv: "vote_inv n nd calls count" and i: "i < n"
    and el: "startElection (nd i) = Some (rf, reqs)"
  shows "vote_inv n (nd(i := rf)) (openCalls i (currentTerm rf) reqs calls)
    (count(i := (count i)(currentTerm rf := if reqs = [] then count i (currentTerm rf) else 1)))"
proof -
  note f = startElection_fields [OF el]
  define T where "T = currentTerm (nd i) + 1"
  define calls' where "calls' = openCalls i T reqs calls"
  have T: "currentTerm rf = T" using f by (simp add: T_def)
  have me: "me (nd i) = int i" "length (peers (nd i)) = n" "savedBelow (nd i)"
    using inv i by (simp_all add: vote_inv_def nodes_ok_def)
  note new = next_term_unused(1) [OF inv i, folded T_def] and none = next_term_unused(2) [OF inv i, folded T_def]
  have calls': "calls' j t p = (if j = i \<and> t = T then (case map_of reqs p of Some a \<Rightarrow> Calling a | None \<Rightarrow> NotCalled)
                                else calls j t p)" for j t p
    by (auto simp: calls'_def openCalls_def new split: option.split)
  have grant: "isGrant (calls' j t p) \<longleftrightarrow> isGrant (calls j t p)" for j t p
    using new by (auto simp: calls' split: option.split)
  have count: "voters calls' j t = voters calls j t" for j t
    using new by (auto simp: voters_def calls' split: option.split_asm)
  have start: "started calls' j t \<Longrightarrow> j = i \<and> t = T \<or> started calls j t" for j t
    by (auto simp: started_def calls' split: if_splits)
  have sup: "supports calls' p j t \<Longrightarrow> p = i \<and> j = i \<and> t = T \<or> supports calls p j t" for p j t
    using start grant by (auto simp: supports_def)
  have kept: "vote_kept (nd i) rf" using el by (rule startElection_vote_kept)
  show ?thesis
    unfolding vote_inv_def T calls'_def [symmetric]
  proof (intro conjI)
    show "nodes_ok n (nd(i := rf))"
      using inv kept f(1,2) by (auto simp: vote_inv_def nodes_ok_def intro: savedBelow_kept)
    show "calls_ok n calls'"
      using inv i f(7) me by (auto simp: vote_inv_def calls_ok_def calls' T_def split: option.split dest!: map_of_SomeD)
    have self: "pledged rf T (int i)"
      using f me by (simp add: pledged_def backs_def volatileImage_def T_def)
    show "pledges_ok (nd(i := rf)) calls'"
      using inv sup self kept unfolding pledges_ok_def vote_inv_def
      by (metis fun_upd_apply of_nat_0_le_iff pledged_kept)
    show "single_vote calls'"
      using inv sup none unfolding single_vote_def vote_inv_def by metis
    show "leaders_ok n (nd(i := rf)) calls'"
    proof -
      have "started calls j t \<Longrightarrow> started calls' j t" for j t
        using new by (auto simp: started_def calls')
      then show ?thesis using inv f(3) by (auto simp: vote_inv_def leaders_ok_def elected_def count)
    qed
    show "counts_ok calls' (count(i := (count i)(T := if reqs = [] then count i T else 1)))"
      using inv start unfolding counts_ok_def vote_inv_def count
      by (auto simp: started_def calls' split: if_splits)
  qed
qed


lemma vote_inv_granted:
  assumes inv: "vote_inv n nd calls count" and call: "calls i t p = Calling args"
    and rv: "RequestVote now args (nd p) = Some (reply, rf)"
  shows "vote_inv n (nd(p := rf)) (setCall i t p (Replied args reply) calls) count"
proof -
  define calls' where "calls' = setCall i t p (Replied args reply) calls"
  have ok: "call_ok n i t p (calls i t p)" for i t p using inv by (simp add: vote_inv_def calls_ok_def)
  with call have args: "i < n" "p < n" "p \<noteq> i" "rvTerm args = t" "rvCandidateId args = int i"
    by (metis call_ok.simps(3))+
  have quiet: "quiet (nd p) rf" using rv by (rule RequestVote_quiet)
  have calls': "calls' j u q = (if j = i \<and> u = t \<and> q = p then Replied args reply else calls j u q)" for j u q
    by (simp add: calls'_def setCall_def)
  have st: "started calls' j u = started calls j u" for j u
    using call by (auto simp: started_def calls')
  have vo: "voters calls' j u = voters calls j u" for j u
    using call by (auto simp: voters_def calls' split: if_splits)
  have ok': "calls_ok n calls'" using ok args by (auto simp: calls_ok_def calls')
  have sup: "supports calls' q j u \<Longrightarrow> rvrVoteGranted reply \<and> q = p \<and> j = i \<and> u = t \<or> supports calls q j u" for q j u
    by (auto simp: supports_def st calls' split: if_splits)
  have inv1: "vote_inv n (nd(p := rf)) calls count" using inv quiet by (rule vote_inv_quiet)
  have self: "pledged rf t (int i)" if "rvrVoteGranted reply"
    using RequestVote_pledged(1) [OF rv that] args by simp
  have only: "j = i" if "rvrVoteGranted reply" "supports calls p j t" for j
  proof -
    have "pledged (nd p) t (int j)" using inv that(2) by (auto simp: vote_inv_def pledges_ok_def)
    then show ?thesis using RequestVote_pledged(2) [OF rv that(1), of "int j"] args by simp
  qed
  show ?thesis
    unfolding vote_inv_def calls'_def [symmetric]
  proof (intro conjI)
    show "pledges_ok (nd(p := rf)) calls'"
      using inv1 sup self unfolding pledges_ok_def vote_inv_def by (metis fun_upd_same)
    show "single_vote calls'"
      using inv sup only unfolding single_vote_def vote_inv_def by metis
    show "counts_ok calls' count" "leaders_ok n (nd(p := rf)) calls'" "nodes_ok n (nd(p := rf))"
      using inv1 by (simp_all add: vote_inv_def counts_ok_def leaders_ok_def elected_def st vo)
  qed (rule ok')
qed

text \<open>A reply that is handled: the call grants what it granted, and now it is counted.\<close>

lemma handled_call:
  assumes ok: "calls_ok n calls" and call: "calls i t p = Replied args reply"
  defines "calls' \<equiv> setCall i t p (Handled args reply) calls"
  shows "calls_ok n calls'" "started calls' = started calls" "supports calls' = supports calls"
    "voters calls' j u = (if j = i \<and> u = t \<and> rvrVoteGranted reply then insert p (voters calls j u) else voters calls j u)"
    "p \<notin> voters calls i t" "started calls i t"
proof -
  have calls': "calls' j u q = (if j = i \<and> u = t \<and> q = p then Handled args reply else calls j u q)" for j u q
    by (simp add: calls'_def setCall_def)
  have "call_ok n i t p (Handled args reply)" using ok call unfolding calls_ok_def by (metis call_ok.simps(4,5))
  with ok show "calls_ok n calls'" by (auto simp: calls_ok_def calls')
  show st: "started calls' = started calls" using call by (intro ext) (auto simp: started_def calls')
  show "supports calls' = supports calls" using call by (intro ext) (auto simp: supports_def st calls')
  show "voters calls' j u = (if j = i \<and> u = t \<and> rvrVoteGranted reply then insert p (voters calls j u) else voters calls j u)"
    using call by (auto simp: voters_def calls' split: if_splits)
  show "p \<notin> voters calls i t" using call by (simp add: voters_def)
  show "started calls i t" using call by (auto simp: started_def intro: exI [of _ p])
qed

lemma elected_mono:
  assumes "calls_ok n calls'" "started calls i t \<Longrightarrow> started calls' i t" "voters calls i t \<subseteq> voters calls' i t"
    "elected n calls i t"
  shows "elected n calls' i t"
proof -
  have fin: "voters calls' i t \<subseteq> {..<n} - {i}" "finite (voters calls' i t)"
    using voters_finite [OF assms(1), of i t] by auto
  have "card (insert i (voters calls i t)) \<le> card (insert i (voters calls' i t))"
    using assms(3) fin by (intro card_mono) auto
  with fin assms(2,4) show ?thesis by (auto simp: elected_def majority_def)
qed

lemma count_elects:
  assumes "calls_ok n calls" "started calls i t" "i < n" "v \<le> 1 + int (card (voters calls i t))" "int n div 2 + 1 \<le> v"
  shows "elected n calls i t"
proof -
  have "voters calls i t \<subseteq> {..<n} - {i}" "finite (voters calls i t)"
    using voters_finite [OF assms(1)] by auto
  moreover from this have "card (insert i (voters calls i t)) = Suc (card (voters calls i t))"
    by (intro card_insert_disjoint) auto
  ultimately show ?thesis
    using assms by (auto simp: elected_def majority_def subset_iff zdiv_int)
qed

lemma vote_inv_reply:
  assumes inv: "vote_inv n nd calls count" and call: "calls i t p = Replied args reply" and i: "i < n"
    and vr: "onVoteReply t reply (count i t) (nd i) = (rf, v)"
  shows "vote_inv n (nd(i := rf)) (setCall i t p (Handled args reply) calls) (count(i := (count i)(t := v)))"
proof -
  define calls' where "calls' = setCall i t p (Handled args reply) calls"
  have ok: "calls_ok n calls" using inv by (simp add: vote_inv_def)
  note h = handled_call [OF ok call, folded calls'_def]
  have fin: "finite (voters calls j u)" for j u using voters_finite [OF ok] by blast
  have mono: "elected n calls j u \<Longrightarrow> elected n calls' j u" for j u
    by (rule elected_mono [OF h(1)]) (auto simp: h(2,4))
  have counts: "counts_ok calls' (count(i := (count i)(t := v)))"
    if "v = count i t \<or> rvrVoteGranted reply \<and> v = count i t + 1"
  proof -
    have "count i t \<le> 1 + int (card (voters calls i t))" using inv h(6) by (simp add: vote_inv_def counts_ok_def)
    with inv that fin h(5) show ?thesis by (auto simp: vote_inv_def counts_ok_def h(2,4))
  qed
  have rest: "vote_inv n (nd(i := rf)) calls' (count(i := (count i)(t := v)))"
    if "quiet (nd i) rf" "v = count i t \<or> rvrVoteGranted reply \<and> v = count i t + 1"
    using vote_inv_quiet [OF inv that(1)] h(1) counts [OF that(2)] mono
    by (auto simp: vote_inv_def pledges_ok_def single_vote_def h(3) leaders_ok_def)
  from vr show ?thesis
    unfolding calls'_def [symmetric]
  proof (cases rule: onVoteReply_cases)
    case won
    have len: "length (peers (nd i)) = n" using inv i by (simp add: vote_inv_def nodes_ok_def)
    have cnt: "counts_ok calls' (count(i := (count i)(t := v)))" using counts won by blast
    then have "v \<le> 1 + int (card (voters calls' i t))"
      using h(6) unfolding counts_ok_def h(2) by (metis fun_upd_same)
    then have el: "elected n calls' i t" using won(4) len h(2,6) i by (intro count_elects [OF h(1)]) simp_all
    have lead: "currentTerm rf = t" "votedFor rf = votedFor (nd i)" "durable rf = durable (nd i)"
      "peers rf = peers (nd i)" "me rf = me (nd i)" "currentTerm (nd i) = t"
      using won by (simp_all add: becomeLeader_def durable_fields)
    have same: "pledged rf u c = pledged (nd i) u c" "savedBelow rf = savedBelow (nd i)" for u c
      by (simp_all add: pledged_def savedBelow_def lead)
    show "vote_inv n (nd(i := rf)) calls' (count(i := (count i)(t := v)))"
      using inv h(1) cnt mono el lead(1,4,5)
      by (auto simp: vote_inv_def nodes_ok_def pledges_ok_def same single_vote_def h(3) leaders_ok_def)
  qed (rule rest; simp)+
qed

lemma vote_inv_restart:
  assumes inv: "vote_inv n nd calls count" and i: "i < n"
  shows "vote_inv n (nd(i := Make (peers (nd i)) (int i) (persister (nd i)) now)) calls count"
proof -
  let ?rf = "Make (peers (nd i)) (int i) (persister (nd i)) now"
  have dur: "durable ?rf = durable (nd i)" by (rule durable_cong) simp
  have "currentTerm ?rf = fst (durable (nd i))"
    using readPersist_durable [of "peers (nd i)" "int i" "nd i" now] by (auto simp: volatileImage_def dest: sym)
  then have "savedBelow ?rf" by (simp add: savedBelow_def dur)
  moreover have "pledged (nd i) t c \<Longrightarrow> pledged ?rf t c" for t c by (rule pledged_Make)
  ultimately show ?thesis
    using inv i by (auto simp: vote_inv_def nodes_ok_def pledges_ok_def leaders_ok_def)
qed

definition cluster_inv :: "nat \<Rightarrow> ('c, 'b) cluster \<Rightarrow> bool" where
  "cluster_inv n s \<longleftrightarrow> vote_inv n (nodes s) (voteCalls s) (voteCount s)"

lemma cluster_fields [simp]:
  "nodes (setNode i rf s) = (nodes s)(i := rf)" "voteCalls (setNode i rf s) = voteCalls s"
  "voteCount (setNode i rf s) = voteCount s"
  "nodes (handOver i m s) = nodes s" "voteCalls (handOver i m s) = voteCalls s"
  "voteCount (handOver i m s) = voteCount s"
  "nodes (send i p out s) = nodes s" "voteCalls (send i p out s) = voteCalls s"
  "voteCount (send i p out s) = voteCount s"
  "nodes (forget i s) = nodes s" "voteCalls (forget i s) = dropCalls i (voteCalls s)"
  "voteCount (forget i s) = voteCount s"
  by (simp_all add: setNode_def handOver_def send_def forget_def split: option.split outgoing.split)

lemma cluster_inv_boot: "cluster_inv (length ps) (boot ps)"
  by (auto simp: cluster_inv_def boot_def vote_inv_def nodes_ok_def savedBelow_def calls_ok_def pledges_ok_def
      single_vote_def counts_ok_def leaders_ok_def supports_def started_def durable_def decodeState_def
      Make_def readPersist_def)

lemma electionTimeout_cases:
  assumes "electionTimeout now d rf = Some (rf', reqs)"
  obtains "rf' = rf" "reqs = []" | "state rf \<noteq> leader" "startElection rf = Some (rf', reqs)"
  using assms by (auto simp: electionTimeout_def split: if_splits)

lemma openCalls_Nil [simp]: "openCalls i t [] calls = calls"
  by (intro ext) (simp add: openCalls_def)

lemma step_inv: "step n s s' \<Longrightarrow> cluster_inv n s \<Longrightarrow> cluster_inv n s'"
proof (induction rule: step.induct)
  case (timeout i now d s rf reqs)
  from timeout(2) show ?case
  proof (cases rule: electionTimeout_cases)
    case 1
    with timeout.prems show ?thesis by (simp add: cluster_inv_def)
  next
    case 2
    from vote_inv_election [OF timeout.prems [unfolded cluster_inv_def] timeout(1) 2(2)]
    show ?thesis by (simp add: cluster_inv_def split del: if_split)
  qed
next
  case (vote s i t p args now reply rf)
  then show ?case using vote_inv_granted by (simp add: cluster_inv_def)
next
  case (voteReply s i t p args reply rf v)
  then show ?case using vote_inv_reply by (simp add: cluster_inv_def)
next
  case (voteLost s i t p)
  then show ?case by (simp add: cluster_inv_def vote_inv_giveUp)
next
  case (voteLate s i t p args now reply rf)
  then show ?case by (simp add: cluster_inv_def vote_inv_late vote_inv_quiet RequestVote_quiet)
next
  case (restart i s now)
  then show ?case by (simp add: cluster_inv_def vote_inv_giveUp vote_inv_restart)
qed (simp_all add: cluster_inv_def vote_inv_quiet Start_quiet AppendEntries_quiet onAppendReply_quiet
      InstallSnapshot_quiet onSnapshotReply_quiet applyTop_quiet applyGap_quiet Snapshot_quiet)

lemma reachable_inv: "reachable ps s \<Longrightarrow> cluster_inv (length ps) s"
  by (induction rule: reachable.induct) (auto intro: cluster_inv_boot step_inv)

lemma calls_grow:
  assumes "step n s s'" "cluster_inv n s"
  shows "(isCounted (voteCalls s i t p) \<longrightarrow> isCounted (voteCalls s' i t p))
    \<and> (voteCalls s i t p \<noteq> NotCalled \<longrightarrow> voteCalls s' i t p \<noteq> NotCalled)"
  using assms
proof (induction rule: step.induct)
  case (timeout k now d s rf reqs)
  from timeout(2) show ?case
  proof (cases rule: electionTimeout_cases)
    case 2
    then have "voteCalls s k (currentTerm rf) q = NotCalled" for q
      using next_term_unused(1) timeout startElection_fields(4) by (metis cluster_inv_def)
    then show ?thesis by (auto simp: openCalls_def split: option.split)
  qed simp
qed (auto simp: setCall_def dropCalls_def)

lemma elected_stable:
  assumes "step n s s'" "cluster_inv n s" "elected n (voteCalls s) i t"
  shows "elected n (voteCalls s') i t"
proof (rule elected_mono [OF _ _ _ assms(3)])
  show "calls_ok n (voteCalls s')" using step_inv [OF assms(1,2)] by (simp add: cluster_inv_def vote_inv_def)
  show "voters (voteCalls s) i t \<subseteq> voters (voteCalls s') i t"
    using calls_grow [OF assms(1,2)] by (auto simp: voters_def)
  show "started (voteCalls s) i t \<Longrightarrow> started (voteCalls s') i t"
    using calls_grow [OF assms(1,2)] by (auto simp: started_def)
qed

lemma steps_elected:
  "(step n)\<^sup>*\<^sup>* s s' \<Longrightarrow> cluster_inv n s \<Longrightarrow> elected n (voteCalls s) i t \<Longrightarrow>
     cluster_inv n s' \<and> elected n (voteCalls s') i t"
  by (induction rule: rtranclp_induct) (auto intro: step_inv elected_stable)

text \<open>
  The election argument: the supporters of a winner are a quorum, and a peer supports one
  candidate per term.
\<close>

lemma elected_unique:
  assumes "cluster_inv n s" "elected n (voteCalls s) i t" "elected n (voteCalls s) j t"
  shows "i = j"
proof (rule peers_quorum.quorum_agree [where backs = "\<lambda>p k. supports (voteCalls s) p k t"])
  have sup: "p \<in> insert k (voters (voteCalls s) k t) \<Longrightarrow> supports (voteCalls s) p k t"
    if "elected n (voteCalls s) k t" for p k
  proof -
    have "isGrant c" if "isCounted c" for c using that by (cases c) auto
    then show "p \<in> insert k (voters (voteCalls s) k t) \<Longrightarrow> supports (voteCalls s) p k t"
      using that by (auto simp: supports_def voters_def elected_def)
  qed
  show "majority n (insert i (voters (voteCalls s) i t))" "majority n (insert j (voters (voteCalls s) j t))"
    using assms(2,3) by (simp_all add: elected_def)
  show "\<And>p. p \<in> insert i (voters (voteCalls s) i t) \<Longrightarrow> supports (voteCalls s) p i t" by (rule sup [OF assms(2)])
  show "\<And>p. p \<in> insert j (voters (voteCalls s) j t) \<Longrightarrow> supports (voteCalls s) p j t" by (rule sup [OF assms(3)])
  show "\<And>p a b. supports (voteCalls s) p a t \<Longrightarrow> supports (voteCalls s) p b t \<Longrightarrow> a = b"
    using assms(1) unfolding cluster_inv_def vote_inv_def single_vote_def by blast
qed

lemma leader_elected:
  "cluster_inv n s \<Longrightarrow> i < n \<Longrightarrow> state (nodes s i) = leader \<Longrightarrow>
     elected n (voteCalls s) i (currentTerm (nodes s i))"
  by (simp add: cluster_inv_def vote_inv_def leaders_ok_def)


lemma lone_peer_follows:
  assumes inv: "cluster_inv 1 s"
  shows "state (nodes s 0) \<noteq> leader"
proof
  assume lead: "state (nodes s 0) = leader"
  have "started (voteCalls s) 0 (currentTerm (nodes s 0))"
    using inv leader_elected [of 1 s 0] lead by (simp add: elected_def)
  then obtain q where "voteCalls s 0 (currentTerm (nodes s 0)) q \<noteq> NotCalled" by (auto simp: started_def)
  moreover have "call_ok 1 0 (currentTerm (nodes s 0)) q (voteCalls s 0 (currentTerm (nodes s 0)) q)"
    using inv by (simp add: cluster_inv_def vote_inv_def calls_ok_def)
  ultimately show False by (cases "voteCalls s 0 (currentTerm (nodes s 0)) q") auto
qed


section \<open>Properties\<close>

text \<open>
  C3: Election safety: two peers that are leaders in the same term, at the same moment or at any two
  moments of a run, are the same peer, whatever messages are lost, delayed or handled late and
  whichever peers restart from their persisters in between.
\<close>

theorem election_safety:
  assumes "reachable ps s" and "(step (length ps))\<^sup>*\<^sup>* s s'" and "i < length ps" and "j < length ps"
    and "state (nodes s i) = leader" and "state (nodes s' j) = leader"
    and "currentTerm (nodes s i) = currentTerm (nodes s' j)"
  shows "i = j"
proof -
  have inv: "cluster_inv (length ps) s" using assms(1) by (rule reachable_inv)
  note later = steps_elected [OF assms(2) inv leader_elected [OF inv assms(3,5)]]
  then have "elected (length ps) (voteCalls s') j (currentTerm (nodes s i))"
    using leader_elected [of "length ps" s' j] assms(4,6,7) by simp
  with later elected_unique show ?thesis by blast
qed


theorem election_safety_witness:
  "\<exists>s :: (nat, nat) cluster. reachable threePeers s \<and> state (nodes s 0) = leader
     \<and> \<not> (state (nodes s 1) = leader \<and> currentTerm (nodes s 1) = currentTerm (nodes s 0))"
proof -
  have "map_option (\<lambda>s. state (nodes s 0)) (run 3 electionRun (boot threePeers)) = Some leader" by code_simp
  from sample_run [OF this] obtain s :: "(nat, nat) cluster"
    where s: "reachable threePeers s" "state (nodes s 0) = leader" by blast
  have "length threePeers = 3" by (simp add: threePeers_def)
  with election_safety [OF s(1) rtranclp.rtrancl_refl, of 0 1] s(2)
  have "\<not> (state (nodes s 1) = leader \<and> currentTerm (nodes s 1) = currentTerm (nodes s 0))" by auto
  with s show ?thesis by blast
qed

text \<open>
  C39: A cluster of one peer never has a leader: the candidate's own vote is never compared with
  the majority, since only the handler of a reply from another peer does that.
\<close>

theorem single_peer_never_leads:
  assumes "reachable [p] s"
  shows "state (nodes s 0) \<noteq> leader"
  using lone_peer_follows reachable_inv [OF assms] by auto

theorem single_peer_never_leads_witness:
  "\<exists>s :: (nat, nat) cluster. reachable [NewPeer ''localhost:7000''] s \<and> state (nodes s 0) \<noteq> leader"
  using single_peer_never_leads [OF reachable.booted] reachable.booted by blast

text \<open>
  A peer that is started again with an empty persister, as \<open>main\<close> starts every process, has
  forgotten its vote: it grants a second candidate the term it had already given to the first.
\<close>

theorem empty_persister_votes_twice:
  "\<exists>reply rf reply' rf'. RequestVote 5 (voteCall 1 1) (bootedPeer 0) = Some (reply, rf) \<and> rvrVoteGranted reply
     \<and> RequestVote 9 (voteCall 1 2) (Make (peers rf) (me rf) MakePersister 8) = Some (reply', rf')
     \<and> rvrVoteGranted reply'"
  by (simp add: RequestVote_def bootedPeer_fields voteCall_def Let_def lastLogIndex_def logTerm_def stepDown_def
      Make_def readPersist_def)

end
