(* ===== verification/Raft_Protocol.thy ===== *)
theory Raft_Protocol
  imports Raft_Types "HOL-Library.Sublist"
begin

text \<open>
  The replication protocol without its code: stable terms, full logs, elections and
  acknowledgements, and why an entry acknowledged by a majority is never lost.

  A state keeps, for every peer, its stable term and its whole log since the beginning (a compacted
  peer of the program holds a suffix of it), and, for every term with a leader, who leads it, who
  elected it, its log when it was elected, its log now and how much of it it has committed.  What
  candidates offered, who voted for whom and who acknowledged which entry of which leader is
  recorded for good.

  The steps are those of the program and not those of the textbook protocol: a follower may accept
  the log of a leader of a \<^emph>\<open>later\<close> term than the one in the message (a round of heartbeats reads
  its term before it reads the log), and the installation of a snapshot puts the leader's prefix in
  front of whatever the follower has beyond it, without comparing terms.
\<close>

record 'c proto =
  dterm :: "nat \<Rightarrow> int"
  flog :: "nat \<Rightarrow> 'c LogEntry list"
  lead :: "int \<Rightarrow> nat option"
  electors :: "int \<Rightarrow> nat set"
  initLog :: "int \<Rightarrow> 'c LogEntry list"
  leadLog :: "int \<Rightarrow> 'c LogEntry list"
  leadCommit :: "int \<Rightarrow> nat"
  cand :: "nat \<Rightarrow> int \<Rightarrow> 'c LogEntry list option"
  ballots :: "(nat \<times> nat \<times> int) set"
  acks :: "(nat \<times> int \<times> nat) set"

definition proto_init :: "'c proto" where
  "proto_init = \<lparr>dterm = (\<lambda>_. 0), flog = (\<lambda>_. []), lead = (\<lambda>_. None), electors = (\<lambda>_. {}), initLog = (\<lambda>_. []),
     leadLog = (\<lambda>_. []), leadCommit = (\<lambda>_. 0), cand = (\<lambda>_ _. None), ballots = {}, acks = {}\<rparr>"

definition lastTerm :: "'c LogEntry list \<Rightarrow> int" where
  "lastTerm L = (if L = [] then 0 else eTerm (last L))"

text \<open>Position \<open>m\<close> (counted from 1) of the leader's log of term \<open>T\<close> holds an entry of that term.\<close>

definition own :: "'c proto \<Rightarrow> int \<Rightarrow> nat \<Rightarrow> bool" where
  "own g T m \<longleftrightarrow> 0 < m \<and> m \<le> length (leadLog g T) \<and> eTerm (leadLog g T ! (m - 1)) = T"

text \<open>An entry is chosen when a majority acknowledged it, and lost for good when a majority moved on
  without doing so.\<close>

definition chosen :: "nat \<Rightarrow> 'c proto \<Rightarrow> int \<Rightarrow> nat \<Rightarrow> bool" where
  "chosen n g T m \<longleftrightarrow> own g T m \<and> (\<exists>Q. majority n Q \<and> (\<forall>k\<in>Q. (k, T, m) \<in> acks g))"

definition unchosen :: "nat \<Rightarrow> 'c proto \<Rightarrow> int \<Rightarrow> nat \<Rightarrow> bool" where
  "unchosen n g T m \<longleftrightarrow> (\<exists>Q. majority n Q \<and> (\<forall>k\<in>Q. T < dterm g k \<and> (k, T, m) \<notin> acks g))"

text \<open>A prefix known to be chosen by leaders up to term \<open>D\<close>.\<close>

definition settled :: "nat \<Rightarrow> 'c proto \<Rightarrow> int \<Rightarrow> 'c LogEntry list \<Rightarrow> bool" where
  "settled n g D xs \<longleftrightarrow> xs = [] \<or>
     (\<exists>T m. chosen n g T m \<and> T \<le> D \<and> length xs \<le> m \<and> xs = take (length xs) (leadLog g T))"

text \<open>Every entry of the log is the one its leader put there; every prefix is a prefix of the log of
  the leader that wrote its last entry.\<close>

definition genuine :: "'c proto \<Rightarrow> 'c LogEntry list \<Rightarrow> bool" where
  "genuine g L \<longleftrightarrow> (\<forall>j < length L. j < length (leadLog g (eTerm (L ! j))) \<and> leadLog g (eTerm (L ! j)) ! j = L ! j)"

definition matched :: "'c proto \<Rightarrow> 'c LogEntry list \<Rightarrow> bool" where
  "matched g L \<longleftrightarrow> (\<forall>j < length L. j < length (leadLog g (eTerm (L ! j)))
     \<and> take (Suc j) (leadLog g (eTerm (L ! j))) = take (Suc j) L)"

text \<open>
  What the installation of a snapshot can leave behind: a chosen prefix in front of entries of
  older leaders whose logs never had that prefix.
\<close>

definition spliced :: "nat \<Rightarrow> 'c proto \<Rightarrow> int \<Rightarrow> 'c LogEntry list \<Rightarrow> bool" where
  "spliced n g D L \<longleftrightarrow> (\<exists>k T m U. chosen n g T m \<and> T \<le> U \<and> U \<le> D \<and> k \<le> leadCommit g U \<and> k \<le> m
     \<and> k < length L \<and> k \<le> length (leadLog g U) \<and> take k (leadLog g T) = take k L \<and> take k (leadLog g U) = take k L
     \<and> (\<forall>j. k \<le> j \<and> j < length L \<longrightarrow>
          eTerm (L ! j) < T \<and> take k (leadLog g (eTerm (L ! j))) \<noteq> take k L))"

definition holds :: "'c proto \<Rightarrow> 'c LogEntry list \<Rightarrow> int \<Rightarrow> nat \<Rightarrow> bool" where
  "holds g L T m \<longleftrightarrow> m \<le> length L \<and> take m L = take m (leadLog g T)
     \<and> (\<forall>j. m \<le> Suc j \<and> j < length L \<longrightarrow> T \<le> eTerm (L ! j))"


section \<open>Steps\<close>

text \<open>A follower's log after it accepted the leader's log \<open>K\<close>: its own, when that already contains
  \<open>K\<close>, and \<open>K\<close> otherwise.\<close>

definition accepted :: "'c LogEntry list \<Rightarrow> 'c LogEntry list \<Rightarrow> 'c LogEntry list" where
  "accepted K L = (if prefix K L then L else K)"

definition installed :: "'c LogEntry list \<Rightarrow> nat \<Rightarrow> 'c LogEntry list \<Rightarrow> 'c LogEntry list" where
  "installed K m L = take m K @ drop m L"

definition newAcks :: "'c proto \<Rightarrow> nat \<Rightarrow> int \<Rightarrow> 'c LogEntry list \<Rightarrow> 'c LogEntry list \<Rightarrow> (nat \<times> int \<times> nat) set" where
  "newAcks g k T K L = {(k, T, m) |m. own g T m \<and> m \<le> length K \<and> matched g (accepted K L)}"

definition sameEnd :: "nat \<Rightarrow> 'c LogEntry list \<Rightarrow> 'c LogEntry list \<Rightarrow> bool" where
  "sameEnd p K L \<longleftrightarrow> p \<le> length K \<and> p \<le> length L \<and> (p = 0 \<or> eTerm (K ! (p - 1)) = eTerm (L ! (p - 1)))"

definition between :: "'c proto \<Rightarrow> int \<Rightarrow> 'c LogEntry list \<Rightarrow> bool" where
  "between g T K \<longleftrightarrow> lead g T \<noteq> None \<and> prefix (initLog g T) K \<and> prefix K (leadLog g T)"

inductive pstep :: "nat \<Rightarrow> 'c proto \<Rightarrow> 'c proto \<Rightarrow> bool" for n where
  raise: "dterm g k \<le> t \<Longrightarrow> pstep n g (g\<lparr>dterm := (dterm g)(k := t)\<rparr>)"
| candidate: "dterm g i < T \<Longrightarrow> 0 < T \<Longrightarrow>
    pstep n g (g\<lparr>dterm := (dterm g)(i := T), cand := (cand g)(i := (cand g i)(T := Some (flog g i))),
      ballots := insert (i, i, T) (ballots g)\<rparr>)"
| vote: "cand g i T = Some C \<Longrightarrow> dterm g k \<le> T \<Longrightarrow> (\<And>j. (k, j, T) \<in> ballots g \<Longrightarrow> j = i) \<Longrightarrow>
    lastTerm (flog g k) < lastTerm C \<or> lastTerm (flog g k) = lastTerm C \<and> length (flog g k) \<le> length C \<Longrightarrow>
    pstep n g (g\<lparr>dterm := (dterm g)(k := T), ballots := insert (k, i, T) (ballots g)\<rparr>)"
| win: "cand g i T = Some C \<Longrightarrow> lead g T = None \<Longrightarrow> majority n Q \<Longrightarrow> \<forall>k\<in>Q. (k, i, T) \<in> ballots g \<Longrightarrow>
    c \<le> length C \<Longrightarrow> settled n g T (take c C) \<Longrightarrow>
    pstep n g (g\<lparr>lead := (lead g)(T := Some i), electors := (electors g)(T := Q), initLog := (initLog g)(T := C),
      leadLog := (leadLog g)(T := C), leadCommit := (leadCommit g)(T := c)\<rparr>)"
| append: "lead g T = Some i \<Longrightarrow> dterm g i = T \<Longrightarrow> flog g i = leadLog g T \<Longrightarrow> eTerm e = T \<Longrightarrow>
    pstep n g (g\<lparr>leadLog := (leadLog g)(T := leadLog g T @ [e]), flog := (flog g)(i := flog g i @ [e]),
      acks := insert (i, T, Suc (length (leadLog g T))) (acks g)\<rparr>)"
| accept: "between g T K \<Longrightarrow> dterm g k \<le> t \<Longrightarrow> t \<le> T \<Longrightarrow> sameEnd p K (flog g k) \<Longrightarrow>
    pstep n g (g\<lparr>dterm := (dterm g)(k := t), flog := (flog g)(k := accepted K (flog g k)),
      acks := acks g \<union> (if t = T then newAcks g k T K (flog g k) else {})\<rparr>)"
| install: "lead g T \<noteq> None \<Longrightarrow> m \<le> leadCommit g T \<Longrightarrow> dterm g k \<le> T \<Longrightarrow>
    pstep n g (g\<lparr>dterm := (dterm g)(k := T), flog := (flog g)(k := installed (leadLog g T) m (flog g k))\<rparr>)"
| commit: "chosen n g T c \<Longrightarrow> leadCommit g T \<le> c \<Longrightarrow>
    pstep n g (g\<lparr>leadCommit := (leadCommit g)(T := c)\<rparr>)"


section \<open>What stays true while a state grows\<close>

definition grows :: "'c proto \<Rightarrow> 'c proto \<Rightarrow> bool" where
  "grows g g' \<longleftrightarrow> (\<forall>k. dterm g k \<le> dterm g' k) \<and> (\<forall>T. prefix (leadLog g T) (leadLog g' T))
     \<and> (\<forall>T. leadCommit g T \<le> leadCommit g' T)
     \<and> (\<forall>T i. lead g T = Some i \<longrightarrow> lead g' T = Some i \<and> initLog g' T = initLog g T \<and> electors g' T = electors g T)
     \<and> (\<forall>i T C. cand g i T = Some C \<longrightarrow> cand g' i T = Some C)
     \<and> ballots g \<subseteq> ballots g' \<and> acks g \<subseteq> acks g' \<and> (\<forall>k T m. (k, T, m) \<in> acks g' \<longrightarrow> (k, T, m) \<in> acks g \<or> dterm g k \<le> T)"

lemma grows_refl [simp]: "grows g g" by (simp add: grows_def)

lemma growsD:
  assumes "grows g g'"
  shows "dterm g k \<le> dterm g' k" "prefix (leadLog g T) (leadLog g' T)" "leadCommit g T \<le> leadCommit g' T"
    "lead g T = Some i \<Longrightarrow> lead g' T = Some i \<and> initLog g' T = initLog g T \<and> electors g' T = electors g T"
    "cand g i T = Some C \<Longrightarrow> cand g' i T = Some C" "b \<in> ballots g \<Longrightarrow> b \<in> ballots g'" "a \<in> acks g \<Longrightarrow> a \<in> acks g'"
    "(k, T, m) \<in> acks g' \<Longrightarrow> (k, T, m) \<in> acks g \<or> dterm g k \<le> T"
  using assms unfolding grows_def by blast+

lemma grows_trans:
  assumes "grows g g'" "grows g' g''" shows "grows g g''"
  unfolding grows_def
proof (intro conjI allI impI subsetI)
  fix k T m assume "(k, T, m) \<in> acks g''"
  then show "(k, T, m) \<in> acks g \<or> dterm g k \<le> T"
    using growsD(8) [OF assms(1)] growsD(8) [OF assms(2)] growsD(1) [OF assms(1), of k] by fastforce
next
  show "dterm g k \<le> dterm g'' k" "leadCommit g T \<le> leadCommit g'' T" for k T
    using growsD(1,3) [OF assms(1)] growsD(1,3) [OF assms(2)] order_trans by blast+
  show "prefix (leadLog g T) (leadLog g'' T)" for T
    using growsD(2) [OF assms(1)] growsD(2) [OF assms(2)] prefix_order.order_trans by blast
qed (use growsD(4-7) [OF assms(1)] growsD(4-7) [OF assms(2)] in auto)

lemma prefix_take_same: "prefix xs ys \<Longrightarrow> m \<le> length xs \<Longrightarrow> take m ys = take m xs"
  by (auto simp: prefix_def)

lemma prefix_nth_same: "prefix xs ys \<Longrightarrow> j < length xs \<Longrightarrow> ys ! j = xs ! j"
  by (auto simp: prefix_def nth_append)

lemma prefix_takeD: "prefix xs ys \<Longrightarrow> take (length xs) ys = xs"
  by (auto simp: prefix_def)

lemma grows_leadLog:
  assumes "grows g g'"
  shows "length (leadLog g T) \<le> length (leadLog g' T)"
    "m \<le> length (leadLog g T) \<Longrightarrow> take m (leadLog g' T) = take m (leadLog g T)"
    "j < length (leadLog g T) \<Longrightarrow> leadLog g' T ! j = leadLog g T ! j"
  using growsD(2) [OF assms, of T] by (simp_all add: prefix_take_same prefix_nth_same prefix_length_le)

lemma own_grows: "grows g g' \<Longrightarrow> own g T m \<Longrightarrow> own g' T m"
  using grows_leadLog(1,3) [of g g'] by (fastforce simp: own_def intro: order_trans)

lemma own_back: "grows g g' \<Longrightarrow> own g' T m \<Longrightarrow> m \<le> length (leadLog g T) \<Longrightarrow> own g T m"
  using grows_leadLog(1,3) [of g g'] by (fastforce simp: own_def intro: order_trans)

lemma chosen_grows: "grows g g' \<Longrightarrow> chosen n g T m \<Longrightarrow> chosen n g' T m"
  unfolding chosen_def using own_grows growsD(7) by blast

lemma unchosen_grows: "grows g g' \<Longrightarrow> unchosen n g T m \<Longrightarrow> unchosen n g' T m"
  unfolding unchosen_def by (meson growsD(1,8) less_le_trans not_le)

lemma settled_grows:
  assumes "grows g g'" "settled n g D xs" "D \<le> D'" shows "settled n g' D' xs"
proof (cases "xs = []")
  case False
  then obtain T m where c: "chosen n g T m" "T \<le> D" "length xs \<le> m" "xs = take (length xs) (leadLog g T)"
    using assms(2) by (auto simp: settled_def)
  then have "length xs \<le> length (leadLog g T)" by (auto simp: chosen_def own_def)
  then have "xs = take (length xs) (leadLog g' T)" using c(4) grows_leadLog(2) [OF assms(1)] by simp
  with c chosen_grows [OF assms(1)] assms(3) show ?thesis by (auto simp: settled_def intro!: exI [of _ T] exI [of _ m])
qed (simp add: settled_def)

lemma matched_genuine: "matched g L \<Longrightarrow> genuine g L"
  unfolding matched_def genuine_def by (metis lessI nth_take)

lemma genuine_grows: "grows g g' \<Longrightarrow> genuine g L \<Longrightarrow> genuine g' L"
  using grows_leadLog [of g g'] unfolding genuine_def by (auto intro: less_le_trans)

lemma matched_grows_iff: "grows g g' \<Longrightarrow> genuine g L \<Longrightarrow> matched g' L \<longleftrightarrow> matched g L"
  using grows_leadLog(1,2) [of g g'] unfolding matched_def genuine_def by (auto simp: Suc_le_eq intro: less_le_trans)

lemma matched_grows: "grows g g' \<Longrightarrow> matched g L \<Longrightarrow> matched g' L"
  using matched_grows_iff matched_genuine by blast

lemma holds_grows: "grows g g' \<Longrightarrow> own g T m \<Longrightarrow> holds g L T m \<Longrightarrow> holds g' L T m"
  using grows_leadLog(2) [of g g'] by (auto simp: holds_def own_def)

lemma spliced_grows:
  assumes "grows g g'" "genuine g L" "spliced n g D L" "D \<le> D'"
  shows "spliced n g' D' L"
proof -
  obtain k T m U where s: "chosen n g T m" "T \<le> U" "U \<le> D" "k \<le> leadCommit g U" "k \<le> m" "k < length L"
    "k \<le> length (leadLog g U)" "take k (leadLog g T) = take k L" "take k (leadLog g U) = take k L"
    "\<And>j. k \<le> j \<Longrightarrow> j < length L \<Longrightarrow> eTerm (L ! j) < T \<and> take k (leadLog g (eTerm (L ! j))) \<noteq> take k L"
    using assms(3) unfolding spliced_def by blast
  have "k \<le> length (leadLog g T)" using s(1,5) by (auto simp: chosen_def own_def)
  then have same: "take k (leadLog g' T) = take k L" "take k (leadLog g' U) = take k L"
    using s(7-9) grows_leadLog(2) [OF assms(1)] by simp_all
  have rest: "eTerm (L ! j) < T \<and> take k (leadLog g' (eTerm (L ! j))) \<noteq> take k L" if "k \<le> j" "j < length L" for j
  proof -
    have "k \<le> length (leadLog g (eTerm (L ! j)))" using assms(2) that by (auto simp: genuine_def)
    then show ?thesis using s(10) [OF that] grows_leadLog(2) [OF assms(1)] by simp
  qed
  have "k \<le> leadCommit g' U" "k \<le> length (leadLog g' U)"
    using s(4,7) assms(1) grows_leadLog(1) [OF assms(1), of U] by (auto simp: grows_def intro: order_trans)
  with s chosen_grows [OF assms(1) s(1)] same rest assms(4) show ?thesis
    unfolding spliced_def by (intro exI [of _ k] exI [of _ T] exI [of _ m] exI [of _ U]) auto
qed

end
