(* ===== verification/Raft_Safety.thy ===== *)
theory Raft_Safety
  imports Raft_Protocol
begin

text \<open>
  The invariant of the protocol of \<open>Raft_Protocol\<close> and its consequences: an entry a majority
  acknowledged is in the log of every later leader, and two chosen prefixes agree.
\<close>

section \<open>The invariant\<close>

definition lead_ok :: "nat \<Rightarrow> 'c proto \<Rightarrow> int \<Rightarrow> nat \<Rightarrow> bool" where
  "lead_ok n g T i \<longleftrightarrow> 0 < T \<and> majority n (electors g T) \<and> (\<forall>k\<in>electors g T. (k, i, T) \<in> ballots g)
     \<and> prefix (initLog g T) (leadLog g T) \<and> (\<forall>e\<in>set (initLog g T). eTerm e < T)
     \<and> (\<forall>j. length (initLog g T) \<le> j \<and> j < length (leadLog g T) \<longrightarrow> eTerm (leadLog g T ! j) = T)
     \<and> matched g (leadLog g T) \<and> sorted (map eTerm (leadLog g T))
     \<and> leadCommit g T \<le> length (leadLog g T) \<and> settled n g T (take (leadCommit g T) (leadLog g T))"

definition ballot_ok :: "'c proto \<Rightarrow> nat \<Rightarrow> nat \<Rightarrow> int \<Rightarrow> bool" where
  "ballot_ok g k i T \<longleftrightarrow> T \<le> dterm g k \<and> cand g i T \<noteq> None \<and> (\<forall>j. (k, j, T) \<in> ballots g \<longrightarrow> j = i)"

definition ack_ok :: "nat \<Rightarrow> 'c proto \<Rightarrow> nat \<Rightarrow> int \<Rightarrow> nat \<Rightarrow> bool" where
  "ack_ok n g k T m \<longleftrightarrow> T \<le> dterm g k \<and> own g T m \<and> (unchosen n g T m \<or> holds g (flog g k) T m)"

definition cand_ok :: "nat \<Rightarrow> 'c proto \<Rightarrow> nat \<Rightarrow> int \<Rightarrow> 'c LogEntry list \<Rightarrow> bool" where
  "cand_ok n g i T C \<longleftrightarrow> 0 < T \<and> T \<le> dterm g i \<and> genuine g C \<and> (matched g C \<or> spliced n g (T - 1) C)
     \<and> (\<forall>e\<in>set C. eTerm e = T \<longrightarrow> lead g T \<noteq> Some i)"

definition log_ok :: "nat \<Rightarrow> 'c proto \<Rightarrow> nat \<Rightarrow> bool" where
  "log_ok n g k \<longleftrightarrow> 0 \<le> dterm g k \<and> genuine g (flog g k) \<and> (matched g (flog g k) \<or> spliced n g (dterm g k) (flog g k))"

text \<open>A later leader starts with every entry of an earlier one that is not lost for good.\<close>

definition complete_ok :: "nat \<Rightarrow> 'c proto \<Rightarrow> int \<Rightarrow> nat \<Rightarrow> int \<Rightarrow> bool" where
  "complete_ok n g T m U \<longleftrightarrow> unchosen n g T m \<or> prefix (take m (leadLog g T)) (initLog g U)"

text \<open>A candidate that got the vote of a peer that acknowledged an entry is not behind that entry.\<close>

definition vote_ok :: "nat \<Rightarrow> 'c proto \<Rightarrow> 'c LogEntry list \<Rightarrow> int \<Rightarrow> nat \<Rightarrow> bool" where
  "vote_ok n g C T m \<longleftrightarrow> unchosen n g T m
     \<or> T \<le> lastTerm C \<and> (matched g C \<longrightarrow> prefix (take m (leadLog g T)) C)"

text \<open>A candidate that has an entry of its own or a later term gets no vote from those who elected
  the leader that wrote it.\<close>

definition late_ok :: "'c proto \<Rightarrow> nat \<Rightarrow> int \<Rightarrow> 'c LogEntry list \<Rightarrow> bool" where
  "late_ok g k T C \<longleftrightarrow> (\<forall>e\<in>set C. T \<le> eTerm e \<longrightarrow> k \<notin> electors g (eTerm e))"

definition pinv :: "nat \<Rightarrow> 'c proto \<Rightarrow> bool" where
  "pinv n g \<longleftrightarrow> (\<forall>T i. lead g T = Some i \<longrightarrow> lead_ok n g T i)
     \<and> (\<forall>T. lead g T = None \<longrightarrow> leadLog g T = [] \<and> leadCommit g T = 0)
     \<and> (\<forall>k i T. (k, i, T) \<in> ballots g \<longrightarrow> ballot_ok g k i T)
     \<and> (\<forall>k T m. (k, T, m) \<in> acks g \<longrightarrow> ack_ok n g k T m)
     \<and> (\<forall>i T C. cand g i T = Some C \<longrightarrow> cand_ok n g i T C)
     \<and> (\<forall>k. log_ok n g k)
     \<and> (\<forall>T m U. lead g U \<noteq> None \<longrightarrow> T < U \<longrightarrow> own g T m \<longrightarrow> complete_ok n g T m U)
     \<and> (\<forall>k i T C U m. (k, i, U) \<in> ballots g \<longrightarrow> cand g i U = Some C \<longrightarrow> (k, T, m) \<in> acks g \<longrightarrow> T < U \<longrightarrow> vote_ok n g C T m)
     \<and> (\<forall>k i T C. (k, i, T) \<in> ballots g \<longrightarrow> cand g i T = Some C \<longrightarrow> late_ok g k T C)"

lemma pinvD:
  assumes "pinv n g"
  shows "lead g T = Some i \<Longrightarrow> lead_ok n g T i"
    "lead g T = None \<Longrightarrow> leadLog g T = [] \<and> leadCommit g T = 0"
    "(k, i, T) \<in> ballots g \<Longrightarrow> ballot_ok g k i T"
    "(k, T, m) \<in> acks g \<Longrightarrow> ack_ok n g k T m"
    "cand g i T = Some C \<Longrightarrow> cand_ok n g i T C"
    "log_ok n g k"
    "lead g U \<noteq> None \<Longrightarrow> T < U \<Longrightarrow> own g T m \<Longrightarrow> complete_ok n g T m U"
    "(k, i, U) \<in> ballots g \<Longrightarrow> cand g i U = Some C \<Longrightarrow> (k, T, m) \<in> acks g \<Longrightarrow> T < U \<Longrightarrow> vote_ok n g C T m"
    "(k, i, T) \<in> ballots g \<Longrightarrow> cand g i T = Some C \<Longrightarrow> late_ok g k T C"
  using assms by (simp_all add: pinv_def)


lemma ballotD:
  assumes "pinv n g" "(k, i, T) \<in> ballots g"
  shows "T \<le> dterm g k" "cand g i T \<noteq> None" "(k, j, T) \<in> ballots g \<Longrightarrow> j = i"
  using pinvD(3) [OF assms] unfolding ballot_ok_def by blast+

lemma ackD:
  assumes "pinv n g" "(k, T, m) \<in> acks g"
  shows "T \<le> dterm g k" "own g T m" "unchosen n g T m \<or> holds g (flog g k) T m"
  using pinvD(4) [OF assms] by (simp_all add: ack_ok_def)


section \<open>Consequences in one state\<close>

lemma chosen_not_unchosen: "chosen n g T m \<Longrightarrow> \<not> unchosen n g T m"
  unfolding chosen_def unchosen_def by (metis majority_meet)

lemma own_lead: "pinv n g \<Longrightarrow> own g T m \<Longrightarrow> lead g T \<noteq> None"
  using pinvD(2) [of n g T] unfolding own_def by (metis le_zero_eq length_0_conv less_irrefl)

lemma own_pos: "pinv n g \<Longrightarrow> own g T m \<Longrightarrow> 0 < T"
  using own_lead [of n g T m] pinvD(1) [of n g T] by (auto simp: lead_ok_def)

lemma genuine_lead: "pinv n g \<Longrightarrow> genuine g L \<Longrightarrow> e \<in> set L \<Longrightarrow> lead g (eTerm e) \<noteq> None"
  using pinvD(2) [of n g "eTerm e"] by (fastforce simp: genuine_def in_set_conv_nth)

lemma chosen_later:
  assumes "pinv n g" "chosen n g T m" "T \<le> U" "lead g U \<noteq> None"
  shows "take m (leadLog g U) = take m (leadLog g T)" "m \<le> length (leadLog g U)" "T < U \<Longrightarrow> m \<le> length (initLog g U)"
proof -
  have own: "own g T m" using assms(2) by (simp add: chosen_def)
  have len: "length (take m (leadLog g T)) = m" using own by (simp add: own_def)
  obtain i where i: "lead g U = Some i" using assms(4) by blast
  have "prefix (initLog g U) (leadLog g U)" using pinvD(1) [OF assms(1) i] by (simp add: lead_ok_def)
  moreover have "prefix (take m (leadLog g T)) (initLog g U)" if "T < U"
    using pinvD(7) [OF assms(1,4) that own] chosen_not_unchosen [OF assms(2)] by (simp add: complete_ok_def)
  ultimately have pre: "prefix (take m (leadLog g T)) (initLog g U) \<and> prefix (take m (leadLog g T)) (leadLog g U)" if "T < U"
    using that prefix_order.order_trans by blast
  show "take m (leadLog g U) = take m (leadLog g T)"
  proof (cases "T = U")
    case False
    then have "prefix (take m (leadLog g T)) (leadLog g U)" using pre assms(3) by simp
    from prefix_takeD [OF this] show ?thesis by (simp only: len)
  qed simp
  show "m \<le> length (leadLog g U)"
  proof (cases "T = U")
    case True
    with own show ?thesis by (simp add: own_def)
  next
    case False
    then have "prefix (take m (leadLog g T)) (leadLog g U)" using pre assms(3) by simp
    from prefix_length_le [OF this] show ?thesis by (simp only: len)
  qed
  show "m \<le> length (initLog g U)" if "T < U"
    using prefix_length_le [of "take m (leadLog g T)" "initLog g U"] pre that len by simp
qed

lemma take_shorter: "take m xs = take m ys \<Longrightarrow> k \<le> m \<Longrightarrow> take k xs = take k ys"
  by (metis min.absorb1 take_take)

lemma chosen_agree:
  assumes "pinv n g" "chosen n g T m" "chosen n g U m'" "k \<le> m" "k \<le> m'"
  shows "take k (leadLog g T) = take k (leadLog g U)"
proof -
  have *: "take k (leadLog g T) = take k (leadLog g U)"
    if "chosen n g T m" "chosen n g U m'" "k \<le> m" "T \<le> U" for T U m m'
  proof -
    have "lead g U \<noteq> None" using that(2) own_lead [OF assms(1)] by (auto simp: chosen_def)
    from take_shorter [OF chosen_later(1) [OF assms(1) that(1,4) this] that(3)] show ?thesis by simp
  qed
  show ?thesis
  proof (cases "T \<le> U")
    case True
    then show ?thesis using * [OF assms(2,3,4)] by blast
  next
    case False
    then show ?thesis using * [OF assms(3,2,5)] by simp
  qed
qed

lemma settled_agree:
  assumes "pinv n g" "settled n g D xs" "settled n g D' ys" "k \<le> length xs" "k \<le> length ys"
  shows "take k xs = take k ys"
proof (cases "k = 0")
  case False
  with assms(4,5) have "xs \<noteq> []" "ys \<noteq> []" by auto
  then obtain T m U m' where c: "chosen n g T m" "length xs \<le> m" "xs = take (length xs) (leadLog g T)"
    "chosen n g U m'" "length ys \<le> m'" "ys = take (length ys) (leadLog g U)"
    using assms(2,3) unfolding settled_def by blast
  have "take k xs = take k (leadLog g T)" "take k ys = take k (leadLog g U)"
    by (rule take_shorter [OF _ assms(4)], use c(3) in simp) (rule take_shorter [OF _ assms(5)], use c(6) in simp)
  moreover have "take k (leadLog g T) = take k (leadLog g U)"
    using chosen_agree [OF assms(1) c(1,4)] c(2,5) assms(4,5) by simp
  ultimately show ?thesis by simp
qed simp

lemma settled_take:
  assumes "settled n g D xs" shows "settled n g D (take k xs)"
proof (cases "xs = []")
  case False
  then obtain T m where c: "chosen n g T m" "T \<le> D" "length xs \<le> m" "xs = take (length xs) (leadLog g T)"
    using assms unfolding settled_def by blast
  have "take (length (take k xs)) (leadLog g T) = take (length (take k xs)) xs"
    by (rule take_shorter [of "length xs"]) (use c(4) in simp_all)
  then have "take k xs = take (length (take k xs)) (leadLog g T)" by (simp add: take_all min_def split: if_splits)
  moreover have "length (take k xs) \<le> m" using c(3) by simp
  ultimately show ?thesis using c(1,2) unfolding settled_def by blast
qed (simp add: settled_def)

lemma settled_leader:
  assumes "pinv n g" "settled n g D xs" "D \<le> U" "lead g U \<noteq> None"
  shows "prefix xs (leadLog g U)"
proof (cases "xs = []")
  case False
  then obtain T m where c: "chosen n g T m" "T \<le> D" "length xs \<le> m" "xs = take (length xs) (leadLog g T)"
    using assms(2) unfolding settled_def by blast
  have "take m (leadLog g U) = take m (leadLog g T)"
    using chosen_later(1) [OF assms(1) c(1) _ assms(4)] c(2) assms(3) by simp
  from take_shorter [OF this c(3)] have "xs = take (length xs) (leadLog g U)" using c(4) by simp
  then show ?thesis by (metis take_is_prefix)
qed simp

text \<open>What a leader sent at any moment contains every settled prefix, or is contained in it.\<close>

lemma settled_between:
  assumes "pinv n g" "settled n g D xs" "D \<le> U" "between g U K"
  shows "prefix xs K \<or> prefix K xs"
  using settled_leader [OF assms(1,2,3)] assms(4) unfolding between_def by (metis prefix_same_cases)

lemma matched_last:
  assumes "matched g L" "L \<noteq> []"
  shows "take (length L) (leadLog g (lastTerm L)) = L" "length L \<le> length (leadLog g (lastTerm L))"
proof -
  have "length L - 1 < length L" "Suc (length L - 1) = length L" using assms(2) by simp_all
  with assms show "take (length L) (leadLog g (lastTerm L)) = L" "length L \<le> length (leadLog g (lastTerm L))"
    unfolding matched_def lastTerm_def by (metis last_conv_nth order_refl take_all, metis Suc_leI last_conv_nth)
qed

lemma matched_take: "matched g L \<Longrightarrow> matched g (take k L)"
  by (auto simp: matched_def min_absorb1)

lemma lead_log:
  assumes "pinv n g" "lead g T \<noteq> None"
  shows "matched g (leadLog g T)" "sorted (map eTerm (leadLog g T))" "leadCommit g T \<le> length (leadLog g T)"
    "settled n g T (take (leadCommit g T) (leadLog g T))" "prefix (initLog g T) (leadLog g T)" "0 < T"
    "e \<in> set (initLog g T) \<Longrightarrow> eTerm e < T" "e \<in> set (leadLog g T) \<Longrightarrow> eTerm e \<le> T"
proof -
  obtain i where "lead g T = Some i" using assms(2) by blast
  from pinvD(1) [OF assms(1) this] have ok: "lead_ok n g T i" .
  then show "matched g (leadLog g T)" "sorted (map eTerm (leadLog g T))" "leadCommit g T \<le> length (leadLog g T)"
    "settled n g T (take (leadCommit g T) (leadLog g T))" "prefix (initLog g T) (leadLog g T)" "0 < T"
    by (simp_all add: lead_ok_def)
  show init: "eTerm e < T" if "e \<in> set (initLog g T)" for e using ok that unfolding lead_ok_def by blast
  show "eTerm e \<le> T" if mem: "e \<in> set (leadLog g T)"
  proof -
    obtain j where j: "j < length (leadLog g T)" "e = leadLog g T ! j" using mem by (metis in_set_conv_nth)
    show ?thesis
    proof (cases "j < length (initLog g T)")
      case True
      moreover have "prefix (initLog g T) (leadLog g T)" using ok by (simp add: lead_ok_def)
      ultimately have "e = initLog g T ! j" using j(2) by (simp add: prefix_nth_same)
      then show ?thesis using init True by (metis less_imp_le nth_mem)
    next
      case False
      with j ok have "eTerm e = T" unfolding lead_ok_def by (metis not_le)
      then show ?thesis by simp
    qed
  qed
qed

lemma matched_sorted:
  assumes "pinv n g" "matched g L"
  shows "sorted (map eTerm L)"
proof (cases "L = []")
  case False
  have "lead g (lastTerm L) \<noteq> None"
    using genuine_lead [OF assms(1) matched_genuine [OF assms(2)], of "last L"] False by (simp add: lastTerm_def)
  then have "sorted (map eTerm (leadLog g (lastTerm L)))" by (rule lead_log(2) [OF assms(1)])
  then show ?thesis using matched_last(1) [OF assms(2) False] by (metis sorted_wrt_take take_map)
qed simp

lemma between_log:
  assumes "pinv n g" "between g T K"
  shows "matched g K" "sorted (map eTerm K)"
proof -
  have "K = take (length K) (leadLog g T)" using assms(2) prefix_takeD by (metis between_def)
  then show "matched g K" using lead_log(1) [OF assms(1), of T] matched_take assms(2) by (metis between_def)
  then show "sorted (map eTerm K)" by (rule matched_sorted [OF assms(1)])
qed

text \<open>Two matched logs with the same term at a position agree up to there.\<close>

lemma matched_agree:
  assumes "matched g L" "matched g K" "j < length L" "j < length K" "eTerm (L ! j) = eTerm (K ! j)"
  shows "take (Suc j) L = take (Suc j) K"
  using assms unfolding matched_def by metis

lemma genuine_agree:
  assumes "genuine g L" "genuine g K" "j < length L" "j < length K" "eTerm (L ! j) = eTerm (K ! j)"
  shows "L ! j = K ! j"
  using assms unfolding genuine_def by metis


section \<open>Steps keep what does not change\<close>

lemma lead_ok_grows:
  assumes "grows g g'" "lead_ok n g T i" "lead g T = Some i" "leadLog g' T = leadLog g T" "leadCommit g' T = leadCommit g T"
  shows "lead_ok n g' T i"
proof -
  have "initLog g' T = initLog g T" "electors g' T = electors g T" using growsD(4) [OF assms(1,3)] by simp_all
  moreover have "b \<in> ballots g \<Longrightarrow> b \<in> ballots g'" for b using growsD(6) [OF assms(1)] .
  moreover have "matched g' (leadLog g T)" using matched_grows [OF assms(1)] assms(2) by (simp add: lead_ok_def)
  moreover have "settled n g' T (take (leadCommit g T) (leadLog g T))"
    using settled_grows [OF assms(1) _ order_refl] assms(2) by (simp add: lead_ok_def)
  ultimately show ?thesis using assms(2,4,5) unfolding lead_ok_def by simp
qed

lemma ack_ok_grows:
  assumes "grows g g'" "ack_ok n g k T m" "flog g' k = flog g k"
  shows "ack_ok n g' k T m"
  using assms growsD(1) [OF assms(1), of k] own_grows [OF assms(1)] unchosen_grows [OF assms(1)] holds_grows [OF assms(1)]
  by (auto simp: ack_ok_def intro: order_trans)

lemma cand_ok_grows:
  assumes "pinv n g" "grows g g'" "cand_ok n g i T C"
  shows "cand_ok n g' i T C"
proof -
  have gen: "genuine g C" using assms(3) by (simp add: cand_ok_def)
  have "lead g' T \<noteq> Some i" if e: "e \<in> set C" "eTerm e = T" for e
  proof -
    obtain j where "lead g T = Some j" using genuine_lead [OF assms(1) gen e(1)] e(2) by auto
    moreover from this have "j \<noteq> i" using assms(3) e by (auto simp: cand_ok_def)
    ultimately show ?thesis using growsD(4) [OF assms(2)] by simp
  qed
  moreover have "matched g' C \<or> spliced n g' (T - 1) C"
    using assms(3) matched_grows [OF assms(2)] spliced_grows [OF assms(2) gen _ order_refl] by (auto simp: cand_ok_def)
  moreover have "T \<le> dterm g' i" using assms(3) growsD(1) [OF assms(2), of i] by (simp add: cand_ok_def)
  ultimately show ?thesis using assms(3) genuine_grows [OF assms(2) gen] by (simp add: cand_ok_def)
qed

lemma log_ok_grows:
  assumes "grows g g'" "log_ok n g k" "flog g' k = flog g k"
  shows "log_ok n g' k"
  using assms growsD(1) [OF assms(1), of k] genuine_grows [OF assms(1)] matched_grows [OF assms(1)]
    spliced_grows [OF assms(1)]
  by (auto simp: log_ok_def intro: order_trans)

lemma complete_ok_grows:
  assumes "grows g g'" "complete_ok n g T m U" "lead g U \<noteq> None" "own g T m"
  shows "complete_ok n g' T m U"
proof -
  have "initLog g' U = initLog g U" using growsD(4) [OF assms(1)] assms(3) by blast
  moreover have "take m (leadLog g' T) = take m (leadLog g T)"
    using grows_leadLog(2) [OF assms(1)] assms(4) by (simp add: own_def)
  ultimately show ?thesis using assms(2) unchosen_grows [OF assms(1)] by (auto simp: complete_ok_def)
qed

lemma vote_ok_grows:
  assumes "grows g g'" "vote_ok n g C T m" "genuine g C" "own g T m"
  shows "vote_ok n g' C T m"
proof -
  have "take m (leadLog g' T) = take m (leadLog g T)"
    using grows_leadLog(2) [OF assms(1)] assms(4) by (simp add: own_def)
  then show ?thesis
    using assms(2) unchosen_grows [OF assms(1)] matched_grows_iff [OF assms(1,3)] by (auto simp: vote_ok_def)
qed

lemma late_ok_grows:
  assumes "pinv n g" "grows g g'" "late_ok g k T C" "genuine g C"
  shows "late_ok g' k T C"
proof -
  have "electors g' (eTerm e) = electors g (eTerm e)" if "e \<in> set C" for e
    using genuine_lead [OF assms(1,4) that] growsD(4) [OF assms(2)] by blast
  then show ?thesis using assms(3) by (auto simp: late_ok_def)
qed

lemma votes_grow:
  assumes inv: "pinv n g" and gr: "grows g g'" and bal: "(k, i, T) \<in> ballots g" and C: "cand g' i T = Some C"
  shows "late_ok g' k T C" "(k, S, m) \<in> acks g' \<Longrightarrow> S < T \<Longrightarrow> vote_ok n g' C S m"
proof -
  obtain D where D: "cand g i T = Some D" using ballotD(2) [OF inv bal] by blast
  then have old: "cand g i T = Some C" using growsD(5) [OF gr D] C by simp
  with pinvD(5) [OF inv this] have gen: "genuine g C" by (simp add: cand_ok_def)
  show "late_ok g' k T C" using late_ok_grows [OF inv gr pinvD(9) [OF inv bal old]] gen by blast
  assume a: "(k, S, m) \<in> acks g'" "S < T"
  have "\<not> dterm g k \<le> S" using ballotD(1) [OF inv bal] a(2) by simp
  then have a': "(k, S, m) \<in> acks g" using growsD(8) [OF gr a(1)] by blast
  then have "own g S m" by (rule ackD(2) [OF inv])
  with vote_ok_grows [OF gr pinvD(8) [OF inv bal old a' a(2)] gen] show "vote_ok n g' C S m" by blast
qed

lemma ballot_grows:
  assumes inv: "pinv n g" and gr: "grows g g'" and bal: "(k, i, T) \<in> ballots g"
    and single: "\<And>j. (k, j, T) \<in> ballots g' \<Longrightarrow> j = i"
  shows "ballot_ok g' k i T"
proof -
  note ok = ballotD(1,2) [OF inv bal]
  from ok(2) obtain D where "cand g i T = Some D" by blast
  from growsD(5) [OF gr this] have "cand g' i T \<noteq> None" by simp
  moreover have "T \<le> dterm g' k" using ok(1) growsD(1) [OF gr, of k] by simp
  ultimately show ?thesis using single unfolding ballot_ok_def by blast
qed

text \<open>The invariant after a step, given the part of it that the step touched.\<close>

lemma pinv_grows:
  assumes inv: "pinv n g" and gr: "grows g g'"
    and lead: "\<And>T i. lead g' T = Some i \<Longrightarrow>
      lead g T = Some i \<and> leadLog g' T = leadLog g T \<and> leadCommit g' T = leadCommit g T \<or> lead_ok n g' T i"
    and none: "\<And>T. lead g' T = None \<Longrightarrow> leadLog g' T = leadLog g T \<and> leadCommit g' T = leadCommit g T"
    and ballot: "\<And>k i T C. (k, i, T) \<in> ballots g' \<Longrightarrow> (k, i, T) \<notin> ballots g \<Longrightarrow>
      ballot_ok g' k i T \<and> (cand g' i T = Some C \<longrightarrow> late_ok g' k T C
        \<and> (\<forall>S m. (k, S, m) \<in> acks g' \<longrightarrow> S < T \<longrightarrow> vote_ok n g' C S m))"
    and single: "\<And>k i j T. (k, i, T) \<in> ballots g \<Longrightarrow> (k, j, T) \<in> ballots g' \<Longrightarrow> j = i"
    and ack: "\<And>k T m. (k, T, m) \<in> acks g' \<Longrightarrow> (k, T, m) \<in> acks g \<and> flog g' k = flog g k \<or> ack_ok n g' k T m"
    and cand: "\<And>i T C. cand g' i T = Some C \<Longrightarrow> cand g i T = Some C \<or> cand_ok n g' i T C"
    and log: "\<And>k. flog g' k = flog g k \<or> log_ok n g' k"
    and complete: "\<And>T m U. lead g' U \<noteq> None \<Longrightarrow> T < U \<Longrightarrow> own g' T m \<Longrightarrow>
      lead g U \<noteq> None \<and> own g T m \<or> complete_ok n g' T m U"
  shows "pinv n g'"
  unfolding pinv_def
proof (intro conjI allI impI)
  fix T i assume "lead g' T = Some i"
  with lead show "lead_ok n g' T i" using lead_ok_grows [OF gr] pinvD(1) [OF inv] by blast
next
  fix T assume *: "lead g' T = None"
  have "lead g T = None" using growsD(4) [OF gr, of T] * by (cases "lead g T") auto
  with pinvD(2) [OF inv this] none [OF *] show "leadLog g' T = []" "leadCommit g' T = 0" by simp_all
next
  fix k i T assume "(k, i, T) \<in> ballots g'"
  then show "ballot_ok g' k i T" using ballot ballot_grows [OF inv gr] single by blast
next
  fix k T m assume "(k, T, m) \<in> acks g'"
  with ack show "ack_ok n g' k T m" using ack_ok_grows [OF gr] pinvD(4) [OF inv] by blast
next
  fix i T C assume "cand g' i T = Some C"
  with cand show "cand_ok n g' i T C" using cand_ok_grows [OF inv gr] pinvD(5) [OF inv] by blast
next
  fix k show "log_ok n g' k" using log log_ok_grows [OF gr pinvD(6) [OF inv]] by blast
next
  fix T m U assume "lead g' U \<noteq> None" "T < U" "own g' T m"
  with complete show "complete_ok n g' T m U" using complete_ok_grows [OF gr pinvD(7) [OF inv]] by blast
next
  fix k i T C assume b: "(k, i, T) \<in> ballots g'" and C: "cand g' i T = Some C"
  show "late_ok g' k T C" using b C ballot votes_grow(1) [OF inv gr] by (cases "(k, i, T) \<in> ballots g") blast+
  fix S m assume a: "(k, S, m) \<in> acks g'" "S < T"
  show "vote_ok n g' C S m" using b C a ballot votes_grow(2) [OF inv gr] by (cases "(k, i, T) \<in> ballots g") blast+
qed


section \<open>Every step keeps the invariant\<close>

lemma pinv_init: "pinv n proto_init"
  by (simp add: pinv_def proto_init_def log_ok_def genuine_def matched_def own_def)

lemma raise_grows: "dterm g k \<le> t \<Longrightarrow> grows g (g\<lparr>dterm := (dterm g)(k := t)\<rparr>)"
  by (simp add: grows_def)

lemma raise_pinv:
  assumes "pinv n g" "dterm g k \<le> t" shows "pinv n (g\<lparr>dterm := (dterm g)(k := t)\<rparr>)"
  using assms(1) raise_grows [OF assms(2)]
  by (rule pinv_grows) (auto simp: own_def dest: ballotD(3) [OF assms(1)])

text \<open>The test of \<open>RequestVote\<close>: a log that is not behind one that holds an acknowledged entry.\<close>

lemma vote_uptodate:
  assumes inv: "pinv n g" and own: "own g T m" and hold: "unchosen n g T m \<or> holds g L T m"
    and up: "lastTerm L < lastTerm C \<or> lastTerm L = lastTerm C \<and> length L \<le> length C"
  shows "vote_ok n g C T m"
proof (cases "unchosen n g T m")
  case False
  then have h: "holds g L T m" using hold by blast
  have m: "0 < m" "m \<le> length (leadLog g T)" using own by (simp_all add: own_def)
  have L: "L \<noteq> []" "m \<le> length L" using h m by (auto simp: holds_def)
  have "T \<le> lastTerm L" using h L by (auto simp: holds_def lastTerm_def last_conv_nth)
  with up have u: "T \<le> lastTerm C" by auto
  have "prefix (take m (leadLog g T)) C" if mat: "matched g C"
  proof -
    have "C \<noteq> []" using u own_pos [OF inv own] by (auto simp: lastTerm_def)
    note C = matched_last [OF mat this]
    let ?u = "lastTerm C"
    show ?thesis
    proof (cases "T = ?u")
      case True
      then have "m \<le> length C" using up \<open>T \<le> lastTerm L\<close> L(2) by auto
      then have "take m (leadLog g T) = take m C" using C True by (metis min.absorb1 take_take)
      then show ?thesis by (simp add: take_is_prefix)
    next
      case False
      have lead: "lead g ?u \<noteq> None"
        using genuine_lead [OF inv matched_genuine [OF mat], of "last C"] \<open>C \<noteq> []\<close> by (simp add: lastTerm_def)
      have "complete_ok n g T m ?u" using pinvD(7) [OF inv lead _ own] False u by simp
      then have "prefix (take m (leadLog g T)) (initLog g ?u)"
        using \<open>\<not> unchosen n g T m\<close> by (simp add: complete_ok_def)
      moreover have "length (initLog g ?u) \<le> length C"
      proof (rule ccontr)
        assume "\<not> ?thesis"
        then have lt: "length C - 1 < length (initLog g ?u)" by simp
        have "C ! (length C - 1) = leadLog g ?u ! (length C - 1)"
          using C \<open>C \<noteq> []\<close> by (metis One_nat_def diff_Suc_less length_greater_0_conv nth_take)
        also have "\<dots> = initLog g ?u ! (length C - 1)"
          using prefix_nth_same [OF lead_log(5) [OF inv lead] lt] .
        finally have "last C \<in> set (initLog g ?u)" using lt \<open>C \<noteq> []\<close> by (simp add: last_conv_nth)
        from lead_log(7) [OF inv lead this] show False using \<open>C \<noteq> []\<close> by (simp add: lastTerm_def)
      qed
      moreover have "prefix C (leadLog g ?u)" using C(1) by (metis take_is_prefix)
      ultimately show ?thesis
        using lead_log(5) [OF inv lead] by (metis prefix_length_prefix prefix_order.order_trans)
    qed
  qed
  with u show ?thesis by (simp add: vote_ok_def)
qed (simp add: vote_ok_def)

lemma elector_term:
  assumes "pinv n g" "lead g T \<noteq> None" "k \<in> electors g T"
  shows "T \<le> dterm g k" "\<exists>j. lead g T = Some j \<and> (k, j, T) \<in> ballots g"
proof -
  obtain j where j: "lead g T = Some j" using assms(2) by blast
  then have "(k, j, T) \<in> ballots g" using pinvD(1) [OF assms(1) j] assms(3) by (simp add: lead_ok_def)
  with j ballotD(1) [OF assms(1) this] show "T \<le> dterm g k" "\<exists>j. lead g T = Some j \<and> (k, j, T) \<in> ballots g" by auto
qed

lemma lead_cand:
  assumes "pinv n g" "lead g T = Some i"
  shows "\<exists>C. cand g i T = Some C" "T \<le> dterm g i"
proof -
  have "majority n (electors g T)" using pinvD(1) [OF assms] by (simp add: lead_ok_def)
  then obtain k where "k \<in> electors g T" using majority_meet by blast
  then have "cand g i T \<noteq> None" using elector_term(2) [OF assms(1)] ballotD(2) [OF assms(1)] assms(2) by fastforce
  then show "\<exists>C. cand g i T = Some C" by blast
  then show "T \<le> dterm g i" using pinvD(5) [OF assms(1)] by (auto simp: cand_ok_def)
qed

lemma candidate_grows:
  assumes "pinv n g" "dterm g i < T"
  shows "grows g (g\<lparr>dterm := (dterm g)(i := T), cand := (cand g)(i := (cand g i)(T := Some (flog g i))),
      ballots := insert (i, i, T) (ballots g)\<rparr>)"
  using pinvD(5) [OF assms(1), of i T] assms(2) by (fastforce simp: grows_def cand_ok_def)

lemma candidate_pinv:
  assumes inv: "pinv n g" and T: "dterm g i < T" "0 < T"
  shows "pinv n (g\<lparr>dterm := (dterm g)(i := T), cand := (cand g)(i := (cand g i)(T := Some (flog g i))),
      ballots := insert (i, i, T) (ballots g)\<rparr>)" (is "pinv n ?g")
proof (rule pinv_grows [OF inv candidate_grows [OF inv T(1)]])
  note gr = candidate_grows [OF inv T(1)]
  note ok = pinvD(6) [OF inv, of i]
  have gen: "genuine g (flog g i)" using ok by (simp add: log_ok_def)
  have late: "late_ok g i T (flog g i)"
    using elector_term(1) [OF inv genuine_lead [OF inv gen]] T(1) by (fastforce simp: late_ok_def)
  have vote: "vote_ok n g (flog g i) S m" if "(i, S, m) \<in> acks g" for S m
    using ackD(3) [OF inv that] by (rule vote_uptodate [OF inv ackD(2) [OF inv that]]) simp
  have new: "(i, j, T) \<notin> ballots g" for j using ballotD(1) [OF inv, of i j T] T(1) by auto
  show "ballot_ok ?g k j U \<and> (cand ?g j U = Some C \<longrightarrow> late_ok ?g k U C
        \<and> (\<forall>S m. (k, S, m) \<in> acks ?g \<longrightarrow> S < U \<longrightarrow> vote_ok n ?g C S m))"
    if b: "(k, j, U) \<in> ballots ?g" "(k, j, U) \<notin> ballots g" for k j U C
  proof -
    have kjU: "k = i" "j = i" "U = T" using b by auto
    have "vote_ok n ?g (flog g i) S m" if "(i, S, m) \<in> acks g" for S m
      using vote_ok_grows [OF gr vote [OF that] gen ackD(2) [OF inv that]] .
    moreover have "late_ok ?g i T (flog g i)" using late_ok_grows [OF inv gr late gen] .
    ultimately show ?thesis using new by (auto simp: kjU ballot_ok_def)
  qed
  show "j = i'" if "(k, i', U) \<in> ballots g" "(k, j, U) \<in> ballots ?g" for k i' j U
    using that ballotD(3) [OF inv] new by auto
  have "cand_ok n ?g i T (flog g i)"
  proof -
    have "matched ?g (flog g i) \<or> spliced n ?g (T - 1) (flog g i)"
      using ok matched_grows [OF gr] spliced_grows [OF gr gen, of n "dterm g i" "T - 1"] T(1) by (auto simp: log_ok_def)
    moreover have "lead g T \<noteq> Some i" using lead_cand(2) [OF inv, of T i] T(1) by auto
    ultimately show ?thesis using genuine_grows [OF gr gen] T(2) by (simp add: cand_ok_def)
  qed
  then show "cand g j U = Some C \<or> cand_ok n ?g j U C" if "cand ?g j U = Some C" for j U C
    using that by (auto split: if_splits)
qed (auto simp: own_def)

lemma vote_grows: "dterm g k \<le> T \<Longrightarrow> grows g (g\<lparr>dterm := (dterm g)(k := T), ballots := insert (k, i, T) (ballots g)\<rparr>)"
  by (auto simp: grows_def)

lemma vote_pinv:
  assumes inv: "pinv n g" and C: "cand g i T = Some C" and T: "dterm g k \<le> T"
    and only: "\<And>j. (k, j, T) \<in> ballots g \<Longrightarrow> j = i"
    and up: "lastTerm (flog g k) < lastTerm C \<or> lastTerm (flog g k) = lastTerm C \<and> length (flog g k) \<le> length C"
  shows "pinv n (g\<lparr>dterm := (dterm g)(k := T), ballots := insert (k, i, T) (ballots g)\<rparr>)" (is "pinv n ?g")
proof (rule pinv_grows [OF inv vote_grows [OF T]])
  note gr = vote_grows [OF T, of i]
  note ok = pinvD(5) [OF inv C]
  have gen: "genuine g C" using ok by (simp add: cand_ok_def)
  have late: "late_ok g k T C"
    unfolding late_ok_def
  proof (intro ballI impI notI)
    fix e assume e: "e \<in> set C" "T \<le> eTerm e" "k \<in> electors g (eTerm e)"
    note el = elector_term [OF inv genuine_lead [OF inv gen e(1)] e(3)]
    then have eT: "eTerm e = T" using e(2) T by simp
    with el(2) only have "lead g T = Some i" by auto
    with ok e(1) eT show False by (simp add: cand_ok_def)
  qed
  have vote: "vote_ok n g C S m" if "(k, S, m) \<in> acks g" for S m
    using ackD(3) [OF inv that] up by (rule vote_uptodate [OF inv ackD(2) [OF inv that]])
  show "ballot_ok ?g k' j U \<and> (cand ?g j U = Some D \<longrightarrow> late_ok ?g k' U D
        \<and> (\<forall>S m. (k', S, m) \<in> acks ?g \<longrightarrow> S < U \<longrightarrow> vote_ok n ?g D S m))"
    if b: "(k', j, U) \<in> ballots ?g" "(k', j, U) \<notin> ballots g" for k' j U D
  proof -
    have kjU: "k' = k" "j = i" "U = T" using b by auto
    have "vote_ok n ?g C S m" if "(k, S, m) \<in> acks g" for S m
      using vote_ok_grows [OF gr vote [OF that] gen ackD(2) [OF inv that]] .
    moreover have "late_ok ?g k T C" using late_ok_grows [OF inv gr late gen] .
    moreover have "ballot_ok ?g k i T" using only C by (auto simp: ballot_ok_def)
    ultimately show ?thesis using C by (auto simp: kjU)
  qed
  show "j = i'" if "(k', i', U) \<in> ballots g" "(k', j, U) \<in> ballots ?g" for k' i' j U
    using that ballotD(3) [OF inv] only by auto
qed (auto simp: own_def)


text \<open>A candidate that won has a clean log: neither a spliced one nor one with an entry of its own or
  a later term can get the votes.\<close>

lemma winner_terms:
  assumes inv: "pinv n g" and C: "cand g i T = Some C" and Q: "majority n Q" "\<forall>k\<in>Q. (k, i, T) \<in> ballots g"
    and e: "e \<in> set C"
  shows "eTerm e < T"
proof (rule ccontr)
  assume ge: "\<not> ?thesis"
  have "genuine g C" using pinvD(5) [OF inv C] by (simp add: cand_ok_def)
  from genuine_lead [OF inv this e] obtain j where "lead g (eTerm e) = Some j" by blast
  then have "majority n (electors g (eTerm e))" using pinvD(1) [OF inv] by (simp add: lead_ok_def)
  then obtain k where k: "k \<in> Q" "k \<in> electors g (eTerm e)" using majority_meet [OF Q(1)] by blast
  have "late_ok g k T C" using pinvD(9) [OF inv bspec [OF Q(2) k(1)] C] .
  with k(2) e ge show False by (simp add: late_ok_def)
qed

lemma winner_matched:
  assumes inv: "pinv n g" and C: "cand g i T = Some C" and Q: "majority n Q" "\<forall>k\<in>Q. (k, i, T) \<in> ballots g"
  shows "matched g C"
proof (rule ccontr)
  assume "\<not> ?thesis"
  then have "spliced n g (T - 1) C" using pinvD(5) [OF inv C] by (simp add: cand_ok_def)
  then obtain k S m U where s: "chosen n g S m" "S \<le> U" "U \<le> T - 1" "k < length C"
    "\<And>j. k \<le> j \<Longrightarrow> j < length C \<Longrightarrow> eTerm (C ! j) < S"
    unfolding spliced_def by blast
  obtain Q' where Q': "majority n Q'" "\<And>p. p \<in> Q' \<Longrightarrow> (p, S, m) \<in> acks g" using s(1) by (auto simp: chosen_def)
  then obtain p where p: "p \<in> Q" "p \<in> Q'" using majority_meet [OF Q(1)] by blast
  have "vote_ok n g C S m" using pinvD(8) [OF inv bspec [OF Q(2) p(1)] C Q'(2) [OF p(2)]] s(2,3) by simp
  then have "S \<le> lastTerm C" using chosen_not_unchosen [OF s(1)] by (simp add: vote_ok_def)
  moreover have "C \<noteq> []" using s(4) by auto
  moreover have "eTerm (C ! (length C - 1)) < S" using s(4) by (intro s(5)) auto
  ultimately show False by (simp add: lastTerm_def last_conv_nth)
qed

lemma winner_complete:
  assumes inv: "pinv n g" and C: "cand g i U = Some C" and Q: "majority n Q" "\<forall>k\<in>Q. (k, i, U) \<in> ballots g"
    and T: "T < U" "own g T m"
  shows "unchosen n g T m \<or> prefix (take m (leadLog g T)) C"
proof (cases "\<exists>k\<in>Q. (k, T, m) \<in> acks g")
  case True
  then obtain k where k: "k \<in> Q" "(k, T, m) \<in> acks g" by blast
  from pinvD(8) [OF inv bspec [OF Q(2) k(1)] C k(2) T(1)] winner_matched [OF inv C Q] show ?thesis
    by (auto simp: vote_ok_def)
next
  case False
  moreover have "T < dterm g k" if "k \<in> Q" for k using ballotD(1) [OF inv bspec [OF Q(2) that]] T(1) by simp
  ultimately show ?thesis using Q(1) unfolding unchosen_def by blast
qed

lemma win_grows:
  assumes inv: "pinv n g" and none: "lead g T = None"
  shows "grows g (g\<lparr>lead := (lead g)(T := Some i), electors := (electors g)(T := Q), initLog := (initLog g)(T := C),
      leadLog := (leadLog g)(T := C), leadCommit := (leadCommit g)(T := c)\<rparr>)"
  using pinvD(2) [OF inv none] none by (auto simp: grows_def)

lemma win_pinv:
  assumes inv: "pinv n g" and C: "cand g i T = Some C" and none: "lead g T = None"
    and Q: "majority n Q" "\<forall>k\<in>Q. (k, i, T) \<in> ballots g"
    and c: "c \<le> length C" "settled n g T (take c C)"
  shows "pinv n (g\<lparr>lead := (lead g)(T := Some i), electors := (electors g)(T := Q), initLog := (initLog g)(T := C),
      leadLog := (leadLog g)(T := C), leadCommit := (leadCommit g)(T := c)\<rparr>)" (is "pinv n ?g")
proof (rule pinv_grows [OF inv win_grows [OF inv none]])
  note gr = win_grows [OF inv none, where i = i and Q = Q and C = C and c = c]
  note terms = winner_terms [OF inv C Q]
  note mat = winner_matched [OF inv C Q]
  have unowned: "own g S m" if "own ?g S m" for S m
  proof (cases "S = T")
    case True
    then have m: "0 < m" "m \<le> length C" "eTerm (C ! (m - 1)) = T" using that by (simp_all add: own_def)
    then have "C ! (m - 1) \<in> set C" by (intro nth_mem) simp
    from terms [OF this] m(3) show ?thesis by simp
  next
    case False
    with that show ?thesis by (simp add: own_def)
  qed
  have "lead_ok n ?g T i"
  proof -
    have "0 < T" using pinvD(5) [OF inv C] by (simp add: cand_ok_def)
    moreover have "matched ?g C" "sorted (map eTerm C)" "settled n ?g T (take c C)"
      using matched_grows [OF gr mat] matched_sorted [OF inv mat] settled_grows [OF gr c(2) order_refl] by simp_all
    ultimately show ?thesis using Q c(1) terms by (simp add: lead_ok_def)
  qed
  then show "lead g S = Some j \<and> leadLog ?g S = leadLog g S \<and> leadCommit ?g S = leadCommit g S \<or> lead_ok n ?g S j"
    if "lead ?g S = Some j" for S j using that by (auto split: if_splits)
  show "lead g U \<noteq> None \<and> own g S m \<or> complete_ok n ?g S m U" if "lead ?g U \<noteq> None" "S < U" "own ?g S m" for S m U
  proof (cases "U = T")
    case True
    note own = unowned [OF that(3)]
    have "take m (leadLog ?g S) = take m (leadLog g S)" using that(2) True by simp
    then show ?thesis
      using winner_complete [OF inv C Q that(2) [unfolded True] own] unchosen_grows [OF gr] True
      by (auto simp: complete_ok_def)
  qed (use that unowned in simp)
qed (auto dest: ballotD(3) [OF inv] split: if_splits)

lemma append_grows:
  assumes "dterm g i = T"
  shows "grows g (g\<lparr>leadLog := (leadLog g)(T := leadLog g T @ [e]), flog := (flog g)(i := flog g i @ [e]),
      acks := insert (i, T, Suc (length (leadLog g T))) (acks g)\<rparr>)"
  using assms by (auto simp: grows_def)

lemma unacked_unchosen:
  assumes inv: "pinv n g" and gr: "grows g g'" and U: "lead g U \<noteq> None" "S < U" and m: "\<not> own g S m"
    and ack: "\<And>k. (k, S, m) \<in> acks g' \<Longrightarrow> (k, S, m) \<in> acks g \<or> dterm g k \<le> S"
  shows "unchosen n g' S m"
proof -
  from U(1) obtain j where "lead g U = Some j" by blast
  then have "majority n (electors g U)" using pinvD(1) [OF inv] by (simp add: lead_ok_def)
  moreover have "S < dterm g' k \<and> (k, S, m) \<notin> acks g'" if "k \<in> electors g U" for k
  proof -
    have "S < dterm g k" using elector_term(1) [OF inv U(1) that] U(2) by simp
    moreover have "(k, S, m) \<notin> acks g" using ackD(2) [OF inv, of k S m] m by blast
    ultimately show ?thesis using ack growsD(1) [OF gr, of k] by force
  qed
  ultimately show ?thesis unfolding unchosen_def by blast
qed

lemma append_pinv:
  assumes inv: "pinv n g" and lead: "lead g T = Some i" and dt: "dterm g i = T" and L: "flog g i = leadLog g T"
    and e: "eTerm e = T"
  shows "pinv n (g\<lparr>leadLog := (leadLog g)(T := leadLog g T @ [e]), flog := (flog g)(i := flog g i @ [e]),
      acks := insert (i, T, Suc (length (leadLog g T))) (acks g)\<rparr>)" (is "pinv n ?g")
proof (rule pinv_grows [OF inv append_grows [OF dt]])
  let ?K = "leadLog g T" and ?m = "Suc (length (leadLog g T))"
  note gr = append_grows [OF dt, of e]
  have some: "lead g T \<noteq> None" using lead by simp
  note ll = lead_log [OF inv some]
  have mat: "matched ?g (?K @ [e])"
    using matched_grows [OF gr ll(1)] e by (auto simp: matched_def nth_append less_Suc_eq)
  have "lead_ok n ?g T i"
  proof -
    have ok: "lead_ok n g T i" using pinvD(1) [OF inv lead] .
    have "settled n ?g T (take (leadCommit g T) ?K)" using settled_grows [OF gr ll(4) order_refl] .
    moreover have "eTerm ((?K @ [e]) ! j) = T" if "length (initLog g T) \<le> j" "j < ?m" for j
      using that ok e by (auto simp: lead_ok_def nth_append less_Suc_eq)
    moreover have "sorted (map eTerm (?K @ [e]))" using ll(2,8) e by (auto simp: sorted_append)
    ultimately show ?thesis using ok mat by (simp add: lead_ok_def)
  qed
  then show "lead g S = Some j \<and> leadLog ?g S = leadLog g S \<and> leadCommit ?g S = leadCommit g S \<or> lead_ok n ?g S j"
    if "lead ?g S = Some j" for S j using that lead by (cases "S = T") auto
  have holds: "holds ?g (?K @ [e]) S m" if "holds g ?K S m" "own g S m" "S \<le> T" for S m
    using holds_grows [OF gr that(2,1)] that(3) e by (auto simp: holds_def nth_append less_Suc_eq)
  have new: "own ?g T ?m" "holds ?g (?K @ [e]) T ?m" using e by (auto simp: own_def holds_def nth_append less_Suc_eq)
  show "(k, S, m) \<in> acks g \<and> flog ?g k = flog g k \<or> ack_ok n ?g k S m" if "(k, S, m) \<in> acks ?g" for k S m
  proof (cases "(k, S, m) \<in> acks g")
    case True
    note a = ackD [OF inv True]
    have "holds g ?K S m \<Longrightarrow> k = i \<Longrightarrow> holds ?g (?K @ [e]) S m" using holds a(1,2) dt by blast
    then have "k = i \<Longrightarrow> ack_ok n ?g k S m"
      using a own_grows [OF gr a(2)] unchosen_grows [OF gr] L by (auto simp: ack_ok_def)
    with True show ?thesis by auto
  next
    case False
    with that have "k = i" "S = T" "m = ?m" by auto
    with new dt L show ?thesis by (simp add: ack_ok_def)
  qed
  have "log_ok n ?g i"
    using mat matched_genuine [OF mat] L pinvD(6) [OF inv, of i] by (simp add: log_ok_def)
  then show "flog ?g k = flog g k \<or> log_ok n ?g k" for k by (cases "k = i") simp_all
  show "lead g U \<noteq> None \<and> own g S m \<or> complete_ok n ?g S m U" if u: "lead ?g U \<noteq> None" "S < U" "own ?g S m" for S m U
    using unacked_unchosen [OF inv gr, of U S m] u dt by (auto simp: complete_ok_def)
qed (use lead in \<open>auto dest: ballotD(3) [OF inv]\<close>)


text \<open>Accepting a leader's log.  A spliced log matches the sent one at most within its chosen part.\<close>

lemma spliced_vs_leader:
  assumes inv: "pinv n g" and sp: "chosen n g T m" "k \<le> m" "T \<le> U" "take k (leadLog g T) = take k L"
      "\<And>j. k \<le> j \<Longrightarrow> j < length L \<Longrightarrow> take k (leadLog g (eTerm (L ! j))) \<noteq> take k L"
    and K: "matched g K" "prefix K (leadLog g U)" "lead g U \<noteq> None"
    and j: "k \<le> j" "j < length L" "j < length K"
  shows "eTerm (K ! j) \<noteq> eTerm (L ! j)"
proof
  assume eq: "eTerm (K ! j) = eTerm (L ! j)"
  have "take k (leadLog g (eTerm (K ! j))) = take k K"
  proof (rule take_shorter)
    show "take (Suc j) (leadLog g (eTerm (K ! j))) = take (Suc j) K" using K(1) j(3) by (simp add: matched_def)
  qed (use j(1) in simp)
  also have "\<dots> = take k (leadLog g U)"
    using prefix_take_same [OF K(2), of k] j by simp
  also have "\<dots> = take k L"
    using take_shorter [OF chosen_later(1) [OF inv sp(1,3) K(3)] sp(2)] sp(4) by simp
  finally show False using sp(5) [OF j(1,2)] eq by simp
qed

lemma accept_prefix:
  assumes inv: "pinv n g" and K: "between g U K" and le: "dterm g k \<le> U" and p: "sameEnd p K (flog g k)"
  shows "take p K = take p (flog g k)"
proof (cases "p = 0")
  case False
  let ?L = "flog g k"
  have pl: "p - 1 < length K" "p - 1 < length ?L" "eTerm (K ! (p - 1)) = eTerm (?L ! (p - 1))" "Suc (p - 1) = p"
    using p False by (auto simp: sameEnd_def)
  note mK = between_log(1) [OF inv K]
  have UK: "prefix K (leadLog g U)" "lead g U \<noteq> None" using K by (simp_all add: between_def)
  show ?thesis
  proof (cases "matched g ?L")
    case True
    from matched_agree [OF mK True pl(1,2,3)] pl(4) show ?thesis by simp
  next
    case False
    then have "spliced n g (dterm g k) ?L" using pinvD(6) [OF inv, of k] by (simp add: log_ok_def)
    then obtain q T m V where sp: "chosen n g T m" "T \<le> V" "V \<le> dterm g k" "q \<le> m" "take q (leadLog g T) = take q ?L"
      "\<And>j. q \<le> j \<Longrightarrow> j < length ?L \<Longrightarrow> take q (leadLog g (eTerm (?L ! j))) \<noteq> take q ?L"
      unfolding spliced_def by blast
    have TU: "T \<le> U" using sp(2,3) le by simp
    have "\<not> q \<le> p - 1"
      using spliced_vs_leader [OF inv sp(1,4) TU sp(5,6) mK UK _ pl(2,1)] pl(3) by blast
    then have "p \<le> q" by simp
    have "take p K = take p (leadLog g U)" using prefix_take_same [OF UK(1), of p] pl(1,4) by simp
    also have "\<dots> = take p (leadLog g T)"
      using take_shorter [OF chosen_later(1) [OF inv sp(1) TU UK(2)]] \<open>p \<le> q\<close> sp(4) by simp
    also have "\<dots> = take p ?L" using take_shorter [OF sp(5) \<open>p \<le> q\<close>] .
    finally show ?thesis .
  qed
qed simp

lemma spliced_result:
  assumes inv: "pinv n g" and K: "between g U K" and le: "dterm g k \<le> U"
    and un: "\<not> matched g (accepted K (flog g k))"
  shows "prefix K (flog g k)" "own g U m \<Longrightarrow> m \<le> length K \<Longrightarrow> m \<le> leadCommit g U"
proof -
  let ?L = "flog g k"
  note mK = between_log(1) [OF inv K]
  have UK: "prefix K (leadLog g U)" "prefix (initLog g U) K" "lead g U \<noteq> None" using K by (simp_all add: between_def)
  show pre: "prefix K ?L" using un mK by (auto simp: accepted_def split: if_splits)
  then have "\<not> matched g ?L" using un by (simp add: accepted_def)
  then have "spliced n g (dterm g k) ?L" using pinvD(6) [OF inv, of k] by (simp add: log_ok_def)
  then obtain q T c V where sp: "chosen n g T c" "T \<le> V" "V \<le> dterm g k" "q \<le> leadCommit g V" "q \<le> c" "q < length ?L"
      "q \<le> length (leadLog g V)" "take q (leadLog g T) = take q ?L" "take q (leadLog g V) = take q ?L"
      "\<And>j. q \<le> j \<Longrightarrow> j < length ?L \<Longrightarrow> take q (leadLog g (eTerm (?L ! j))) \<noteq> take q ?L"
    unfolding spliced_def by blast
  have TU: "T \<le> U" using sp(2,3) le by simp
  have short: "length K \<le> q"
  proof (rule ccontr)
    assume "\<not> ?thesis"
    then have q: "q < length K" by simp
    have "eTerm (K ! q) \<noteq> eTerm (?L ! q)"
      using spliced_vs_leader [OF inv sp(1,5) TU sp(8,10) mK UK(1,3) order_refl sp(6) q] .
    with prefix_nth_same [OF pre q] show False by simp
  qed
  show "m \<le> leadCommit g U" if m: "own g U m" "m \<le> length K"
  proof (cases "V = U")
    case True
    with sp(4) short m(2) show ?thesis by simp
  next
    case False
    have m0: "0 < m" "m - 1 < length K" "eTerm (leadLog g U ! (m - 1)) = U" using m by (auto simp: own_def)
    have "leadLog g U ! (m - 1) = ?L ! (m - 1)"
      using prefix_nth_same [OF UK(1) m0(2)] prefix_nth_same [OF pre m0(2)] by simp
    also have "\<dots> = leadLog g V ! (m - 1)"
      using arg_cong [OF sp(9), of "\<lambda>xs. xs ! (m - 1)"] short m0(2) by simp
    finally have "leadLog g U ! (m - 1) \<in> set (leadLog g V)" using sp(7) short m0(2) by simp
    moreover have "lead g V \<noteq> None"
      using calculation pinvD(2) [OF inv, of V] by fastforce
    ultimately have "eTerm (leadLog g U ! (m - 1)) \<le> V" by (metis lead_log(8) [OF inv])
    with m0(3) False sp(3) le show ?thesis by simp
  qed
qed

lemma accept_grows:
  assumes "dterm g k \<le> t" "t \<le> T"
  shows "grows g (g\<lparr>dterm := (dterm g)(k := t), flog := (flog g)(k := accepted K (flog g k)),
      acks := acks g \<union> (if t = T then newAcks g k T K (flog g k) else {})\<rparr>)"
  using assms by (auto simp: grows_def newAcks_def split: if_splits)

lemma holds_sorted:
  assumes "own g T m" "take m L = take m (leadLog g T)" "m \<le> length L" "sorted (map eTerm L)"
  shows "holds g L T m"
proof -
  have m: "0 < m" "m - 1 < m" "eTerm (leadLog g T ! (m - 1)) = T" using assms(1) by (simp_all add: own_def)
  then have last: "eTerm (L ! (m - 1)) = T" using assms(2) by (metis nth_take)
  have "T \<le> eTerm (L ! j)" if "m \<le> Suc j" "j < length L" for j
    using sorted_nth_mono [OF assms(4), of "m - 1" j] that last m(1) by simp
  with assms show ?thesis by (simp add: holds_def)
qed

lemma accept_holds:
  assumes inv: "pinv n g" and K: "between g U K" and le: "dterm g k \<le> U" and a: "(k, T, m) \<in> acks g"
  shows "unchosen n g T m \<or> holds g (accepted K (flog g k)) T m"
proof (cases "unchosen n g T m \<or> prefix K (flog g k)")
  case True
  then show ?thesis using ackD(3) [OF inv a] by (auto simp: accepted_def)
next
  case False
  let ?L = "flog g k"
  note own = ackD(2) [OF inv a]
  have h: "m \<le> length ?L" "take m ?L = take m (leadLog g T)" using ackD(3) [OF inv a] False by (simp_all add: holds_def)
  have m: "m \<le> length (leadLog g T)" using own by (simp add: own_def)
  have UK: "prefix K (leadLog g U)" "prefix (initLog g U) K" "lead g U \<noteq> None" using K by (simp_all add: between_def)
  have "prefix (take m (leadLog g T)) K"
  proof (cases "T = U")
    case True
    have "\<not> length K \<le> m"
    proof
      assume "length K \<le> m"
      then have "prefix K (take m (leadLog g T))"
        using UK(1) True m by (intro prefix_length_prefix [OF _ take_is_prefix]) auto
      then have "prefix K ?L" using h(2) by (metis prefix_order.order_trans take_is_prefix)
      with False show False by simp
    qed
    then have "take m (leadLog g T) = take m K" using prefix_take_same [OF UK(1), of m] True by simp
    then show ?thesis by (simp add: take_is_prefix)
  next
    case less: False
    have "T < U" using ackD(1) [OF inv a] le less by simp
    from pinvD(7) [OF inv UK(3) this own] False have "prefix (take m (leadLog g T)) (initLog g U)"
      by (simp add: complete_ok_def)
    with UK(2) show ?thesis using prefix_order.order_trans by blast
  qed
  then have "take m K = take m (leadLog g T)" "m \<le> length K" using m prefix_takeD prefix_length_le by fastforce+
  from holds_sorted [OF own this between_log(2) [OF inv K]] False show ?thesis by (simp add: accepted_def)
qed

lemma accept_pinv:
  assumes inv: "pinv n g" and K: "between g T K" and t: "dterm g k \<le> t" "t \<le> T" and p: "sameEnd p K (flog g k)"
  shows "pinv n (g\<lparr>dterm := (dterm g)(k := t), flog := (flog g)(k := accepted K (flog g k)),
      acks := acks g \<union> (if t = T then newAcks g k T K (flog g k) else {})\<rparr>)" (is "pinv n ?g")
proof (rule pinv_grows [OF inv accept_grows [OF t]])
  let ?L = "flog g k" and ?A = "accepted K (flog g k)"
  note gr = accept_grows [OF t, of K]
  have le: "dterm g k \<le> T" using t by simp
  have new: "own g T m" "holds g ?A T m" if "(k', T', m) \<in> newAcks g k T K ?L" for k' T' m
  proof -
    have m: "own g T m" "m \<le> length K" "matched g ?A" using that by (auto simp: newAcks_def)
    then show "own g T m" by simp
    have "take m K = take m (leadLog g T)" using prefix_take_same [of K "leadLog g T" m] K m(2) by (simp add: between_def)
    moreover have "take m ?A = take m K" "m \<le> length ?A"
      using m(2) by (auto simp: accepted_def prefix_take_same dest: prefix_length_le)
    ultimately show "holds g ?A T m" using holds_sorted [OF m(1) _ _ matched_sorted [OF inv m(3)]] by simp
  qed
  show "(k', S, m) \<in> acks g \<and> flog ?g k' = flog g k' \<or> ack_ok n ?g k' S m" if a: "(k', S, m) \<in> acks ?g" for k' S m
  proof (cases "(k', S, m) \<in> acks g")
    case True
    note old = ackD [OF inv True]
    show ?thesis
    proof (cases "k' = k")
      case k: True
      have "unchosen n ?g S m \<or> holds ?g ?A S m"
        using accept_holds [OF inv K le True [unfolded k]] unchosen_grows [OF gr] holds_grows [OF gr old(2)] by blast
      moreover have "S \<le> t" using old(1) k t(1) by simp
      ultimately show ?thesis using own_grows [OF gr old(2)] k by (simp add: ack_ok_def)
    qed (use True in simp)
  next
    case False
    with a have "t = T" "(k', S, m) \<in> newAcks g k T K ?L" by (auto split: if_splits)
    moreover from this have "k' = k" "S = T" by (auto simp: newAcks_def)
    ultimately show ?thesis
      using new own_grows [OF gr] holds_grows [OF gr] by (auto simp: ack_ok_def)
  qed
  have "log_ok n ?g k"
  proof -
    note mK = between_log(1) [OF inv K]
    have L: "0 \<le> dterm g k" "genuine g ?L" "matched g ?L \<or> spliced n g (dterm g k) ?L"
      using pinvD(6) [OF inv, of k] by (simp_all add: log_ok_def)
    have "genuine g ?A" using L(2) matched_genuine [OF mK] by (simp add: accepted_def)
    moreover have "matched g ?A \<or> spliced n g (dterm g k) ?A" using L(3) mK by (auto simp: accepted_def)
    ultimately show ?thesis
      using genuine_grows [OF gr] matched_grows [OF gr] spliced_grows [OF gr _ _ t(1)] L(1) t(1) by (auto simp: log_ok_def)
  qed
  then show "flog ?g k' = flog g k' \<or> log_ok n ?g k'" for k' by (cases "k' = k") simp_all
qed (auto simp: own_def dest: ballotD(3) [OF inv])


text \<open>Installing a snapshot.  The prefix it covers is settled.\<close>

lemma committed_settled:
  assumes "pinv n g" "lead g T \<noteq> None" "m \<le> leadCommit g T"
  shows "settled n g T (take m (leadLog g T))" "m \<le> length (leadLog g T)"
  using settled_take [OF lead_log(4) [OF assms(1,2)], of m] lead_log(3) [OF assms(1,2)] assms(3)
  by (simp_all add: min.absorb1)

lemma install_grows:
  "dterm g k \<le> T \<Longrightarrow> grows g (g\<lparr>dterm := (dterm g)(k := T), flog := (flog g)(k := L)\<rparr>)"
  by (simp add: grows_def)

lemma installed_same: "take m K = take m L \<Longrightarrow> installed K m L = L"
  by (simp add: installed_def)

lemma install_holds:
  assumes inv: "pinv n g" and U: "lead g U \<noteq> None" "c \<le> leadCommit g U" "dterm g k \<le> U" and a: "(k, T, m) \<in> acks g"
  shows "unchosen n g T m \<or> holds g (installed (leadLog g U) c (flog g k)) T m"
proof (cases "unchosen n g T m")
  case False
  let ?L = "flog g k" and ?K = "leadLog g U"
  let ?I = "installed ?K c ?L"
  note own = ackD(2) [OF inv a]
  have h: "m \<le> length ?L" "take m ?L = take m (leadLog g T)" "\<And>j. m \<le> Suc j \<Longrightarrow> j < length ?L \<Longrightarrow> T \<le> eTerm (?L ! j)"
    using ackD(3) [OF inv a] False by (simp_all add: holds_def)
  have m: "0 < m" "m \<le> length (leadLog g T)" using own by (simp_all add: own_def)
  have pre: "take m ?K = take m (leadLog g T) \<and> m \<le> length ?K"
  proof (cases "T = U")
    case less: False
    then have "T < U" using ackD(1) [OF inv a] U(3) by simp
    from pinvD(7) [OF inv U(1) this own] False have "prefix (take m (leadLog g T)) (initLog g U)"
      by (simp add: complete_ok_def)
    then have p: "prefix (take m (leadLog g T)) ?K" using lead_log(5) [OF inv U(1)] prefix_order.order_trans by blast
    show ?thesis using prefix_takeD [OF p] prefix_length_le [OF p] m(2) by simp
  qed (use m in simp)
  have c: "c \<le> length ?K" using committed_settled(2) [OF inv U(1,2)] .
  show ?thesis
  proof (cases "c \<le> m")
    case True
    then have "take c ?K = take c ?L" using take_shorter [of m ?K ?L c] pre h(2) by simp
    from installed_same [OF this] ackD(3) [OF inv a] show ?thesis by simp
  next
    case False
    have "holds g ?K T m" using holds_sorted [OF own _ _ lead_log(2) [OF inv U(1)]] pre by simp
    then have K: "\<And>j. m \<le> Suc j \<Longrightarrow> j < length ?K \<Longrightarrow> T \<le> eTerm (?K ! j)" by (simp add: holds_def)
    have "T \<le> eTerm (?I ! j)" if "m \<le> Suc j" "j < length ?I" for j
    proof (cases "j < c")
      case True
      with that c K [of j] show ?thesis by (simp add: installed_def nth_append)
    next
      case False
      with that c h(3) [of j] show ?thesis by (simp add: installed_def nth_append min.absorb2)
    qed
    moreover have "take m ?I = take m (leadLog g T)" "m \<le> length ?I"
      using pre False c by (simp_all add: installed_def)
    ultimately show ?thesis by (simp add: holds_def)
  qed
qed simp

lemma install_spliced:
  assumes inv: "pinv n g" and U: "lead g U \<noteq> None" "c \<le> leadCommit g U" "dterm g k \<le> U"
    and ne: "take c (leadLog g U) \<noteq> take c (flog g k)" and len: "c < length (flog g k)"
  shows "spliced n g U (installed (leadLog g U) c (flog g k))"
proof -
  let ?L = "flog g k" and ?K = "leadLog g U"
  let ?I = "installed ?K c ?L"
  note st = committed_settled [OF inv U(1,2)]
  have lt: "length (take c ?K) = c" using st(2) by simp
  have "take c ?K \<noteq> []" using ne lt by (cases "c = 0") auto
  then obtain T m where ch: "chosen n g T m" "T \<le> U" "c \<le> m" "take c ?K = take c (leadLog g T)"
    using st(1) lt unfolding settled_def by auto
  have tI: "take c ?I = take c ?K" and lenI: "length ?I = length ?L" using st(2) len by (simp_all add: installed_def)
  have nth: "?I ! j = ?L ! j" if "c \<le> j" "j < length ?L" for j
    using that st(2) by (simp add: installed_def nth_append)
  have older: "take c (leadLog g (eTerm (?L ! j))) \<noteq> take c ?K" if j: "c \<le> j" "j < length ?L" for j
  proof (cases "matched g ?L")
    case True
    then have "take (Suc j) (leadLog g (eTerm (?L ! j))) = take (Suc j) ?L" using j by (simp add: matched_def)
    from take_shorter [OF this, of c] ne j show ?thesis by simp
  next
    case False
    then have "spliced n g (dterm g k) ?L" using pinvD(6) [OF inv, of k] by (simp add: log_ok_def)
    then obtain q S w V where sp: "chosen n g S w" "q \<le> w" "take q (leadLog g S) = take q ?L"
        "\<And>j. q \<le> j \<Longrightarrow> j < length ?L \<Longrightarrow> take q (leadLog g (eTerm (?L ! j))) \<noteq> take q ?L"
      unfolding spliced_def by blast
    have agree: "take r ?K = take r ?L" if "r \<le> c" "r \<le> q" for r
      using chosen_agree [OF inv sp(1) ch(1), of r] take_shorter [OF sp(3) that(2)] take_shorter [OF ch(4) that(1)]
        that sp(2) ch(3) by simp
    have qc: "q \<le> c" using agree [of c] ne by (cases "q \<le> c") auto
    show ?thesis
    proof
      assume "take c (leadLog g (eTerm (?L ! j))) = take c ?K"
      from take_shorter [OF this qc] agree [OF qc order_refl] sp(4) [of j] j qc show False by simp
    qed
  qed
  have "eTerm (?L ! j) < T" if j: "c \<le> j" "j < length ?L" for j
  proof (rule ccontr)
    assume ge: "\<not> ?thesis"
    have "genuine g ?L" using pinvD(6) [OF inv, of k] by (simp add: log_ok_def)
    then have "lead g (eTerm (?L ! j)) \<noteq> None" using genuine_lead [OF inv] j(2) by simp
    from chosen_later(1) [OF inv ch(1) _ this] ge have "take m (leadLog g (eTerm (?L ! j))) = take m (leadLog g T)" by simp
    from take_shorter [OF this ch(3)] older [OF j] ch(4) show False by simp
  qed
  with older nth tI have rest: "eTerm (?I ! j) < T \<and> take c (leadLog g (eTerm (?I ! j))) \<noteq> take c ?I"
    if "c \<le> j" "j < length ?I" for j using that lenI by simp
  with ch U(2) st(2) tI lenI len show ?thesis
    unfolding spliced_def by (intro exI [of _ c] exI [of _ T] exI [of _ m] exI [of _ U]) simp
qed

lemma install_pinv:
  assumes inv: "pinv n g" and U: "lead g U \<noteq> None" "c \<le> leadCommit g U" "dterm g k \<le> U"
  shows "pinv n (g\<lparr>dterm := (dterm g)(k := U), flog := (flog g)(k := installed (leadLog g U) c (flog g k))\<rparr>)" (is "pinv n ?g")
proof (rule pinv_grows [OF inv install_grows [OF U(3)]])
  let ?L = "flog g k" and ?K = "leadLog g U"
  let ?I = "installed ?K c ?L"
  note gr = install_grows [OF U(3), of ?I]
  show "(k', S, m) \<in> acks g \<and> flog ?g k' = flog g k' \<or> ack_ok n ?g k' S m" if a: "(k', S, m) \<in> acks ?g" for k' S m
  proof (cases "k' = k")
    case True
    have a': "(k, S, m) \<in> acks g" using a True by simp
    note old = ackD [OF inv a']
    have "unchosen n ?g S m \<or> holds ?g ?I S m"
      using install_holds [OF inv U a'] unchosen_grows [OF gr] holds_grows [OF gr old(2)] by blast
    moreover have "S \<le> U" using old(1) U(3) by simp
    ultimately show ?thesis using own_grows [OF gr old(2)] True by (simp add: ack_ok_def)
  qed (use a in simp)
  have "log_ok n ?g k"
  proof -
    have L: "0 \<le> dterm g k" "genuine g ?L" "matched g ?L \<or> spliced n g (dterm g k) ?L"
      using pinvD(6) [OF inv, of k] by (simp_all add: log_ok_def)
    have c: "c \<le> length ?K" using committed_settled(2) [OF inv U(1,2)] .
    have genK: "genuine g ?K" using matched_genuine [OF lead_log(1) [OF inv U(1)]] .
    have gen: "genuine g ?I"
      using L(2) genK c by (auto simp: genuine_def installed_def nth_append)
    have "matched g ?I \<or> spliced n g U ?I"
    proof (cases "take c ?K = take c ?L")
      case True
      then show ?thesis
        using installed_same [OF True] L(2,3) spliced_grows [OF grows_refl _ _ U(3)] by auto
    next
      case ne: False
      show ?thesis
      proof (cases "c < length ?L")
        case True
        with install_spliced [OF inv U ne] show ?thesis by blast
      next
        case False
        then show ?thesis using matched_take [OF lead_log(1) [OF inv U(1)]] by (simp add: installed_def)
      qed
    qed
    then show ?thesis
      using genuine_grows [OF gr gen] matched_grows [OF gr] spliced_grows [OF gr gen _ order_refl] L(1) U(3)
      by (auto simp: log_ok_def)
  qed
  then show "flog ?g k' = flog g k' \<or> log_ok n ?g k'" for k' by (cases "k' = k") simp_all
qed (auto simp: own_def dest: ballotD(3) [OF inv])

lemma commit_grows: "leadCommit g T \<le> c \<Longrightarrow> grows g (g\<lparr>leadCommit := (leadCommit g)(T := c)\<rparr>)"
  by (auto simp: grows_def)

lemma commit_pinv:
  assumes inv: "pinv n g" and c: "chosen n g T c" "leadCommit g T \<le> c"
  shows "pinv n (g\<lparr>leadCommit := (leadCommit g)(T := c)\<rparr>)" (is "pinv n ?g")
proof (rule pinv_grows [OF inv commit_grows [OF c(2)]])
  note gr = commit_grows [OF c(2)]
  have len: "c \<le> length (leadLog g T)" using c(1) by (simp add: chosen_def own_def)
  have lead: "lead g T \<noteq> None" using own_lead [OF inv] c(1) by (auto simp: chosen_def)
  have set: "settled n g T (take c (leadLog g T))"
    using c(1) len unfolding settled_def by (intro disjI2 exI [of _ T] exI [of _ c]) simp
  have "lead_ok n ?g T i" if i: "lead g T = Some i" for i
  proof -
    have "settled n ?g T (take c (leadLog g T))" using settled_grows [OF gr set order_refl] .
    moreover have "matched ?g (leadLog g T)" using matched_grows [OF gr lead_log(1) [OF inv lead]] .
    ultimately show ?thesis using pinvD(1) [OF inv i] len by (simp add: lead_ok_def)
  qed
  then show "lead g S = Some j \<and> leadLog ?g S = leadLog g S \<and> leadCommit ?g S = leadCommit g S \<or> lead_ok n ?g S j"
    if "lead ?g S = Some j" for S j using that by (cases "S = T") auto
  show "leadLog ?g S = leadLog g S \<and> leadCommit ?g S = leadCommit g S" if "lead ?g S = None" for S
    using that lead by (cases "S = T") auto
qed (auto simp: own_def dest: ballotD(3) [OF inv])

theorem pstep_pinv: "pstep n g g' \<Longrightarrow> pinv n g \<Longrightarrow> pinv n g' \<and> grows g g'"
proof (induction rule: pstep.induct)
  case (raise g k t)
  then show ?case using raise_pinv raise_grows by blast
next
  case (candidate g i T)
  then show ?case using candidate_pinv candidate_grows by blast
next
  case (vote g i T C k)
  then show ?case using vote_pinv [of n g i T C k] vote_grows [of g k T i] by blast
next
  case (win g i T C Q c)
  then show ?case using win_pinv [of n g i T C Q c] win_grows [of n g T] by blast
next
  case (append g T i e)
  then show ?case using append_pinv append_grows by blast
next
  case (accept g T K k t p)
  then show ?case using accept_pinv accept_grows by blast
next
  case (install g T m k)
  then show ?case using install_pinv install_grows by blast
next
  case (commit g T c)
  then show ?case using commit_pinv commit_grows by blast
qed

text \<open>What a peer knows to be committed survives what it accepts and installs.\<close>

lemma settled_accept:
  assumes inv: "pinv n g" and K: "between g U K" and le: "D \<le> U"
    and st: "settled n g D (take c L)" "c \<le> length L"
  shows "take c (accepted K L) = take c L" "c \<le> length (accepted K L)"
proof -
  have len: "length (take c L) = c" using st(2) by simp
  have "take c (accepted K L) = take c L \<and> c \<le> length (accepted K L)"
  proof (cases "prefix K L")
    case False
    then have "\<not> prefix K (take c L)" using prefix_order.order_trans take_is_prefix by blast
    then have "prefix (take c L) K" using settled_between [OF inv st(1) le K] by blast
    then have "take c K = take c L" "c \<le> length K" using prefix_takeD prefix_length_le len by metis+
    with False show ?thesis by (simp add: accepted_def)
  qed (use st(2) in \<open>simp add: accepted_def\<close>)
  then show "take c (accepted K L) = take c L" "c \<le> length (accepted K L)" by simp_all
qed

lemma settled_install:
  assumes inv: "pinv n g" and U: "lead g U \<noteq> None" "m \<le> leadCommit g U"
    and st: "settled n g D (take c L)" "c \<le> length L"
  shows "take c (installed (leadLog g U) m L) = take c (if c \<le> m then leadLog g U else L)"
    "c \<le> length (installed (leadLog g U) m L)"
proof -
  note m = committed_settled [OF inv U]
  have "take m (leadLog g U) = take m L" if "m \<le> c"
    using settled_agree [OF inv m(1) st(1), of m] m(2) st(2) that by (simp add: min.absorb1)
  then have "take m (leadLog g U) = take m L \<and> installed (leadLog g U) m L = L" if "m \<le> c"
    using that installed_same by blast
  then show "take c (installed (leadLog g U) m L) = take c (if c \<le> m then leadLog g U else L)"
    using m(2) by (cases "m \<le> c"; cases "c = m") (auto simp: installed_def)
  show "c \<le> length (installed (leadLog g U) m L)" using m(2) st(2) by (simp add: installed_def)
qed

end
