(* ===== verification/Raft_Refine.thy ===== *)
theory Raft_Refine
  imports Raft_Election Raft_Safety
begin

text \<open>
  The cluster of \<open>Raft_Cluster\<close> refines the protocol of \<open>Raft_Protocol\<close>.

  \<open>node_rel\<close> relates the log a peer keeps to its whole log: the peer holds what lies beyond
  its last compaction, and the term of the last compacted entry.
\<close>

section \<open>A peer's log and its whole log\<close>

definition termAt :: "'c LogEntry list \<Rightarrow> nat \<Rightarrow> int" where
  "termAt L m = (if m = 0 then 0 else eTerm (L ! (m - 1)))"

definition node_rel :: "('c, 'b) Raft \<Rightarrow> 'c LogEntry list \<Rightarrow> bool" where
  "node_rel rf L \<longleftrightarrow> log rf \<noteq> [] \<and> 0 \<le> lastIncludedIndex rf \<and> lastIncludedIndex rf \<le> int (length L)
     \<and> tl (log rf) = drop (nat (lastIncludedIndex rf)) L \<and> lastIncludedTerm rf = termAt L (nat (lastIncludedIndex rf))"

lemma node_rel_cong:
  "log rf' = log rf \<Longrightarrow> lastIncludedIndex rf' = lastIncludedIndex rf \<Longrightarrow> lastIncludedTerm rf' = lastIncludedTerm rf \<Longrightarrow>
     node_rel rf' L = node_rel rf L"
  by (simp add: node_rel_def)

lemma node_rel_fields [simp]:
  "node_rel (rf\<lparr>commitIndex := c\<rparr>) L = node_rel rf L" "node_rel (rf\<lparr>matchIndex := x\<rparr>) L = node_rel rf L"
  "node_rel (rf\<lparr>nextIndex := x\<rparr>) L = node_rel rf L" "node_rel (rf\<lparr>lastApplied := c\<rparr>) L = node_rel rf L"
  "node_rel (rf\<lparr>pendingSnapshot := m\<rparr>) L = node_rel rf L"
  by (simp_all add: node_rel_def)

lemma node_last: "node_rel rf L \<Longrightarrow> lastLogIndex rf = int (length L)"
  by (cases "log rf") (auto simp: node_rel_def lastLogIndex_def)

lemma node_drop:
  assumes "node_rel rf L" "lastIncludedIndex rf < i"
  shows "drop (nat (i - lastIncludedIndex rf)) (log rf) = drop (nat (i - 1)) L"
proof -
  define d where "d = nat (i - lastIncludedIndex rf) - 1"
  have d: "nat (i - lastIncludedIndex rf) = Suc d" "nat (i - 1) = d + nat (lastIncludedIndex rf)"
    using assms by (auto simp: d_def node_rel_def)
  have "drop (Suc d) (log rf) = drop d (tl (log rf))" by (simp add: drop_Suc)
  also have "\<dots> = drop (d + nat (lastIncludedIndex rf)) L" using assms(1) by (simp add: node_rel_def)
  finally show ?thesis using d by simp
qed

lemma node_entry:
  assumes "node_rel rf L" "lastIncludedIndex rf < i" "i \<le> int (length L)"
  shows "log rf ! nat (i - lastIncludedIndex rf) = L ! nat (i - 1)" "nat (i - lastIncludedIndex rf) < length (log rf)"
    "entryAt rf i = Some (L ! nat (i - 1))"
proof -
  show lt: "nat (i - lastIncludedIndex rf) < length (log rf)"
    using node_last [OF assms(1)] assms(2,3) by (simp add: lastLogIndex_def)
  have "nat (i - 1) < length L" using assms by (auto simp: node_rel_def)
  with node_drop [OF assms(1,2)] lt show eq: "log rf ! nat (i - lastIncludedIndex rf) = L ! nat (i - 1)"
    by (metis hd_drop_conv_nth)
  show "entryAt rf i = Some (L ! nat (i - 1))" using lt eq assms(2) by (simp add: entryAt_nth)
qed

lemma node_logTerm:
  assumes "node_rel rf L" "lastIncludedIndex rf \<le> i" "i \<le> int (length L)"
  shows "logTerm rf i = Some (termAt L (nat i))"
proof (cases "i = lastIncludedIndex rf")
  case True
  with assms(1) show ?thesis by (simp add: logTerm_def node_rel_def)
next
  case False
  then have "lastIncludedIndex rf < i" "0 < i" using assms by (auto simp: node_rel_def)
  with node_entry(3) [OF assms(1) _ assms(3)] show ?thesis
    by (simp add: logTerm_entryAt termAt_def nat_diff_distrib)
qed

lemma termAt_last: "termAt L (length L) = lastTerm L"
  by (simp add: termAt_def lastTerm_def last_conv_nth)

lemma node_lastTerm:
  assumes "node_rel rf L" shows "logTerm rf (lastLogIndex rf) = Some (lastTerm L)"
proof -
  have "lastIncludedIndex rf \<le> int (length L)" using assms by (simp add: node_rel_def)
  from node_logTerm [OF assms this order_refl] show ?thesis by (simp add: node_last [OF assms] termAt_last)
qed

lemma termAt_append: "m \<le> length L \<Longrightarrow> termAt (L @ M) m = termAt L m"
  by (auto simp: termAt_def nth_append)

lemma termAt_take: "m \<le> k \<Longrightarrow> termAt (take k L) m = termAt L m"
  by (auto simp: termAt_def)

lemma termAt_prefix: "prefix K L \<Longrightarrow> m \<le> length K \<Longrightarrow> termAt L m = termAt K m"
  by (auto simp: prefix_def termAt_append)

text \<open>The append loop computes the protocol's \<open>accepted\<close>.\<close>

lemma merge_accepted:
  assumes "\<And>j. j < length es \<Longrightarrow> j < length old \<Longrightarrow> eTerm (old ! j) = eTerm (es ! j) \<Longrightarrow> old ! j = es ! j"
  shows "merge_log es old = (if prefix es old then old else es)"
  using assms
proof (induction es old rule: merge_log.induct)
  case (3 e es x old)
  show ?case
  proof (cases "eTerm x = eTerm e")
    case True
    then have "x = e" using "3.prems" [of 0] by simp
    moreover have "merge_log es old = (if prefix es old then old else es)"
      using "3.prems" [of "Suc _"] by (intro "3.IH" [OF True]) fastforce
    ultimately show ?thesis by simp
  qed auto
qed simp_all

lemma accepted_split:
  assumes "take p K = take p L" "p \<le> length K" "p \<le> length L"
  shows "accepted K L = take p L @ (if prefix (drop p K) (drop p L) then drop p L else drop p K)"
proof -
  have "prefix K L \<longleftrightarrow> prefix (drop p K) (drop p L)"
    using assms by (metis append_take_drop_id same_prefix_prefix)
  with assms show ?thesis by (simp add: accepted_def) (metis append_take_drop_id)
qed

lemma node_append:
  assumes rel: "node_rel rf L" and p: "lastIncludedIndex rf \<le> int p" "p \<le> length L" "p \<le> length K"
    and same: "take p K = take p L" and gen: "genuine g K" "genuine g L"
    and d: "d = nat (int p + 1 - lastIncludedIndex rf)"
    and rf': "log rf' = take d (log rf) @ merge_log (drop p K) (drop d (log rf))"
      "lastIncludedIndex rf' = lastIncludedIndex rf" "lastIncludedTerm rf' = lastIncludedTerm rf"
  shows "node_rel rf' (accepted K L)"
proof -
  define lii where "lii = nat (lastIncludedIndex rf)"
  have lii: "lastIncludedIndex rf = int lii" using rel by (simp add: lii_def node_rel_def)
  have le: "lii \<le> p" and ds: "d = Suc (p - lii)" using p(1) d lii by auto
  have tl: "tl (log rf) = drop lii L" and ne: "log rf \<noteq> []" using rel by (simp_all add: node_rel_def lii_def)
  have old: "drop d (log rf) = drop p L" using node_drop [OF rel, of "int p + 1"] p(1) d by simp
  have merge: "merge_log (drop p K) (drop p L) = (if prefix (drop p K) (drop p L) then drop p L else drop p K)"
  proof (rule merge_accepted)
    fix j assume j: "j < length (drop p K)" "j < length (drop p L)" "eTerm (drop p L ! j) = eTerm (drop p K ! j)"
    then show "drop p L ! j = drop p K ! j" using genuine_agree [OF gen(2,1), of "p + j"] p by (simp add: nth_drop)
  qed
  have acc: "accepted K L = take p L @ merge_log (drop p K) (drop p L)"
    unfolding merge by (rule accepted_split [OF same p(3,2)])
  have "tl (log rf') = take (p - lii) (tl (log rf)) @ merge_log (drop p K) (drop p L)"
    using ne by (simp add: rf'(1) old) (simp add: ds take_Suc)
  also have "\<dots> = drop lii (accepted K L)" using le p by (simp add: acc tl drop_take)
  finally have "tl (log rf') = drop lii (accepted K L)" .
  moreover have "lii \<le> length (accepted K L)" using le p by (simp add: acc)
  moreover have "termAt (accepted K L) lii = termAt L lii"
    using le p by (simp add: acc termAt_append termAt_take)
  moreover have "log rf' \<noteq> []" using ne by (simp add: rf'(1) ds)
  ultimately show ?thesis using rel by (simp add: node_rel_def rf' lii)
qed


lemma node_install:
  assumes rel: "node_rel rf L" and m: "lastIncludedIndex rf < isLastIncludedIndex args" "isLastIncludedIndex args = int m"
      "m \<le> length K" "isLastIncludedTerm args = termAt K m"
    and rf': "log rf' = isKeptLog args rf" "lastIncludedIndex rf' = isLastIncludedIndex args"
      "lastIncludedTerm rf' = isLastIncludedTerm args"
  shows "node_rel rf' (installed K m L)"
proof -
  have pos: "0 < m" using m rel by (auto simp: node_rel_def)
  have last: "lastLogIndex rf = int (length L)" by (rule node_last [OF rel])
  have log: "log rf' \<noteq> [] \<and> tl (log rf') = drop m L"
  proof (cases "m \<le> length L")
    case True
    have "drop (nat (int m - lastIncludedIndex rf)) (log rf) = drop (m - 1) L"
      using node_drop [OF rel, of "int m"] m(1,2) pos by (simp add: nat_diff_distrib' [of "int m" 1, simplified])
    moreover have "drop (m - 1) L \<noteq> []" "tl (drop (m - 1) L) = drop m L"
      using True pos by (cases m; simp add: tl_drop drop_Suc)+
    ultimately show ?thesis using True m(2) last by (simp add: rf'(1) isKeptLog_def)
  next
    case False
    then show ?thesis using m(2) last by (simp add: rf'(1) isKeptLog_def)
  qed
  have "termAt (installed K m L) m = termAt K m" using m(3) by (simp add: installed_def termAt_append termAt_take)
  with log m(3,4) show ?thesis by (simp add: node_rel_def rf'(2,3) m(2) installed_def)
qed

lemma node_snapshot:
  assumes rel: "node_rel rf L" and i: "index \<le> int (length L)" and sn: "Snapshot index sn rf = Some rf'"
  shows "node_rel rf' L" "lastIncludedIndex rf \<le> lastIncludedIndex rf'"
proof -
  have "node_rel rf' L \<and> lastIncludedIndex rf \<le> lastIncludedIndex rf'"
  proof (cases "index \<le> lastIncludedIndex rf")
    case True
    with sn rel show ?thesis by (simp add: Snapshot_def)
  next
    case False
    then have lt: "lastIncludedIndex rf < index" by simp
    define k where "k = nat (index - lastIncludedIndex rf)"
    obtain t where t: "logTerm rf index = Some t" and
      rf': "rf' = persistWithSnapshot sn (rf\<lparr>log := (log rf ! k)\<lparr>eCommand := None\<rparr> # drop (Suc k) (log rf),
        lastIncludedIndex := index, lastIncludedTerm := t\<rparr>)"
      using Snapshot_trims [OF lt, of sn] i node_last [OF rel] sn by (auto simp: k_def)
    have t': "t = termAt L (nat index)" using node_logTerm [OF rel _ i] lt t by simp
    have "Suc k = nat (index + 1 - lastIncludedIndex rf)" using lt by (simp add: k_def)
    then have "drop (Suc k) (log rf) = drop (nat index) L" using node_drop [OF rel, of "index + 1"] lt by simp
    moreover have "0 \<le> index" using lt rel by (simp add: node_rel_def)
    ultimately show ?thesis using lt i t' by (simp add: node_rel_def rf')
  qed
  then show "node_rel rf' L" "lastIncludedIndex rf \<le> lastIncludedIndex rf'" by simp_all
qed


section \<open>The refinement relation\<close>

text \<open>
  A peer and its protocol state.  Whatever the peer's log is, it is on stable storage; only the term
  may be ahead of it.  What it has committed is settled.  A leader's bookkeeping counts only
  acknowledged entries beyond its commit index.
\<close>

definition leadsTerm :: "'c proto \<Rightarrow> nat \<Rightarrow> ('c, 'b) Raft \<Rightarrow> bool" where
  "leadsTerm g p rf \<longleftrightarrow> dterm g p = currentTerm rf \<and> lead g (currentTerm rf) = Some p
     \<and> flog g p = leadLog g (currentTerm rf) \<and> int (leadCommit g (currentTerm rf)) = commitIndex rf
     \<and> (\<forall>m. own g (currentTerm rf) m \<longrightarrow> (p, currentTerm rf, m) \<in> acks g)
     \<and> (\<forall>q m. q < length (peers rf) \<longrightarrow> commitIndex rf < int m \<longrightarrow> int m \<le> matchIndex rf ! q \<longrightarrow>
          own g (currentTerm rf) m \<longrightarrow> (q, currentTerm rf, m) \<in> acks g)"

definition runsTerm :: "'c proto \<Rightarrow> nat \<Rightarrow> ('c, 'b) Raft \<Rightarrow> bool" where
  "runsTerm g p rf \<longleftrightarrow> dterm g p = currentTerm rf \<and> cand g p (currentTerm rf) = Some (flog g p)
     \<and> lead g (currentTerm rf) \<noteq> Some p"

definition node_ok :: "nat \<Rightarrow> 'c proto \<Rightarrow> nat \<Rightarrow> ('c, 'b) Raft \<Rightarrow> bool" where
  "node_ok n g p rf \<longleftrightarrow> wf_raft rf \<and> length (peers rf) = n \<and> me rf = int p \<and> node_rel rf (flog g p)
     \<and> (\<exists>v. durable rf = (dterm g p, v, log rf, lastIncludedIndex rf, lastIncludedTerm rf)) \<and> dterm g p \<le> currentTerm rf
     \<and> settled n g (dterm g p) (take (nat (commitIndex rf)) (flog g p))
     \<and> (state rf = candidate \<longrightarrow> runsTerm g p rf) \<and> (state rf = leader \<longrightarrow> leadsTerm g p rf)"

text \<open>The protocol changes only what belongs to peer \<open>i\<close>.\<close>

definition only_at :: "nat \<Rightarrow> 'c proto \<Rightarrow> 'c proto \<Rightarrow> bool" where
  "only_at i g g' \<longleftrightarrow> (\<forall>j. j \<noteq> i \<longrightarrow> dterm g' j = dterm g j \<and> flog g' j = flog g j)
     \<and> (\<forall>T j. j \<noteq> i \<longrightarrow> lead g T = Some j \<longrightarrow> leadLog g' T = leadLog g T \<and> leadCommit g' T = leadCommit g T)
     \<and> (\<forall>T j. j \<noteq> i \<longrightarrow> lead g' T = Some j \<longrightarrow> lead g T = Some j)"

lemma only_at_refl [simp]: "only_at i g g" by (simp add: only_at_def)

lemma node_ok_other:
  assumes ok: "node_ok n g j rf" and gr: "grows g g'" and at: "only_at i g g'" and ne: "j \<noteq> i"
  shows "node_ok n g' j rf"
proof -
  have same: "dterm g' j = dterm g j" "flog g' j = flog g j" using at ne by (simp_all add: only_at_def)
  have "settled n g' (dterm g j) (take (nat (commitIndex rf)) (flog g j))"
    using ok settled_grows [OF gr _ order_refl] by (simp add: node_ok_def)
  moreover have "runsTerm g' j rf" if "runsTerm g j rf"
    using that same growsD(5) [OF gr] at ne by (auto simp: runsTerm_def only_at_def)
  moreover have "leadsTerm g' j rf" if ld: "leadsTerm g j rf"
  proof -
    have "leadLog g' (currentTerm rf) = leadLog g (currentTerm rf)" "leadCommit g' (currentTerm rf) = leadCommit g (currentTerm rf)"
      using at ne ld by (auto simp: only_at_def leadsTerm_def)
    with ld same growsD(4) [OF gr] growsD(7) [OF gr] show ?thesis by (auto simp: leadsTerm_def own_def)
  qed
  ultimately show ?thesis using ok same by (simp add: node_ok_def)
qed

text \<open>What other peers and messages rely on of a peer never goes back.\<close>

definition later :: "('c, 'b) Raft \<Rightarrow> ('c, 'b) Raft \<Rightarrow> bool" where
  "later rf rf' \<longleftrightarrow> currentTerm rf \<le> currentTerm rf' \<and> commitIndex rf \<le> commitIndex rf'
     \<and> lastIncludedIndex rf \<le> lastIncludedIndex rf'"

lemma later_refl [simp]: "later rf rf" by (simp add: later_def)

text \<open>Messages.\<close>

definition offer_ok :: "'c proto \<Rightarrow> nat \<Rightarrow> int \<Rightarrow> RequestVoteArgs \<Rightarrow> bool" where
  "offer_ok g i t args \<longleftrightarrow>
     (\<exists>C. cand g i t = Some C \<and> rvLastLogIndex args = int (length C) \<and> rvLastLogTerm args = lastTerm C)"

fun call_rel :: "'c proto \<Rightarrow> nat \<Rightarrow> int \<Rightarrow> vote_call \<Rightarrow> bool" where
  "call_rel g i t (Calling args) = offer_ok g i t args"
| "call_rel g i t (Abandoned args) = offer_ok g i t args"
| "call_rel g i t _ = True"

definition votes_rel :: "nat \<Rightarrow> 'c proto \<Rightarrow> (nat \<Rightarrow> ('c, 'b) Raft) \<Rightarrow> vote_calls \<Rightarrow> bool" where
  "votes_rel n g nd calls \<longleftrightarrow> (\<forall>i t p. call_rel g i t (calls i t p))
     \<and> (\<forall>p i t. supports calls p i t \<longrightarrow> (p, i, t) \<in> ballots g)
     \<and> (\<forall>p i t. (p, i, t) \<in> ballots g \<longrightarrow> pledged (nd p) t (int i))"

definition round_ok :: "nat \<Rightarrow> 'c proto \<Rightarrow> ('c, 'b) Raft \<Rightarrow> int \<times> int \<times> int \<Rightarrow> bool" where
  "round_ok n g rf hb \<longleftrightarrow> (\<exists>xs. settled n g (fst hb) xs \<and> snd (snd hb) = int (length xs))
     \<and> fst hb \<le> currentTerm rf \<and> snd (snd hb) \<le> commitIndex rf"

definition append_ok :: "nat \<Rightarrow> 'c proto \<Rightarrow> nat \<Rightarrow> 'c AppendEntriesArgs \<Rightarrow> bool" where
  "append_ok n g i args \<longleftrightarrow> (\<exists>U K p xs. lead g U = Some i \<and> between g U K \<and> aeTerm args \<le> U
     \<and> aePrevLogIndex args = int p \<and> p \<le> length K \<and> aeEntries args = drop p K \<and> aePrevLogTerm args = termAt K p
     \<and> settled n g (aeTerm args) xs \<and> aeLeaderCommit args = int (length xs) \<and> length xs \<le> length K)"

definition append_reply_ok :: "'c proto \<Rightarrow> nat \<Rightarrow> nat \<Rightarrow> 'c AppendEntriesArgs \<Rightarrow> AppendEntriesReply \<Rightarrow> bool" where
  "append_reply_ok g i p args reply \<longleftrightarrow> (dterm g i \<le> aeTerm args \<longrightarrow>
     (let N = aePrevLogIndex args + int (length (aeEntries args)); T = aeTerm args in
      N \<le> int (length (leadLog g T)) \<and> aerConflictIndex reply \<le> int (length (leadLog g T)) + 1
      \<and> (aerSuccess reply \<longrightarrow> aerTerm reply = T
           \<and> (\<forall>m. own g T m \<longrightarrow> int m \<le> N \<longrightarrow> (p, T, m) \<in> acks g \<or> m \<le> leadCommit g T))))"

definition install_ok :: "'c proto \<Rightarrow> nat \<Rightarrow> 'b InstallSnapshotArgs \<Rightarrow> bool" where
  "install_ok g i args \<longleftrightarrow> (\<exists>m. lead g (isTerm args) = Some i \<and> isLastIncludedIndex args = int m
     \<and> m \<le> leadCommit g (isTerm args) \<and> isLastIncludedTerm args = termAt (leadLog g (isTerm args)) m)"

text \<open>A command handed to the service is the one at its position of a settled prefix.\<close>

definition delivery_ok :: "nat \<Rightarrow> 'c proto \<Rightarrow> ('c, 'b) ApplyMsg \<Rightarrow> bool" where
  "delivery_ok n g msg \<longleftrightarrow> (CommandValid msg \<longrightarrow> (\<exists>D xs m. settled n g D xs \<and> CommandIndex msg = int m \<and> 0 < m
     \<and> m \<le> length xs \<and> amCommand msg = eCommand (xs ! (m - 1))))"

definition msgs_rel :: "nat \<Rightarrow> 'c proto \<Rightarrow> ('c, 'b) cluster \<Rightarrow> bool" where
  "msgs_rel n g s \<longleftrightarrow> (\<forall>(i, hb) \<in> hbRounds s. round_ok n g (nodes s i) hb)
     \<and> (\<forall>(i, p, args) \<in> appendCalls s. append_ok n g i args)
     \<and> (\<forall>(i, p, args, reply) \<in> appendReplies s. p < n \<and> append_reply_ok g i p args reply)
     \<and> (\<forall>(i, p, args) \<in> installCalls s. install_ok g i args \<and> isLastIncludedIndex args \<le> lastIncludedIndex (nodes s i))
     \<and> (\<forall>(i, p, args, reply) \<in> installReplies s. p < n \<and> isLastIncludedIndex args \<le> lastIncludedIndex (nodes s i))
     \<and> (\<forall>i. \<forall>msg \<in> set (delivered s i). delivery_ok n g msg)"

definition refines :: "nat \<Rightarrow> 'c proto \<Rightarrow> ('c, 'b) cluster \<Rightarrow> bool" where
  "refines n g s \<longleftrightarrow> pinv n g \<and> cluster_inv n s \<and> (\<forall>p < n. node_ok n g p (nodes s p))
     \<and> votes_rel n g (nodes s) (voteCalls s) \<and> msgs_rel n g s
     \<and> (\<forall>p msg. pendingSnapshot (nodes s p) = Some msg \<longrightarrow> \<not> CommandValid msg)"



section \<open>Messages stay valid\<close>

lemma termAt_grows: "grows g g' \<Longrightarrow> m \<le> length (leadLog g T) \<Longrightarrow> termAt (leadLog g' T) m = termAt (leadLog g T) m"
  using termAt_prefix growsD(2) by blast

lemma between_grows: "grows g g' \<Longrightarrow> between g T K \<Longrightarrow> between g' T K"
  using growsD(2) [of g g' T] growsD(4) [of g g' T] prefix_order.order_trans by (fastforce simp: between_def)

lemma call_rel_grows: "grows g g' \<Longrightarrow> call_rel g i t c \<Longrightarrow> call_rel g' i t c"
  by (cases c) (auto simp: offer_ok_def dest: growsD(5))

lemma round_ok_grows: "grows g g' \<Longrightarrow> later rf rf' \<Longrightarrow> round_ok n g rf hb \<Longrightarrow> round_ok n g' rf' hb"
  using settled_grows [OF _ _ order_refl, of g g' n "fst hb"] by (fastforce simp: round_ok_def later_def)

lemma append_ok_grows:
  assumes "grows g g'" "append_ok n g i args" shows "append_ok n g' i args"
proof -
  obtain U K p xs where *: "lead g U = Some i" "between g U K" "aeTerm args \<le> U"
     "aePrevLogIndex args = int p" "p \<le> length K" "aeEntries args = drop p K" "aePrevLogTerm args = termAt K p"
     "settled n g (aeTerm args) xs" "aeLeaderCommit args = int (length xs)" "length xs \<le> length K"
    using assms(2) unfolding append_ok_def by blast
  then show ?thesis
    using growsD(4) [OF assms(1) *(1)] between_grows [OF assms(1) *(2)] settled_grows [OF assms(1) *(8) order_refl]
    unfolding append_ok_def by blast
qed

lemma append_reply_ok_grows:
  assumes gr: "grows g g'" and ok: "append_reply_ok g i p args reply"
  shows "append_reply_ok g' i p args reply"
proof (cases "dterm g' i \<le> aeTerm args")
  case True
  define T where "T = aeTerm args"
  define N where "N = aePrevLogIndex args + int (length (aeEntries args))"
  have "dterm g i \<le> T" using True growsD(1) [OF gr, of i] by (simp add: T_def)
  then have *: "N \<le> int (length (leadLog g T))" "aerConflictIndex reply \<le> int (length (leadLog g T)) + 1"
    "aerSuccess reply \<Longrightarrow> aerTerm reply = T"
    "\<And>m. aerSuccess reply \<Longrightarrow> own g T m \<Longrightarrow> int m \<le> N \<Longrightarrow> (p, T, m) \<in> acks g \<or> m \<le> leadCommit g T"
    using ok by (simp_all add: append_reply_ok_def Let_def T_def N_def)
  note len = grows_leadLog(1) [OF gr, of T]
  have "(p, T, m) \<in> acks g' \<or> m \<le> leadCommit g' T" if "aerSuccess reply" "own g' T m" "int m \<le> N" for m
  proof -
    have "own g T m" using own_back [OF gr that(2)] that(3) *(1) by simp
    from *(4) [OF that(1) this that(3)] show ?thesis using growsD(3,7) [OF gr] by (meson le_trans)
  qed
  with * len show ?thesis by (simp add: append_reply_ok_def Let_def T_def N_def)
qed (simp add: append_reply_ok_def)

lemma install_ok_grows:
  assumes "pinv n g" "grows g g'" "install_ok g i args" shows "install_ok g' i args"
proof -
  obtain m where m: "lead g (isTerm args) = Some i" "isLastIncludedIndex args = int m"
     "m \<le> leadCommit g (isTerm args)" "isLastIncludedTerm args = termAt (leadLog g (isTerm args)) m"
    using assms(3) unfolding install_ok_def by blast
  have "m \<le> length (leadLog g (isTerm args))" using lead_log(3) [OF assms(1), of "isTerm args"] m(1,3) by simp
  then show ?thesis
    using m termAt_grows [OF assms(2)] growsD(3) [OF assms(2), of "isTerm args"] growsD(4) [OF assms(2) m(1)]
    unfolding install_ok_def by (metis le_trans)
qed

lemma delivery_ok_grows: "grows g g' \<Longrightarrow> delivery_ok n g msg \<Longrightarrow> delivery_ok n g' msg"
  using settled_grows [OF _ _ order_refl, of g g'] unfolding delivery_ok_def by blast

lemma msgs_rel_grows:
  assumes "pinv n g" "grows g g'" "msgs_rel n g s" "\<And>i. later (nodes s i) (nd i)"
  shows "msgs_rel n g' (s\<lparr>nodes := nd\<rparr>)"
proof -
  have lii: "lastIncludedIndex (nodes s i) \<le> lastIncludedIndex (nd i)" for i using assms(4) by (simp add: later_def)
  from assms(3) show ?thesis
    unfolding msgs_rel_def
    using round_ok_grows [OF assms(2,4)] append_ok_grows [OF assms(2)] append_reply_ok_grows [OF assms(2)]
      install_ok_grows [OF assms(1,2)] delivery_ok_grows [OF assms(2)] order_trans [OF _ lii]
    by (fastforce simp del: split_paired_All)
qed

lemma msgs_rel_cong:
  "nodes s' = nodes s \<Longrightarrow> hbRounds s' = hbRounds s \<Longrightarrow> appendCalls s' = appendCalls s \<Longrightarrow>
     appendReplies s' = appendReplies s \<Longrightarrow> installCalls s' = installCalls s \<Longrightarrow>
     installReplies s' = installReplies s \<Longrightarrow> delivered s' = delivered s \<Longrightarrow> msgs_rel n g s' = msgs_rel n g s"
  by (simp add: msgs_rel_def)

lemma pledged_later: "vote_kept rf rf' \<Longrightarrow> pledged rf T (int i) \<Longrightarrow> pledged rf' T (int i)"
  by (rule pledged_kept) simp_all

text \<open>
  The common shape of a step: one peer moves, with at most one step of the protocol that belongs to
  it; calls change so that no new grant appears that the protocol does not record.
\<close>

definition pmove :: "nat \<Rightarrow> nat \<Rightarrow> 'c proto \<Rightarrow> 'c proto \<Rightarrow> bool" where
  "pmove n i g g' \<longleftrightarrow> (pstep n)\<^sup>=\<^sup>= g g' \<and> only_at i g g'"

lemma pmove_refl [simp]: "pmove n i g g" by (simp add: pmove_def)

lemma pmove_grows: "pmove n i g g' \<Longrightarrow> pinv n g \<Longrightarrow> pinv n g' \<and> grows g g'"
  using pstep_pinv by (auto simp: pmove_def)

lemma nodes_rel_move:
  assumes "\<forall>p < n. node_ok n g p (nd p)" "pinv n g" "pmove n i g g'" "node_ok n g' i rf"
  shows "\<forall>p < n. node_ok n g' p ((nd(i := rf)) p)"
proof (intro allI impI)
  fix p assume p: "p < n"
  have at: "only_at i g g'" using assms(3) by (simp add: pmove_def)
  have gr: "grows g g'" using pmove_grows [OF assms(3,2)] by simp
  show "node_ok n g' p ((nd(i := rf)) p)"
  proof (cases "p = i")
    case False
    have "node_ok n g p (nd p)" using assms(1) p by simp
    from node_ok_other [OF this gr at False] False show ?thesis by simp
  qed (use assms(4) in simp)
qed



section \<open>Steps of one peer\<close>

lemma node_okD:
  assumes "node_ok n g p rf"
  shows "wf_raft rf" "length (peers rf) = n" "me rf = int p" "node_rel rf (flog g p)" "dterm g p \<le> currentTerm rf"
    "settled n g (dterm g p) (take (nat (commitIndex rf)) (flog g p))"
    "state rf = candidate \<Longrightarrow> runsTerm g p rf" "state rf = leader \<Longrightarrow> leadsTerm g p rf"
    "\<exists>v. durable rf = (dterm g p, v, log rf, lastIncludedIndex rf, lastIncludedTerm rf)"
    "0 \<le> commitIndex rf" "commitIndex rf \<le> int (length (flog g p))" "lastIncludedIndex rf \<le> commitIndex rf"
    "lastApplied rf \<le> commitIndex rf"
  using assms node_last [of rf "flog g p"] by (auto simp: node_ok_def wf_raft_def)

text \<open>A peer that keeps its whole log and its commit index, and either follows or keeps its role.\<close>

lemma node_ok_core:
  assumes ok: "node_ok n g i rf" and gr: "grows g g'" and fl: "flog g' i = flog g i"
    and wf: "wf_raft rf'" "peers rf' = peers rf" "me rf' = me rf" "commitIndex rf' = commitIndex rf" "node_rel rf' (flog g i)"
    and dur: "durable rf' = (dterm g' i, v, log rf', lastIncludedIndex rf', lastIncludedTerm rf')" "dterm g' i \<le> currentTerm rf'"
    and st: "state rf' = follower \<or> state rf' = state rf \<and> currentTerm rf' = currentTerm rf \<and> matchIndex rf' = matchIndex rf
      \<and> lead g' (currentTerm rf) = lead g (currentTerm rf) \<and> leadLog g' (currentTerm rf) = leadLog g (currentTerm rf)
      \<and> leadCommit g' (currentTerm rf) = leadCommit g (currentTerm rf)"
  shows "node_ok n g' i rf'"
proof -
  have d: "dterm g i \<le> dterm g' i" using growsD(1) [OF gr] .
  have "settled n g' (dterm g' i) (take (nat (commitIndex rf)) (flog g i))"
    using settled_grows [OF gr node_okD(6) [OF ok] d] .
  moreover have "runsTerm g' i rf'" if "state rf' = candidate"
  proof -
    from st that have s: "state rf = candidate" "currentTerm rf' = currentTerm rf" "lead g' (currentTerm rf) = lead g (currentTerm rf)" by auto
    from node_okD(7) [OF ok s(1)] s(2,3) d dur(2) growsD(5) [OF gr] fl show ?thesis by (simp add: runsTerm_def)
  qed
  moreover have "leadsTerm g' i rf'" if "state rf' = leader"
  proof -
    from st that have s: "state rf = leader" "currentTerm rf' = currentTerm rf" "matchIndex rf' = matchIndex rf"
      "lead g' (currentTerm rf) = lead g (currentTerm rf)" "leadLog g' (currentTerm rf) = leadLog g (currentTerm rf)"
      "leadCommit g' (currentTerm rf) = leadCommit g (currentTerm rf)" by auto
    have own: "own g' (currentTerm rf) m = own g (currentTerm rf) m" for m using s(5) by (simp add: own_def)
    from node_okD(8) [OF ok s(1)] s d dur(2) growsD(7) [OF gr] fl wf(2,4) show ?thesis by (simp add: leadsTerm_def own)
  qed
  ultimately show ?thesis using ok wf dur fl by (simp add: node_ok_def)
qed

definition ballot_moves :: "nat \<Rightarrow> nat \<Rightarrow> 'c proto \<Rightarrow> ('c, 'b) Raft \<Rightarrow> 'c proto \<Rightarrow> ('c, 'b) Raft \<Rightarrow> bool" where
  "ballot_moves n i g rf g' rf' \<longleftrightarrow> pmove n i g g' \<and> node_ok n g' i rf' \<and> later rf rf'"

definition moves :: "nat \<Rightarrow> nat \<Rightarrow> 'c proto \<Rightarrow> ('c, 'b) Raft \<Rightarrow> 'c proto \<Rightarrow> ('c, 'b) Raft \<Rightarrow> bool" where
  "moves n i g rf g' rf' \<longleftrightarrow> ballot_moves n i g rf g' rf' \<and> ballots g' = ballots g"

lemma raise_move: "dterm g i \<le> t \<Longrightarrow> pmove n i g (g\<lparr>dterm := (dterm g)(i := t)\<rparr>)"
  by (auto simp: pmove_def only_at_def intro: pstep.raise)

lemma node_keep:
  assumes ok: "node_ok n g i rf"
    and wf: "wf_raft rf'" "peers rf' = peers rf" "me rf' = me rf" "commitIndex rf' = commitIndex rf" "node_rel rf' (flog g i)"
      "lastIncludedIndex rf \<le> lastIncludedIndex rf'" "currentTerm rf \<le> currentTerm rf'"
    and dur: "durable rf' = durable rf \<and> log rf' = log rf \<and> lastIncludedIndex rf' = lastIncludedIndex rf
        \<and> lastIncludedTerm rf' = lastIncludedTerm rf \<or>
      (\<exists>v. durable rf' = (currentTerm rf', v, log rf', lastIncludedIndex rf', lastIncludedTerm rf'))"
    and st: "state rf' = follower \<or> state rf' = state rf \<and> currentTerm rf' = currentTerm rf \<and> matchIndex rf' = matchIndex rf"
  shows "\<exists>t. dterm g i \<le> t \<and> moves n i g rf (g\<lparr>dterm := (dterm g)(i := t)\<rparr>) rf'"
proof -
  have lat: "later rf rf'" using wf by (simp add: later_def)
  note d = node_okD(5) [OF ok]
  have core: "moves n i g rf (g\<lparr>dterm := (dterm g)(i := t)\<rparr>) rf'" if t: "dterm g i \<le> t" "t \<le> currentTerm rf'"
    "durable rf' = (t, v, log rf', lastIncludedIndex rf', lastIncludedTerm rf')" for t v
  proof -
    have "node_ok n (g\<lparr>dterm := (dterm g)(i := t)\<rparr>) i rf'"
      using ok raise_grows [OF t(1)] _ wf(1-5) by (rule node_ok_core [where v = v]) (use t st in auto)
    then show ?thesis using raise_move [OF t(1)] lat by (simp add: moves_def ballot_moves_def)
  qed
  from dur show ?thesis
  proof
    assume same: "durable rf' = durable rf \<and> log rf' = log rf \<and> lastIncludedIndex rf' = lastIncludedIndex rf
        \<and> lastIncludedTerm rf' = lastIncludedTerm rf"
    obtain v where "durable rf = (dterm g i, v, log rf, lastIncludedIndex rf, lastIncludedTerm rf)"
      using node_okD(9) [OF ok] by blast
    with core [of "dterm g i" v] same d wf(7) show ?thesis by auto
  next
    assume "\<exists>v. durable rf' = (currentTerm rf', v, log rf', lastIncludedIndex rf', lastIncludedTerm rf')"
    then obtain v where "durable rf' = (currentTerm rf', v, log rf', lastIncludedIndex rf', lastIncludedTerm rf')" by blast
    with core [of "currentTerm rf'" v] d wf(7) show ?thesis by (intro exI [of _ "currentTerm rf'"]) simp
  qed
qed

lemma node_keep':
  assumes "node_ok n g i rf" "wf_raft rf'" "peers rf' = peers rf" "me rf' = me rf" "commitIndex rf' = commitIndex rf"
      "log rf' = log rf" "lastIncludedIndex rf' = lastIncludedIndex rf" "lastIncludedTerm rf' = lastIncludedTerm rf"
      "currentTerm rf \<le> currentTerm rf'"
      "durable rf' = durable rf \<or> (\<exists>v. durable rf' = (currentTerm rf', v, log rf, lastIncludedIndex rf, lastIncludedTerm rf))"
      "state rf' = follower \<or> state rf' = state rf \<and> currentTerm rf' = currentTerm rf \<and> matchIndex rf' = matchIndex rf"
  shows "\<exists>t. dterm g i \<le> t \<and> moves n i g rf (g\<lparr>dterm := (dterm g)(i := t)\<rparr>) rf'"
  using assms node_okD(4) [OF assms(1)]
  by (intro node_keep) (auto simp: node_rel_cong [of rf' rf])

lemma stepDown_moves:
  assumes "node_ok n g i rf" "currentTerm rf < t"
  shows "\<exists>g'. moves n i g rf g' (stepDown t rf)"
  using node_keep' [OF assms(1) wf_stepDown [OF node_okD(1) [OF assms(1)]], of t] assms(2) by auto

lemma RequestVote_moves:
  assumes ok: "node_ok n g i rf" and rv: "RequestVote now args rf = Some (reply, rf')"
  shows "\<exists>t. dterm g i \<le> t \<and> moves n i g rf (g\<lparr>dterm := (dterm g)(i := t)\<rparr>) rf'"
proof -
  have wf: "wf_raft rf'" using RequestVote_wf [OF node_okD(1) [OF ok], of now args] rv by auto
  show ?thesis
    by (rule node_keep' [OF ok wf]) (use rv in \<open>auto simp: RequestVote_def Let_def bind_Some_conv
        durable_fields volatileImage_def split: if_splits\<close>)
qed


text \<open>A granted vote.\<close>

lemma RequestVote_granted:
  assumes "RequestVote now args rf = Some (reply, rf')" "rvrVoteGranted reply"
  shows "currentTerm rf \<le> rvTerm args" "currentTerm rf' = rvTerm args"
    "durable rf' = (rvTerm args, rvCandidateId args, log rf, lastIncludedIndex rf, lastIncludedTerm rf)"
    "log rf' = log rf" "lastIncludedIndex rf' = lastIncludedIndex rf" "lastIncludedTerm rf' = lastIncludedTerm rf"
    "peers rf' = peers rf" "me rf' = me rf" "commitIndex rf' = commitIndex rf" "matchIndex rf' = matchIndex rf"
    "state rf' = follower \<or> state rf' = state rf \<and> currentTerm rf' = currentTerm rf"
    "logTerm rf (lastLogIndex rf) = Some t \<Longrightarrow>
       t < rvLastLogTerm args \<or> t = rvLastLogTerm args \<and> lastLogIndex rf \<le> rvLastLogIndex args"
proof -
  have same: "lastLogIndex (stepDown x rf) = lastLogIndex rf" "logTerm (stepDown x rf) i = logTerm rf i" for x i
    by (simp_all add: lastLogIndex_def logTerm_def logIndex_def)
  show "currentTerm rf \<le> rvTerm args" "currentTerm rf' = rvTerm args"
    "durable rf' = (rvTerm args, rvCandidateId args, log rf, lastIncludedIndex rf, lastIncludedTerm rf)"
    "log rf' = log rf" "lastIncludedIndex rf' = lastIncludedIndex rf" "lastIncludedTerm rf' = lastIncludedTerm rf"
    "peers rf' = peers rf" "me rf' = me rf" "commitIndex rf' = commitIndex rf" "matchIndex rf' = matchIndex rf"
    "state rf' = follower \<or> state rf' = state rf \<and> currentTerm rf' = currentTerm rf"
    "logTerm rf (lastLogIndex rf) = Some t \<Longrightarrow>
       t < rvLastLogTerm args \<or> t = rvLastLogTerm args \<and> lastLogIndex rf \<le> rvLastLogIndex args"
    using assms by (auto simp: RequestVote_def Let_def bind_Some_conv durable_fields volatileImage_def same split: if_splits)
qed

lemma vote_moves:
  assumes inv: "pinv n g" and ok: "node_ok n g p rf" and offer: "offer_ok g i (rvTerm args) args"
    and rv: "RequestVote now args rf = Some (reply, rf')" "rvrVoteGranted reply" "rvCandidateId args = int i"
    and pledge: "\<And>j. (p, j, rvTerm args) \<in> ballots g \<Longrightarrow> pledged rf (rvTerm args) (int j)"
  shows "ballot_moves n p g rf (g\<lparr>dterm := (dterm g)(p := rvTerm args), ballots := insert (p, i, rvTerm args) (ballots g)\<rparr>) rf'"
    (is "ballot_moves n p g rf ?g rf'")
proof -
  note gr = RequestVote_granted [OF rv(1,2)]
  obtain C where C: "cand g i (rvTerm args) = Some C" "rvLastLogIndex args = int (length C)" "rvLastLogTerm args = lastTerm C"
    using offer by (auto simp: offer_ok_def)
  have only: "j = i" if "(p, j, rvTerm args) \<in> ballots g" for j
    using RequestVote_pledged(2) [OF rv(1,2) pledge [OF that]] rv(3) by simp
  have le: "dterm g p \<le> rvTerm args" using node_okD(5) [OF ok] gr(1) by simp
  have up: "lastTerm (flog g p) < lastTerm C \<or> lastTerm (flog g p) = lastTerm C \<and> length (flog g p) \<le> length C"
    using gr(12) [OF node_lastTerm [OF node_okD(4) [OF ok]]] C(2,3) node_last [OF node_okD(4) [OF ok]] by simp
  have "pstep n g ?g" using pstep.vote [OF C(1) le only up] .
  then have "pmove n p g ?g" by (auto simp: pmove_def only_at_def)
  moreover have "node_ok n ?g p rf'"
  proof (rule node_ok_core [OF ok vote_grows [OF le]])
    show "wf_raft rf'" using RequestVote_wf [OF node_okD(1) [OF ok], of now args] rv(1) by auto
    show "node_rel rf' (flog g p)" using node_okD(4) [OF ok] gr(4-6) by (simp add: node_rel_cong [of rf' rf])
    show "durable rf' = (dterm ?g p, int i, log rf', lastIncludedIndex rf', lastIncludedTerm rf')" using gr rv(3) by simp
  qed (use gr in auto)
  ultimately show ?thesis using gr by (simp add: ballot_moves_def later_def)
qed

text \<open>An election.\<close>

lemma election_moves:
  assumes inv: "pinv n g" and ok: "node_ok n g i rf" and el: "startElection rf = Some (rf', reqs)"
  defines "T \<equiv> currentTerm rf + 1"
  defines "g' \<equiv> g\<lparr>dterm := (dterm g)(i := T), cand := (cand g)(i := (cand g i)(T := Some (flog g i))),
      ballots := insert (i, i, T) (ballots g)\<rparr>"
  shows "ballot_moves n i g rf g' rf'" "(p, args) \<in> set reqs \<Longrightarrow> offer_ok g' i T args"
proof -
  note f = startElection_fields [OF el]
  have T: "dterm g i < T" "0 < T"
    using node_okD(5) [OF ok] pinvD(6) [OF inv, of i] by (simp_all add: T_def log_ok_def)
  have step: "pstep n g g'" unfolding g'_def using pstep.candidate [OF T] .
  have gr: "grows g g'" using candidate_grows [OF inv T(1)] by (simp add: g'_def)
  have only: "only_at i g g'" by (auto simp: only_at_def g'_def)
  have same: "log rf' = log rf" "lastIncludedIndex rf' = lastIncludedIndex rf" "lastIncludedTerm rf' = lastIncludedTerm rf"
    "commitIndex rf' = commitIndex rf"
    using el by (auto simp: startElection_def Let_def bind_Some_conv split: if_splits)
  have rel: "node_rel rf' (flog g i)" using node_okD(4) [OF ok] same by (simp add: node_rel_cong [of rf' rf])
  have "wf_raft rf'" using startElection_wf [OF node_okD(1) [OF ok]] el by auto
  moreover have "settled n g' T (take (nat (commitIndex rf)) (flog g i))"
    using settled_grows [OF gr node_okD(6) [OF ok], of T] T(1) by simp
  moreover have "runsTerm g' i rf'"
    using lead_cand(2) [OF inv, of T i] T(1) f(4) by (auto simp: runsTerm_def g'_def T_def)
  ultimately have "node_ok n g' i rf'"
    using f(1-6) rel same node_okD(2,3) [OF ok] by (simp add: node_ok_def g'_def T_def volatileImage_def)
  then show "ballot_moves n i g rf g' rf'"
    using step only f(4) same by (simp add: ballot_moves_def pmove_def later_def)
  assume "(p, args) \<in> set reqs"
  then have "rvLastLogIndex args = lastLogIndex rf'" "logTerm rf' (lastLogIndex rf') = Some (rvLastLogTerm args)"
    using el by (auto simp: startElection_def Let_def bind_Some_conv split: if_splits)
  then show "offer_ok g' i T args"
    using node_lastTerm [OF rel] node_last [OF rel] by (simp add: offer_ok_def g'_def)
qed

lemma becomeLeader_fields [simp]:
  "peers (becomeLeader rf) = peers rf" "me (becomeLeader rf) = me rf" "currentTerm (becomeLeader rf) = currentTerm rf"
  "log (becomeLeader rf) = log rf" "lastIncludedIndex (becomeLeader rf) = lastIncludedIndex rf"
  "lastIncludedTerm (becomeLeader rf) = lastIncludedTerm rf" "commitIndex (becomeLeader rf) = commitIndex rf"
  "state (becomeLeader rf) = leader" "durable (becomeLeader rf) = durable rf"
  "node_rel (becomeLeader rf) L = node_rel rf L"
  by (simp_all add: becomeLeader_def durable_fields node_rel_def)

text \<open>A reply to a vote request: a majority of recorded ballots makes a leader.\<close>

lemma win_moves:
  assumes inv: "pinv n g" and ok: "node_ok n g i rf" and cd: "state rf = candidate"
    and Q: "majority n Q" "\<forall>k\<in>Q. (k, i, currentTerm rf) \<in> ballots g"
  shows "\<exists>g'. moves n i g rf g' (becomeLeader rf)"
proof -
  define T where "T = currentTerm rf"
  define c where "c = nat (commitIndex rf)"
  define g' where "g' = g\<lparr>lead := (lead g)(T := Some i), electors := (electors g)(T := Q), initLog := (initLog g)(T := flog g i),
      leadLog := (leadLog g)(T := flog g i), leadCommit := (leadCommit g)(T := c)\<rparr>"
  have run: "dterm g i = T" "cand g i T = Some (flog g i)" "lead g T \<noteq> Some i"
    using node_okD(7) [OF ok cd] by (simp_all add: runsTerm_def T_def)
  have none: "lead g T = None"
  proof (rule ccontr)
    assume "lead g T \<noteq> None"
    then obtain j where j: "lead g T = Some j" by blast
    then have "majority n (electors g T)" using pinvD(1) [OF inv j] by (simp add: lead_ok_def)
    then obtain k where k: "k \<in> Q" "k \<in> electors g T" using majority_meet [OF Q(1)] by blast
    have "(k, j, T) \<in> ballots g" using elector_term(2) [OF inv _ k(2)] j by auto
    with ballotD(3) [OF inv] Q(2) k(1) run(3) j show False unfolding T_def by blast
  qed
  have c: "c \<le> length (flog g i)" "settled n g T (take c (flog g i))"
    using node_okD(6,10,11) [OF ok] run(1) by (simp_all add: c_def)
  have step: "pstep n g g'" unfolding g'_def using pstep.win [OF run(2) none Q(1) Q(2) [folded T_def] c] .
  have gr: "grows g g'" and inv': "pinv n g'" using pstep_pinv [OF step inv] by simp_all
  have "only_at i g g'" using none by (auto simp: only_at_def g'_def)
  moreover have "\<not> own g' T m" for m
  proof
    assume own: "own g' T m"
    have "initLog g' T = leadLog g' T" "lead g' T \<noteq> None" by (simp_all add: g'_def)
    moreover have "leadLog g' T ! (m - 1) \<in> set (leadLog g' T)" using own by (intro nth_mem) (auto simp: own_def)
    ultimately have "eTerm (leadLog g' T ! (m - 1)) < T" using lead_log(7) [OF inv'] by metis
    with own show False by (simp add: own_def)
  qed
  then have "leadsTerm g' i (becomeLeader rf)"
    using run(1) node_okD(10) [OF ok] by (auto simp: leadsTerm_def becomeLeader_def [of rf] g'_def T_def c_def)
  moreover have "settled n g' T (take c (flog g i))" using settled_grows [OF gr c(2) order_refl] .
  ultimately have "node_ok n g' i (becomeLeader rf)"
    using ok becomeLeader_wf [OF node_okD(1) [OF ok]] run(1)
    by (simp add: node_ok_def g'_def T_def c_def)
  moreover have "pmove n i g g'" using step \<open>only_at i g g'\<close> by (simp add: pmove_def)
  ultimately show ?thesis unfolding moves_def ballot_moves_def later_def by (intro exI [of _ g']) (simp add: g'_def)
qed


text \<open>A client's command.\<close>

lemma Start_moves:
  assumes inv: "pinv n g" and ok: "node_ok n g i rf" and st: "Start c rf = (r, rf')"
  shows "\<exists>g'. moves n i g rf g' rf'"
proof (cases "state rf = leader")
  case False
  with st ok show ?thesis by (intro exI [of _ g]) (simp add: Start_def moves_def ballot_moves_def)
next
  case True
  define T where "T = currentTerm rf"
  define e where "e = \<lparr>eTerm = T, eCommand = Some c\<rparr>"
  define g' where "g' = g\<lparr>leadLog := (leadLog g)(T := leadLog g T @ [e]), flog := (flog g)(i := flog g i @ [e]),
      acks := insert (i, T, Suc (length (leadLog g T))) (acks g)\<rparr>"
  note lead = node_okD(8) [OF ok True, unfolded leadsTerm_def, folded T_def]
  have rf': "rf' = persist (rf\<lparr>log := log rf @ [e]\<rparr>)" using st True by (simp add: Start_def Let_def e_def T_def)
  have step: "pstep n g g'" unfolding g'_def using lead by (intro pstep.append) (simp_all add: e_def)
  have gr: "grows g g'" using pstep_pinv [OF step inv] by simp
  have only: "only_at i g g'" using lead by (auto simp: only_at_def g'_def)
  have "tl (log rf @ [e]) = drop (nat (lastIncludedIndex rf)) (flog g i @ [e])" "log rf \<noteq> []"
    "lastIncludedTerm rf = termAt (flog g i @ [e]) (nat (lastIncludedIndex rf))"
    using node_okD(4) [OF ok] by (auto simp: node_rel_def termAt_append)
  then have rel: "node_rel rf' (flog g i @ [e])" using node_okD(4) [OF ok] by (simp add: node_rel_def rf')
  have wf: "wf_raft rf'" using Start_wf [OF node_okD(1) [OF ok], of c] st by simp
  have set: "settled n g' (dterm g i) (take (nat (commitIndex rf)) (flog g i @ [e]))"
    using settled_grows [OF gr node_okD(6) [OF ok] order_refl] node_okD(11) [OF ok] by simp
  have own: "own g T m" if "own g' T m" "m \<le> length (leadLog g T)" for m using own_back [OF gr that] .
  have slots: "matchIndex rf ! q \<le> int (length (leadLog g T))" if "q < length (peers rf)" for q
    using leaderSlots_nth(3) [of rf q] node_okD(1) [OF ok] True that node_last [OF node_okD(4) [OF ok]] lead
    by (simp add: wf_raft_def)
  have "(q, T, m) \<in> acks g'" if "q < length (peers rf)" "commitIndex rf < int m" "int m \<le> matchIndex rf ! q" "own g' T m" for q m
    using own [OF that(4)] slots [OF that(1)] that lead by (auto simp: g'_def)
  moreover have "(i, T, m) \<in> acks g'" if "own g' T m" for m
  proof (cases "m \<le> length (leadLog g T)")
    case True
    with own [OF that] lead show ?thesis by (simp add: g'_def)
  next
    case False
    with that show ?thesis by (auto simp: own_def g'_def)
  qed
  ultimately have "leadsTerm g' i rf'" using lead by (auto simp: leadsTerm_def rf' g'_def T_def [symmetric])
  then have "node_ok n g' i rf'"
    using ok wf rel set lead True by (simp add: node_ok_def rf' g'_def volatileImage_def T_def)
  moreover have "ballots g' = ballots g" by (simp add: g'_def)
  ultimately show ?thesis
    using step only by (intro exI [of _ g']) (simp add: moves_def ballot_moves_def pmove_def later_def rf')
qed


text \<open>A request to append entries.  The leader's log at the time it was sent is what the follower
  accepts.\<close>

lemma append_event_ok:
  assumes inv: "pinv n g" and ok: "node_ok n g p rf" and ap: "append_ok n g j args"
  shows "event_ok (EvAppendEntries now args) rf"
proof -
  obtain U K q xs where a: "between g U K" "aeTerm args \<le> U" "aePrevLogIndex args = int q" "q \<le> length K"
      "aeEntries args = drop q K" "aeLeaderCommit args = int (length xs)" "length xs \<le> length K" "settled n g (aeTerm args) xs"
    using ap unfolding append_ok_def by blast
  let ?L = "flog g p" and ?c = "nat (commitIndex rf)"
  have "logTerm rf (int q + 1 + int k) = Some (eTerm (drop q K ! k))"
    if le: "currentTerm rf \<le> aeTerm args" "lastIncludedIndex rf \<le> int q" and k: "k < length (drop q K)" "int q + 1 + int k \<le> commitIndex rf" for k
  proof -
    have D: "dterm g p \<le> U" using node_okD(5) [OF ok] le a(2) by simp
    have c: "q + k < ?c" "?c \<le> length ?L" "q + k < length K" using k node_okD(11) [OF ok] by auto
    have "prefix (take ?c ?L) K \<or> prefix K (take ?c ?L)" using settled_between [OF inv node_okD(6) [OF ok] D a(1)] .
    then have "K ! (q + k) = take ?c ?L ! (q + k)"
      using c prefix_nth_same [of "take ?c ?L" K "q + k"] prefix_nth_same [of K "take ?c ?L" "q + k"] by auto
    then have "eTerm (?L ! (q + k)) = eTerm (K ! (q + k))" using c(1) by simp
    moreover have "nat (int q + 1 + int k) = Suc (q + k)" by simp
    ultimately show ?thesis
      using node_logTerm [OF node_okD(4) [OF ok], of "int q + 1 + int k"] c le(2) a(4) by (simp add: termAt_def nth_drop)
  qed
  then show ?thesis using a(3-7) by (simp add: list_all_iff)
qed

lemma AppendEntries_conflict:
  assumes "AppendEntries now args rf = Some (reply, rf')"
  shows "aerConflictIndex reply \<le> 0 \<or> aerConflictIndex reply \<le> aePrevLogIndex args
    \<or> currentTerm rf \<le> aeTerm args \<and> aerConflictIndex reply \<le> lastIncludedIndex rf + 1"
proof -
  consider "aeTerm args < currentTerm rf"
    | "currentTerm rf \<le> aeTerm args" "aePrevLogIndex args < lastIncludedIndex rf"
    | "currentTerm rf \<le> aeTerm args" "lastIncludedIndex rf \<le> aePrevLogIndex args"
      "lastLogIndex rf < aePrevLogIndex args"
    | t where "currentTerm rf \<le> aeTerm args" "lastIncludedIndex rf \<le> aePrevLogIndex args"
      "aePrevLogIndex args \<le> lastLogIndex rf" "logTerm rf (aePrevLogIndex args) = Some t" "t \<noteq> aePrevLogTerm args"
    | "currentTerm rf \<le> aeTerm args" "lastIncludedIndex rf \<le> aePrevLogIndex args"
      "aePrevLogIndex args \<le> lastLogIndex rf" "logTerm rf (aePrevLogIndex args) = Some (aePrevLogTerm args)"
    using logTerm_in_range [of rf "aePrevLogIndex args"] by fastforce
  then show ?thesis
  proof cases
    case 4
    obtain ci where "conflictStart (aeAccepted now args rf) t (aePrevLogIndex args) = Some ci" "ci \<le> aePrevLogIndex args"
      using conflictStart_spec [of "aeAccepted now args rf" "aePrevLogIndex args" t] 4 by auto
    with 4 assms show ?thesis by (auto simp: AppendEntries_mismatch)
  qed (use assms in \<open>auto simp: AppendEntries_stale AppendEntries_behind AppendEntries_short AppendEntries_match bind_Some_conv\<close>)
qed

lemma append_reply_bounds:
  assumes inv: "pinv n g" and ok: "node_ok n g p rf" and ap: "append_ok n g j args" and dt: "dterm g j \<le> aeTerm args"
    and ae: "AppendEntries now args rf = Some (reply, rf')"
  shows "aePrevLogIndex args + int (length (aeEntries args)) \<le> int (length (leadLog g (aeTerm args)))"
    "aerConflictIndex reply \<le> int (length (leadLog g (aeTerm args))) + 1"
proof -
  obtain U K q xs where a: "lead g U = Some j" "between g U K" "aeTerm args \<le> U" "aePrevLogIndex args = int q" "q \<le> length K"
      "aeEntries args = drop q K"
    using ap unfolding append_ok_def by blast
  have U: "U = aeTerm args" using lead_cand(2) [OF inv a(1)] dt a(3) by simp
  have K: "length K \<le> length (leadLog g U)" using a(2) prefix_length_le by (auto simp: between_def)
  show "aePrevLogIndex args + int (length (aeEntries args)) \<le> int (length (leadLog g (aeTerm args)))"
    using a K U by simp
  have "lastIncludedIndex rf \<le> int (length (leadLog g U))" if "currentTerm rf \<le> aeTerm args"
  proof -
    have D: "dterm g p \<le> U" using node_okD(5) [OF ok] that U by simp
    have "prefix (take (nat (commitIndex rf)) (flog g p)) (leadLog g U)"
      using settled_leader [OF inv node_okD(6) [OF ok] D] a(1) by simp
    from prefix_length_le [OF this] show ?thesis using node_okD(10-12) [OF ok] by simp
  qed
  with AppendEntries_conflict [OF ae] K a(4,5) U show "aerConflictIndex reply \<le> int (length (leadLog g (aeTerm args))) + 1"
    by auto
qed

lemma append_reply_okI:
  assumes "\<And>m. dterm g i \<le> aeTerm args \<Longrightarrow> aerSuccess reply \<Longrightarrow> own g (aeTerm args) m \<Longrightarrow>
      int m \<le> aePrevLogIndex args + int (length (aeEntries args)) \<Longrightarrow>
      (p, aeTerm args, m) \<in> acks g \<or> m \<le> leadCommit g (aeTerm args)"
    "dterm g i \<le> aeTerm args \<Longrightarrow> aePrevLogIndex args + int (length (aeEntries args)) \<le> int (length (leadLog g (aeTerm args)))"
    "dterm g i \<le> aeTerm args \<Longrightarrow> aerConflictIndex reply \<le> int (length (leadLog g (aeTerm args))) + 1"
    "aerSuccess reply \<Longrightarrow> aerTerm reply = aeTerm args"
  shows "append_reply_ok g i p args reply"
  using assms by (simp add: append_reply_ok_def Let_def)

lemma accept_settled:
  assumes inv: "pinv n g" and ok: "node_ok n g p rf" and K: "lead g U \<noteq> None" "between g U K" "T \<le> U"
    and xs: "settled n g T xs" "length xs \<le> length K" and dt: "dterm g p \<le> T"
  shows "settled n g T (take (nat (max (commitIndex rf) (int (length xs)))) (accepted K (flog g p)))"
proof (cases "commitIndex rf < int (length xs)")
  case True
  have "prefix xs (leadLog g U)" by (rule settled_leader [OF inv xs(1) K(3,1)])
  then have "prefix xs K" using K(2) xs(2) prefix_length_prefix by (auto simp: between_def)
  then have "prefix xs (accepted K (flog g p))" unfolding accepted_def using prefix_order.order_trans by (auto split: if_splits)
  from prefix_takeD [OF this] xs(1) True show ?thesis by simp
next
  case False
  have "dterm g p \<le> U" using dt K(3) by simp
  from settled_accept(1) [OF inv K(2) this] node_okD(6,11) [OF ok]
  have "take (nat (commitIndex rf)) (accepted K (flog g p)) = take (nat (commitIndex rf)) (flog g p)" by simp
  then show ?thesis using settled_grows [OF grows_refl node_okD(6) [OF ok] dt] False by (simp add: max_absorb1)
qed

lemma accept_reply:
  assumes inv: "pinv n g" and ok: "node_ok n g p rf" and ap: "append_ok n g j args"
    and ae: "AppendEntries now args rf = Some (reply, rf')" "aerTerm reply = aeTerm args"
    and a: "lead g U = Some j" "between g U K" "aeTerm args \<le> U" "dterm g p \<le> U"
      "aePrevLogIndex args + int (length (aeEntries args)) = int (length K)"
    and g': "g' = g\<lparr>dterm := (dterm g)(p := aeTerm args), flog := (flog g)(p := A),
      acks := acks g \<union> (if aeTerm args = U then newAcks g p U K (flog g p) else {})\<rparr>" and gr: "grows g g'"
  shows "append_reply_ok g' j p args reply"
proof (rule append_reply_okI)
  have dj: "dterm g j \<le> aeTerm args" if "dterm g' j \<le> aeTerm args" using that growsD(1) [OF gr, of j] by simp
  note bounds = append_reply_bounds [OF inv ok ap _ ae(1)]
  show "aePrevLogIndex args + int (length (aeEntries args)) \<le> int (length (leadLog g' (aeTerm args)))"
    "aerConflictIndex reply \<le> int (length (leadLog g' (aeTerm args))) + 1" if "dterm g' j \<le> aeTerm args"
    using bounds dj [OF that] by (simp_all add: g')
  fix m assume h: "dterm g' j \<le> aeTerm args" "own g' (aeTerm args) m"
    "int m \<le> aePrevLogIndex args + int (length (aeEntries args))"
  have U: "U = aeTerm args" using lead_cand(2) [OF inv a(1)] dj [OF h(1)] a(3) by simp
  have "own g U m" "m \<le> length K" using h(2,3) a(5) U by (simp_all add: own_def g')
  with spliced_result(2) [OF inv a(2,4)] U show "(p, aeTerm args, m) \<in> acks g' \<or> m \<le> leadCommit g' (aeTerm args)"
    by (auto simp: g' newAcks_def)
qed (rule ae(2))

lemma accept_moves:
  assumes inv: "pinv n g" and ok: "node_ok n g p rf" and ap: "append_ok n g j args"
    and ae: "AppendEntries now args rf = Some (reply, rf')" "aerSuccess reply"
  shows "\<exists>g'. moves n p g rf g' rf' \<and> append_reply_ok g' j p args reply"
proof -
  obtain U K q xs where a: "lead g U = Some j" "between g U K" "aeTerm args \<le> U" "aePrevLogIndex args = int q" "q \<le> length K"
      "aeEntries args = drop q K" "aePrevLogTerm args = termAt K q" "settled n g (aeTerm args) xs"
      "aeLeaderCommit args = int (length xs)" "length xs \<le> length K"
    using ap unfolding append_ok_def by blast
  define t where "t = aeTerm args"
  define L where "L = flog g p"
  define A where "A = accepted K L"
  define g' where "g' = g\<lparr>dterm := (dterm g)(p := t), flog := (flog g)(p := A),
      acks := acks g \<union> (if t = U then newAcks g p U K L else {})\<rparr>"
  note rel = node_okD(4) [OF ok, folded L_def]
  from ae(1) obtain m: "currentTerm rf \<le> t" "lastIncludedIndex rf \<le> int q" "int q \<le> lastLogIndex rf"
      "logTerm rf (int q) = Some (termAt K q)" and rt: "aerTerm reply = t"
    by (rule AppendEntries_cases) (use ae(2) a(4,7) in \<open>auto simp: t_def\<close>)
  have qL: "q \<le> length L" using m(3) node_last [OF rel] by simp
  have end1: "sameEnd q K L" using node_logTerm [OF rel m(2)] m(4) qL a(5) by (auto simp: sameEnd_def termAt_def split: if_splits)
  have D: "dterm g p \<le> t" "dterm g p \<le> U" and tU: "t \<le> U" using node_okD(5) [OF ok] m(1) a(3) by (simp_all add: t_def)
  have same: "take q K = take q L" using accept_prefix [OF inv a(2) D(2)] end1 by (simp add: L_def)
  have step: "pstep n g g'" unfolding g'_def A_def L_def using pstep.accept [OF a(2) D(1) tU end1 [unfolded L_def]] .
  have gr: "grows g g'" using pstep_pinv [OF step inv] by simp
  have only: "only_at p g g'" by (auto simp: only_at_def g'_def)
  define d where "d = nat (int q + 1 - lastIncludedIndex rf)"
  have rf': "rf' = aeCommitted args (persist ((aeAccepted now args rf)
      \<lparr>log := take d (log rf) @ merge_log (drop q K) (drop d (log rf))\<rparr>))"
    using AppendEntries_match_merge [of rf args now] m a(4,6,7) ae(1) by (simp add: t_def d_def)
  have gen: "genuine g K" "genuine g L"
    using matched_genuine [OF between_log(1) [OF inv a(2)]] pinvD(6) [OF inv, of p] by (simp_all add: log_ok_def L_def)
  have relA: "node_rel rf' A" unfolding A_def
    by (rule node_append [OF rel m(2) qL a(5) same gen d_def]) (simp_all add: rf')
  have wf: "wf_raft rf'" using AppendEntries_wf [OF node_okD(1) [OF ok] append_event_ok [OF inv ok ap], of now] ae(1) by auto
  have ci: "commitIndex rf' = max (commitIndex rf) (int (length xs))"
    using a(4,5,6,9,10) by (simp add: rf' aeCommitted_commitIndex)
  have set: "settled n g t (take (nat (commitIndex rf')) A)"
    unfolding ci A_def L_def t_def using accept_settled [OF inv ok _ a(2,3,8,10)] a(1) D(1) by (simp add: t_def)
  have "durable rf' = (t, votedFor rf, log rf', lastIncludedIndex rf', lastIncludedTerm rf')" "state rf' = follower"
    "currentTerm rf' = t" "peers rf' = peers rf" "me rf' = me rf" "lastIncludedIndex rf' = lastIncludedIndex rf"
    by (simp_all add: rf' t_def volatileImage_def)
  then have "moves n p g rf g' rf'"
    using step only wf relA settled_grows [OF gr set order_refl] node_okD(2,3) [OF ok] m(1) ci
    by (simp add: moves_def ballot_moves_def pmove_def node_ok_def later_def g'_def)
  moreover have "append_reply_ok g' j p args reply"
    by (rule accept_reply [OF inv ok ap ae(1) rt [unfolded t_def] a(1-3) D(2) _ g'_def [unfolded t_def L_def] gr])
      (use a(4-6) in simp)
  ultimately show ?thesis by blast
qed

lemma AppendEntries_moves:
  assumes inv: "pinv n g" and ok: "node_ok n g p rf" and ap: "append_ok n g j args"
    and ae: "AppendEntries now args rf = Some (reply, rf')"
  shows "\<exists>g'. moves n p g rf g' rf' \<and> append_reply_ok g' j p args reply"
proof (cases "aerSuccess reply")
  case True
  then show ?thesis by (rule accept_moves [OF inv ok ap ae])
next
  case False
  note wf = AppendEntries_wf [OF node_okD(1) [OF ok] append_event_ok [OF inv ok ap], of now]
  from ae have "rf' = rf \<or> rf' = aeAccepted now args rf \<and> currentTerm rf \<le> aeTerm args"
    by (rule AppendEntries_cases) (use False in auto)
  moreover have "\<exists>t. dterm g p \<le> t \<and> moves n p g rf (g\<lparr>dterm := (dterm g)(p := t)\<rparr>) rf'"
    by (rule node_keep' [OF ok]) (use calculation wf ae in auto)
  ultimately obtain t where t: "dterm g p \<le> t" "moves n p g rf (g\<lparr>dterm := (dterm g)(p := t)\<rparr>) rf'" by blast
  have "append_reply_ok g j p args reply"
    using append_reply_bounds [OF inv ok ap _ ae] False by (intro append_reply_okI) auto
  then have "append_reply_ok (g\<lparr>dterm := (dterm g)(p := t)\<rparr>) j p args reply"
    by (rule append_reply_ok_grows [OF raise_grows [OF t(1)]])
  with t(2) show ?thesis by blast
qed


text \<open>A reply to an append request: what a majority acknowledged beyond the commit index is chosen.\<close>

lemma append_reply_event_ok:
  assumes ok: "node_ok n g i rf" and q: "q < n" and rep: "append_reply_ok g i q args reply"
  shows "event_ok (EvAppendReply q args reply) rf"
proof -
  have "aePrevLogIndex args + int (length (aeEntries args)) \<le> lastLogIndex rf \<and> aerConflictIndex reply \<le> lastLogIndex rf + 1"
    if st: "state rf = leader" "currentTerm rf = aeTerm args"
  proof -
    have "dterm g i = aeTerm args" "flog g i = leadLog g (aeTerm args)"
      using node_okD(8) [OF ok st(1)] st(2) by (simp_all add: leadsTerm_def)
    with rep node_last [OF node_okD(4) [OF ok]] show ?thesis by (simp add: append_reply_ok_def Let_def)
  qed
  then show ?thesis using q node_okD(2) [OF ok] by simp
qed

lemma onAppendReply_success:
  assumes "wf_raft rf" "state rf = leader" "currentTerm rf = aeTerm args" "aerSuccess reply" "aerTerm reply = aeTerm args"
    "q < length (peers rf)"
  defines "m \<equiv> max (matchIndex rf ! q) (aePrevLogIndex args + int (length (aeEntries args)))"
  shows "onAppendReply q args reply rf =
    maybeAdvanceCommitIndex (rf\<lparr>matchIndex := (matchIndex rf)[q := m], nextIndex := (nextIndex rf)[q := m + 1]\<rparr>)"
proof -
  have "leaderSlots rf" using assms(1,2) by (simp add: wf_raft_def)
  note slots = leaderSlots_nth [OF this assms(6)]
  show ?thesis using assms(2-5) slots by (simp add: onAppendReply_def Let_def m_def max_def)
qed

lemma counted_moves:
  assumes inv: "pinv n g" and ok: "node_ok n g i rf" and st: "state rf = leader"
    and rf': "rf' = rf\<lparr>matchIndex := mx, nextIndex := nx, commitIndex := c\<rparr>" "wf_raft rf'"
    and mx: "\<And>q m. q < n \<Longrightarrow> commitIndex rf < int m \<Longrightarrow> int m \<le> mx ! q \<Longrightarrow> own g (currentTerm rf) m \<Longrightarrow>
      (q, currentTerm rf, m) \<in> acks g"
    and c: "c = commitIndex rf \<or> commitIndex rf < c \<and> chosen n g (currentTerm rf) (nat c)"
  shows "\<exists>g'. moves n i g rf g' rf'"
proof -
  define T where "T = currentTerm rf"
  define g' where "g' = g\<lparr>leadCommit := (leadCommit g)(T := nat c)\<rparr>"
  note lead = node_okD(8) [OF ok st, unfolded leadsTerm_def, folded T_def]
  have c0: "0 \<le> c" "commitIndex rf \<le> c" using c node_okD(10) [OF ok] by auto
  have le: "leadCommit g T \<le> nat c" using lead c0 by linarith
  have "nat (commitIndex rf) = leadCommit g T" using lead by (metis nat_int)
  then have triv: "c = commitIndex rf \<Longrightarrow> g' = g" by (simp add: g'_def)
  have step: "(pstep n)\<^sup>=\<^sup>= g g'"
    using c pstep.commit [of n g T "nat c"] le triv by (auto simp: g'_def T_def)
  have gr: "grows g g'" using commit_grows [OF le] by (simp add: g'_def)
  have "settled n g T (take (nat c) (flog g i))"
  proof (cases "c = commitIndex rf")
    case True
    with node_okD(6) [OF ok] lead show ?thesis by simp
  next
    case False
    then have "chosen n g T (nat c)" using c by (simp add: T_def)
    moreover from this have "nat c \<le> length (leadLog g T)" by (simp add: chosen_def own_def)
    ultimately show ?thesis using lead unfolding settled_def by (intro disjI2 exI [of _ T] exI [of _ "nat c"]) simp
  qed
  then have "settled n g' T (take (nat c) (flog g i))" using settled_grows [OF gr] by blast
  moreover have "leadsTerm g' i rf'"
    using lead c0 mx node_okD(2) [OF ok] by (auto simp: leadsTerm_def rf'(1) g'_def own_def T_def)
  ultimately have "node_ok n g' i rf'"
    using ok rf'(2) st lead by (simp add: node_ok_def rf'(1) g'_def T_def durable_fields)
  moreover have "only_at i g g'" "ballots g' = ballots g" using lead by (auto simp: only_at_def g'_def)
  ultimately show ?thesis using step c0 by (intro exI [of _ g']) (simp add: moves_def ballot_moves_def pmove_def later_def rf'(1))
qed

lemma committable_chosen:
  assumes ok: "node_ok n g i rf" and st: "state rf = leader" and mx: "\<And>q m. q < n \<Longrightarrow> commitIndex rf < int m \<Longrightarrow>
      int m \<le> mx ! q \<Longrightarrow> own g (currentTerm rf) m \<Longrightarrow> (q, currentTerm rf, m) \<in> acks g"
    and c: "commitIndex rf < c" "c \<le> lastLogIndex rf" "committable (rf\<lparr>matchIndex := mx, nextIndex := nx\<rparr>) c"
  shows "chosen n g (currentTerm rf) (nat c)"
proof -
  define T where "T = currentTerm rf"
  note lead = node_okD(8) [OF ok st, unfolded leadsTerm_def, folded T_def]
  note rel = node_okD(4) [OF ok]
  let ?R = "replicas (rf\<lparr>matchIndex := mx, nextIndex := nx\<rparr>) c"
  have "logTerm (rf\<lparr>matchIndex := mx, nextIndex := nx\<rparr>) c = logTerm rf c" by (rule logTerm_cong) simp_all
  then have "logTerm rf c = Some T" and maj: "majority n ?R"
    using c(3) node_okD(2) [OF ok] by (simp_all add: committable_def T_def)
  moreover have "logTerm rf c = Some (termAt (leadLog g T) (nat c))"
    using node_logTerm [OF rel, of c] c node_okD(12) [OF ok] node_last [OF rel] lead by simp
  moreover have pos: "0 < nat c" "nat c \<le> length (leadLog g T)"
    using c node_okD(10) [OF ok] node_last [OF rel] lead by auto
  ultimately have own: "own g T (nat c)" by (simp add: own_def termAt_def)
  moreover have "(k, T, nat c) \<in> acks g" if "k \<in> ?R" for k
  proof (cases "k = i")
    case True
    with lead own show ?thesis by simp
  next
    case False
    with that node_okD(2,3) [OF ok] have "k < n" "c \<le> mx ! k" by (auto simp: replicas_def)
    with mx [of k "nat c"] own c(1) pos show ?thesis by (simp add: T_def)
  qed
  ultimately show ?thesis using maj unfolding chosen_def T_def by blast
qed

lemma reply_counts:
  assumes ok: "node_ok n g i rf" and q: "q < n" and rep: "append_reply_ok g i q args reply"
    and st: "state rf = leader" "currentTerm rf = aeTerm args" "aerSuccess reply"
    and r: "r < n" "commitIndex rf < int k" "own g (currentTerm rf) k"
      "int k \<le> (matchIndex rf)[q := max (matchIndex rf ! q) (aePrevLogIndex args + int (length (aeEntries args)))] ! r"
  shows "(r, currentTerm rf, k) \<in> acks g"
proof -
  note lead = node_okD(8) [OF ok st(1), unfolded leadsTerm_def]
  have rep': "int k \<le> aePrevLogIndex args + int (length (aeEntries args)) \<Longrightarrow>
      (q, currentTerm rf, k) \<in> acks g \<or> k \<le> leadCommit g (currentTerm rf)"
    using rep st(2,3) lead r(3) by (simp add: append_reply_ok_def Let_def)
  have len: "length (matchIndex rf) = n"
    using node_okD(1,2) [OF ok] st(1) by (simp add: wf_raft_def leaderSlots_def leaderArrays_def)
  show ?thesis
  proof (cases "int k \<le> matchIndex rf ! r")
    case True
    with r lead node_okD(2) [OF ok] show ?thesis by auto
  next
    case False
    with r(4) have "r = q" by (cases "r = q") auto
    with False r rep' lead q len show ?thesis by auto
  qed
qed

lemma reply_refused:
  assumes on: "onAppendReply q args reply rf = Some rf'" and no: "\<not> (state rf = leader \<and> currentTerm rf = aeTerm args \<and> aerSuccess reply)"
  obtains nx where "rf' = rf\<lparr>nextIndex := nx\<rparr>
    \<or> currentTerm rf < aerTerm reply \<and> rf' = (stepDown (aerTerm reply) rf)\<lparr>nextIndex := nx\<rparr>"
proof (cases "state rf = leader \<and> currentTerm rf = aeTerm args")
  case True
  then have "backUp q reply (if currentTerm rf < aerTerm reply then stepDown (aerTerm reply) rf else rf) = Some rf'"
    using on no by (auto simp: onAppendReply_def Let_def)
  from backUp_frame [OF this] show ?thesis by (auto split: if_splits intro: that)
next
  case False
  then have "rf' = rf\<lparr>nextIndex := nextIndex rf\<rparr>" using on by (auto simp: onAppendReply_def)
  then show ?thesis by (rule that [OF disjI1])
qed

lemma onAppendReply_moves:
  assumes inv: "pinv n g" and ok: "node_ok n g i rf" and q: "q < n" and rep: "append_reply_ok g i q args reply"
    and on: "onAppendReply q args reply rf = Some rf'"
  shows "\<exists>g'. moves n i g rf g' rf'"
proof -
  have wf: "wf_raft rf'" using onAppendReply_wf [OF node_okD(1) [OF ok] append_reply_event_ok [OF ok q rep]] on by simp
  show ?thesis
  proof (cases "state rf = leader \<and> currentTerm rf = aeTerm args \<and> aerSuccess reply")
    case True
    then have st: "state rf = leader" "currentTerm rf = aeTerm args" "aerSuccess reply" by simp_all
    define m where "m = max (matchIndex rf ! q) (aePrevLogIndex args + int (length (aeEntries args)))"
    define mx where "mx = (matchIndex rf)[q := m]"
    define nx where "nx = (nextIndex rf)[q := m + 1]"
    have rt: "aerTerm reply = aeTerm args" "q < length (peers rf)"
      using rep st(2,3) q node_okD(2,5) [OF ok] by (simp_all add: append_reply_ok_def Let_def)
    note eq = onAppendReply_success [OF node_okD(1) [OF ok] st rt, folded m_def mx_def nx_def]
    have mx: "(r, currentTerm rf, k) \<in> acks g"
      if "r < n" "commitIndex rf < int k" "int k \<le> mx ! r" "own g (currentTerm rf) k" for r k
      by (rule reply_counts [OF ok q rep st that(1,2,4)]) (use that(3) in \<open>simp add: mx_def m_def\<close>)
    let ?rf = "rf\<lparr>matchIndex := mx, nextIndex := nx\<rparr>"
    have "leaderArrays ?rf" "lastIncludedIndex ?rf \<le> commitIndex ?rf"
      using node_okD(1,12) [OF ok] st(1) by (simp_all add: wf_raft_def leaderSlots_def leaderArrays_def mx_def nx_def)
    then obtain c where c: "maybeAdvanceCommitIndex ?rf = Some (?rf\<lparr>commitIndex := c\<rparr>)"
      "c = commitIndex rf \<or> commitIndex rf < c \<and> c \<le> lastLogIndex rf \<and> committable ?rf c"
      using maybeAdvanceCommitIndex_spec [of ?rf] by (auto simp: lastLogIndex_def)
    have rf': "rf' = rf\<lparr>matchIndex := mx, nextIndex := nx, commitIndex := c\<rparr>" using on eq c(1) by simp
    show ?thesis
    proof (rule counted_moves [OF inv ok st(1) rf' wf])
      show "c = commitIndex rf \<or> commitIndex rf < c \<and> chosen n g (currentTerm rf) (nat c)"
        using c(2) committable_chosen [OF ok st(1), of mx c nx] mx by blast
    qed (rule mx)
  next
    case False
    obtain nx where "rf' = rf\<lparr>nextIndex := nx\<rparr>
      \<or> currentTerm rf < aerTerm reply \<and> rf' = (stepDown (aerTerm reply) rf)\<lparr>nextIndex := nx\<rparr>"
      by (rule reply_refused [OF on False])
    then have "\<exists>t. dterm g i \<le> t \<and> moves n i g rf (g\<lparr>dterm := (dterm g)(i := t)\<rparr>) rf'"
      by (elim disjE; intro node_keep' [OF ok wf]) (simp_all add: durable_fields)
    then show ?thesis by blast
  qed
qed

text \<open>Snapshots.\<close>

lemma InstallSnapshot_moves:
  assumes inv: "pinv n g" and ok: "node_ok n g p rf" and ins: "install_ok g j args"
    and iss: "InstallSnapshot now args rf = Some (reply, rf')"
  shows "\<exists>g'. moves n p g rf g' rf'"
proof -
  have wf: "wf_raft rf'" using InstallSnapshot_wf [OF node_okD(1) [OF ok], of now args] iss by auto
  from iss show ?thesis
  proof (cases rule: InstallSnapshot_cases)
    case stale
    then show ?thesis using ok by (intro exI [of _ g]) (simp add: moves_def ballot_moves_def)
  next
    case outdated
    then have "\<exists>t. dterm g p \<le> t \<and> moves n p g rf (g\<lparr>dterm := (dterm g)(p := t)\<rparr>) rf'"
      by (intro node_keep' [OF ok wf]) auto
    then show ?thesis by blast
  next
    case installed
    define U where "U = isTerm args"
    obtain m where m: "lead g U \<noteq> None" "isLastIncludedIndex args = int m" "m \<le> leadCommit g U"
      "isLastIncludedTerm args = termAt (leadLog g U) m" using ins by (auto simp: install_ok_def U_def)
    define I where "I = Raft_Protocol.installed (leadLog g U) m (flog g p)"
    define g' where "g' = g\<lparr>dterm := (dterm g)(p := U), flog := (flog g)(p := I)\<rparr>"
    have le: "dterm g p \<le> U" using node_okD(5) [OF ok] installed(1) by (simp add: U_def)
    have step: "pstep n g g'" unfolding g'_def I_def using pstep.install [OF m(1,3) le] .
    have gr: "grows g g'" using pstep_pinv [OF step inv] by simp
    have only: "only_at p g g'" by (auto simp: only_at_def g'_def)
    note mlen = committed_settled [OF inv m(1,3)]
    have f: "log rf' = isKeptLog args rf" "lastIncludedIndex rf' = isLastIncludedIndex args"
      "lastIncludedTerm rf' = isLastIncludedTerm args" "currentTerm rf' = U" "state rf' = follower"
      "commitIndex rf' = max (commitIndex rf) (int m)" "peers rf' = peers rf" "me rf' = me rf"
      "durable rf' = (U, votedFor rf', log rf', lastIncludedIndex rf', lastIncludedTerm rf')"
      using installed(1) by (simp_all add: installed(3) isInstalled_def durable_fields volatileImage_def U_def m(2) max_absorb2)
    have rel: "node_rel rf' I" unfolding I_def
      by (rule node_install [OF node_okD(4) [OF ok] installed(2) m(2) mlen(2) m(4) f(1-3)])
    have "settled n g U (take (nat (commitIndex rf')) I)"
    proof (cases "commitIndex rf \<le> int m")
      case True
      then show ?thesis using mlen by (simp add: f(6) max_absorb2 I_def Raft_Protocol.installed_def)
    next
      case False
      have "take (nat (commitIndex rf)) I = take (nat (commitIndex rf)) (flog g p)"
        unfolding I_def using settled_install(1) [OF inv m(1,3) node_okD(6) [OF ok]] node_okD(11) [OF ok] False by simp
      then show ?thesis using settled_grows [OF grows_refl node_okD(6) [OF ok] le] False by (simp add: f(6) max_absorb1)
    qed
    then have "node_ok n g' p rf'"
      using settled_grows [OF gr] wf rel f node_okD(2,3) [OF ok] unfolding node_ok_def by (simp add: g'_def)
    moreover have "ballots g' = ballots g" by (simp add: g'_def)
    ultimately show ?thesis
      using step only f installed(1,2)
      by (intro exI [of _ g']) (simp add: moves_def ballot_moves_def pmove_def later_def U_def)
  qed
qed

lemma onSnapshotReply_moves:
  assumes inv: "pinv n g" and ok: "node_ok n g i rf" and q: "q < n" and lii: "isLastIncludedIndex args \<le> lastIncludedIndex rf"
    and on: "onSnapshotReply q args reply rf = Some rf'"
  shows "\<exists>g'. moves n i g rf g' rf'"
proof -
  have lc: "isLastIncludedIndex args \<le> commitIndex rf" using lii node_okD(12) [OF ok] by simp
  have ev: "event_ok (EvSnapshotReply q args reply) rf"
    using q lc node_okD(1,2) [OF ok] by (simp add: wf_raft_def)
  have wf: "wf_raft rf'" using onSnapshotReply_wf [OF node_okD(1) [OF ok] ev] on by simp
  show ?thesis
  proof (cases "state rf = leader \<and> currentTerm rf = isTerm args \<and> isrTerm reply \<le> currentTerm rf")
    case True
    then have st: "state rf = leader" by simp
    then have "leaderSlots rf" using node_okD(1) [OF ok] by (simp add: wf_raft_def)
    note slots = leaderSlots_nth [OF this, of q]
    define m where "m = (if matchIndex rf ! q < isLastIncludedIndex args then isLastIncludedIndex args else matchIndex rf ! q)"
    have "rf' = rf\<lparr>matchIndex := (matchIndex rf)[q := m], nextIndex := (nextIndex rf)[q := m + 1]\<rparr>"
      using on True q node_okD(2) [OF ok] slots by (simp add: onSnapshotReply_def Let_def m_def)
    then have rf': "rf' = rf\<lparr>matchIndex := (matchIndex rf)[q := m], nextIndex := (nextIndex rf)[q := m + 1], commitIndex := commitIndex rf\<rparr>"
      by (simp del: fun_upd_apply)
    have "(r, currentTerm rf, k) \<in> acks g"
      if "r < n" "commitIndex rf < int k" "int k \<le> (matchIndex rf)[q := m] ! r" "own g (currentTerm rf) k" for r k
    proof -
      have "int k \<le> matchIndex rf ! r"
        using that lc by (cases "r = q"; cases "q < length (matchIndex rf)") (auto simp: m_def list_update_beyond not_less split: if_splits)
      with that node_okD(8) [OF ok st] node_okD(2) [OF ok] show ?thesis by (auto simp: leadsTerm_def)
    qed
    then show ?thesis using counted_moves [OF inv ok st rf' wf] by blast
  next
    case False
    then have "rf' = rf \<or> currentTerm rf < isrTerm reply \<and> rf' = stepDown (isrTerm reply) rf"
      using on by (auto simp: onSnapshotReply_def split: if_splits)
    then have "\<exists>t. dterm g i \<le> t \<and> moves n i g rf (g\<lparr>dterm := (dterm g)(i := t)\<rparr>) rf'"
      by (elim disjE; intro node_keep' [OF ok wf]) auto
    then show ?thesis by blast
  qed
qed

lemma Snapshot_moves:
  assumes ok: "node_ok n g i rf" and ix: "index \<le> lastApplied rf" and sn: "Snapshot index sn rf = Some rf'"
  shows "\<exists>g'. moves n i g rf g' rf'"
proof -
  have "index \<le> int (length (flog g i))" using ix node_okD(11,13) [OF ok] by simp
  note rel = node_snapshot [OF node_okD(4) [OF ok] this sn]
  have wf: "wf_raft rf'" using Snapshot_wf [OF node_okD(1) [OF ok] ix, of sn] sn by simp
  have "rf' = rf \<or> (\<exists>v. durable rf' = (currentTerm rf', v, log rf', lastIncludedIndex rf', lastIncludedTerm rf'))"
    using sn by (auto simp: Snapshot_def bind_Some_conv volatileImage_def split: if_splits)
  moreover have "peers rf' = peers rf" "me rf' = me rf" "commitIndex rf' = commitIndex rf" "currentTerm rf' = currentTerm rf"
    "state rf' = state rf" "matchIndex rf' = matchIndex rf"
    using sn by (auto simp: Snapshot_def bind_Some_conv split: if_splits)
  ultimately have "\<exists>t. dterm g i \<le> t \<and> moves n i g rf (g\<lparr>dterm := (dterm g)(i := t)\<rparr>) rf'"
    using wf rel by (intro node_keep [OF ok]) auto
  then show ?thesis by blast
qed


text \<open>The apply loop.\<close>

lemma applyGap_moves:
  assumes ok: "node_ok n g i rf" and ap: "applyGap rf = Some (m, rf')"
  shows "\<exists>g'. moves n i g rf g' rf'" "m = Some msg \<Longrightarrow> delivery_ok n g msg"
proof -
  have wf: "wf_raft rf'" using applyGap_wf [OF node_okD(1) [OF ok]] ap by simp
  obtain a where a: "rf' = rf\<lparr>lastApplied := a\<rparr>" using applyGap_frame [OF ap] by blast
  have "\<exists>t. dterm g i \<le> t \<and> moves n i g rf (g\<lparr>dterm := (dterm g)(i := t)\<rparr>) rf'"
    by (rule node_keep' [OF ok wf]) (simp_all add: a durable_fields)
  then show "\<exists>g'. moves n i g rf g' rf'" by blast
  assume m: "m = Some msg"
  let ?k = "lastApplied rf + 1" and ?xs = "take (nat (commitIndex rf)) (flog g i)"
  have less: "lastApplied rf < commitIndex rf" and msg: "msg = commandMsg (eCommand (log rf ! nat (?k - lastIncludedIndex rf))) ?k"
    using ap m applyGap_spec [OF node_okD(1) [OF ok]] by (auto split: if_splits)
  have w: "lastIncludedIndex rf \<le> lastApplied rf" "0 \<le> lastApplied rf"
    using node_okD(1) [OF ok] by (auto simp: wf_raft_def)
  have "log rf ! nat (?k - lastIncludedIndex rf) = flog g i ! nat (lastApplied rf)"
    using node_entry(1) [OF node_okD(4) [OF ok], of ?k] w less node_okD(11) [OF ok] by simp
  then have "amCommand msg = eCommand (?xs ! (nat ?k - 1))" "CommandIndex msg = int (nat ?k)"
    using msg w less by (simp_all add: commandMsg_def nat_add_distrib)
  moreover have "nat ?k \<le> length ?xs" "0 < nat ?k" using less w node_okD(11) [OF ok] by auto
  ultimately show "delivery_ok n g msg" using node_okD(6) [OF ok] unfolding delivery_ok_def by blast
qed

lemma applyTop_moves:
  assumes ok: "node_ok n g i rf" and ap: "applyTop rf = Some (m, rf')"
    and pend: "\<forall>msg. pendingSnapshot rf = Some msg \<longrightarrow> \<not> CommandValid msg"
  shows "\<exists>g'. moves n i g rf g' rf'" "m = Some msg \<Longrightarrow> delivery_ok n g msg"
proof -
  have "(\<exists>g'. moves n i g rf g' rf') \<and> (m = Some msg \<longrightarrow> delivery_ok n g msg)"
  proof (cases "pendingSnapshot rf")
    case None
    then have gap: "applyGap rf = Some (m, rf')" using ap by (simp add: applyTop_def)
    show ?thesis using applyGap_moves(1) [OF ok gap] applyGap_moves(2) [OF ok gap] by blast
  next
    case (Some msg')
    then have rf': "rf' = rf\<lparr>pendingSnapshot := None\<rparr>" "m = Some msg'" using ap by (simp_all add: applyTop_def)
    have "wf_raft rf'" using applyTop_wf [OF node_okD(1) [OF ok]] ap by simp
    then have "\<exists>t. dterm g i \<le> t \<and> moves n i g rf (g\<lparr>dterm := (dterm g)(i := t)\<rparr>) rf'"
      by (rule node_keep' [OF ok]) (simp_all add: rf' durable_fields)
    with pend Some rf'(2) show ?thesis by (auto simp: delivery_ok_def)
  qed
  then show "\<exists>g'. moves n i g rf g' rf'" "m = Some msg \<Longrightarrow> delivery_ok n g msg" by simp_all
qed

text \<open>A restart: everything the protocol knows of a peer is on stable storage.\<close>

lemma Make_node_ok:
  assumes inv: "pinv n g" and ok: "node_ok n g i rf" and i: "i < n"
  shows "node_ok n g i (Make (peers rf) (int i) (persister rf) now)"
    "lastIncludedIndex (Make (peers rf) (int i) (persister rf) now) = lastIncludedIndex rf"
proof -
  let ?rf = "Make (peers rf) (int i) (persister rf) now"
  obtain v where dur: "durable rf = (dterm g i, v, log rf, lastIncludedIndex rf, lastIncludedTerm rf)"
    using node_okD(9) [OF ok] by blast
  have same: "durable ?rf = durable rf" by (rule durable_cong) simp
  have f: "currentTerm ?rf = dterm g i" "log ?rf = log rf" "lastIncludedIndex ?rf = lastIncludedIndex rf"
    "lastIncludedTerm ?rf = lastIncludedTerm rf"
    using readPersist_durable [of "peers rf" "int i" rf now] dur by (simp_all add: volatileImage_def)
  then show "lastIncludedIndex ?rf = lastIncludedIndex rf" by simp
  have wf: "wf_raft ?rf" using dur
    by (rule Make_wf) (use node_okD(1,2) [OF ok] i in \<open>auto simp: wf_raft_def\<close>)
  have "settled n g (dterm g i) (take (nat (lastIncludedIndex rf)) (flog g i))"
    using settled_take [OF node_okD(6) [OF ok], of "nat (lastIncludedIndex rf)"] node_okD(12) [OF ok] by (simp add: nat_mono min.absorb1)
  moreover have "node_rel ?rf (flog g i)" using node_okD(4) [OF ok] f by (simp add: node_rel_cong [of ?rf rf])
  ultimately show "node_ok n g i ?rf"
    using wf f same dur node_okD(2) [OF ok] by (simp add: node_ok_def)
qed

text \<open>What a leader sends.\<close>

lemma heartbeat_round:
  assumes "node_ok n g i rf"
  shows "round_ok n g rf (sendHeartbeats_begin rf)"
proof -
  have "settled n g (currentTerm rf) (take (nat (commitIndex rf)) (flog g i))"
    using settled_grows [OF grows_refl node_okD(6,5) [OF assms]] .
  moreover have "commitIndex rf = int (length (take (nat (commitIndex rf)) (flog g i)))"
    using node_okD(10,11) [OF assms] by simp
  ultimately show ?thesis unfolding round_ok_def sendHeartbeats_begin_def by auto
qed

lemma sent_ok:
  assumes inv: "pinv n g" and ok: "node_ok n g i rf" and hb: "round_ok n g rf hb" and p: "p < n"
    and out: "sendHeartbeats_peer hb p rf = Some out"
  shows "out = AppendRequest args \<Longrightarrow> append_ok n g i args"
    "out = SnapshotRequest iargs \<Longrightarrow> install_ok g i iargs \<and> isLastIncludedIndex iargs = lastIncludedIndex rf"
proof -
  define T where "T = currentTerm rf"
  have st: "state rf = leader" if "out \<noteq> NoRequest"
    using out that by (cases hb) (auto simp: sendHeartbeats_peer_def split: if_splits)
  note lead = node_okD(8) [OF ok, unfolded leadsTerm_def, folded T_def]
  note rel = node_okD(4) [OF ok]
  have spec: "if nextIndex rf ! p \<le> lastIncludedIndex rf
    then sendHeartbeats_peer hb p rf = Some (SnapshotRequest (snapshotArgs rf))
    else \<exists>args. sendHeartbeats_peer hb p rf = Some (AppendRequest args)
      \<and> (aeTerm args, aeLeaderId args, aeLeaderCommit args) = hb
      \<and> aePrevLogIndex args = nextIndex rf ! p - 1 \<and> logTerm rf (nextIndex rf ! p - 1) = Some (aePrevLogTerm args)
      \<and> aePrevLogIndex args + int (length (aeEntries args)) = lastLogIndex rf
      \<and> aeEntries args = drop (nat (nextIndex rf ! p - lastIncludedIndex rf)) (log rf)" if "out \<noteq> NoRequest"
    using sendHeartbeats_peer_spec [OF node_okD(1) [OF ok] st [OF that], of p hb] p node_okD(2) [OF ok] by simp
  show "append_ok n g i args" if o: "out = AppendRequest args"
  proof -
    let ?K = "leadLog g T"
    note L = lead [OF st]
    have ni: "lastIncludedIndex rf < nextIndex rf ! p" and a: "(aeTerm args, aeLeaderId args, aeLeaderCommit args) = hb"
      "aePrevLogIndex args = nextIndex rf ! p - 1" "logTerm rf (nextIndex rf ! p - 1) = Some (aePrevLogTerm args)"
      "aePrevLogIndex args + int (length (aeEntries args)) = lastLogIndex rf"
      "aeEntries args = drop (nat (nextIndex rf ! p - lastIncludedIndex rf)) (log rf)"
      using spec out o by (auto split: if_splits)
    define q where "q = nat (nextIndex rf ! p - 1)"
    have q: "aePrevLogIndex args = int q" "lastIncludedIndex rf \<le> int q" "int q = nextIndex rf ! p - 1"
      using ni a(2) rel by (auto simp: q_def node_rel_def)
    have len: "q \<le> length ?K" using a(4) q(1) node_last [OF rel] L o by simp
    have "aePrevLogTerm args = termAt ?K q" using node_logTerm [OF rel q(2)] len a(3) L o by (simp add: q(3) [symmetric])
    moreover have "aeEntries args = drop q ?K" using node_drop [OF rel ni] a(5) L o by (simp add: q_def)
    moreover obtain xs where xs: "settled n g (aeTerm args) xs" "aeLeaderCommit args = int (length xs)"
      "aeTerm args \<le> T" "aeLeaderCommit args \<le> commitIndex rf"
      using hb a(1) by (auto simp: round_ok_def T_def)
    moreover have "length xs \<le> length ?K" using xs(2,4) node_okD(11) [OF ok] L o by simp
    moreover have "between g T ?K" using lead_log(5) [OF inv, of T] L o by (simp add: between_def)
    ultimately show ?thesis using L o q(1) len unfolding append_ok_def by blast
  qed
  show "install_ok g i iargs \<and> isLastIncludedIndex iargs = lastIncludedIndex rf" if o: "out = SnapshotRequest iargs"
  proof -
    note L = lead [OF st]
    have i: "iargs = snapshotArgs rf" using spec out o by (auto split: if_splits)
    define m where "m = nat (lastIncludedIndex rf)"
    have m: "lastIncludedIndex rf = int m" "m \<le> leadCommit g T" "lastIncludedTerm rf = termAt (leadLog g T) m"
      using rel node_okD(12) [OF ok] L o by (auto simp: m_def node_rel_def)
    then show ?thesis using L o by (simp add: i install_ok_def snapshotArgs_def T_def)
  qed
qed



section \<open>Every step of the cluster is a step of the protocol\<close>

text \<open>Only an installation fills the slot for a snapshot, and never with a command.\<close>

definition pending_ok :: "('c, 'b) Raft \<Rightarrow> ('c, 'b) Raft \<Rightarrow> bool" where
  "pending_ok rf rf' \<longleftrightarrow> pendingSnapshot rf' = pendingSnapshot rf
     \<or> (\<forall>msg. pendingSnapshot rf' = Some msg \<longrightarrow> \<not> CommandValid msg)"

lemma pending_same: "pendingSnapshot rf' = pendingSnapshot rf \<Longrightarrow> pending_ok rf rf'"
  by (simp add: pending_ok_def)

lemma RequestVote_pending: "RequestVote now args rf = Some (reply, rf') \<Longrightarrow> pending_ok rf rf'"
  by (rule pending_same) (auto simp: RequestVote_def Let_def bind_Some_conv split: if_splits)

lemma startElection_pending: "startElection rf = Some (rf', reqs) \<Longrightarrow> pending_ok rf rf'"
  by (rule pending_same) (auto simp: startElection_def Let_def bind_Some_conv split: if_splits)

lemma onVoteReply_pending: "onVoteReply t reply v rf = (rf', v') \<Longrightarrow> pending_ok rf rf'"
  by (rule pending_same) (auto simp: onVoteReply_def becomeLeader_def split: if_splits)

lemma Start_pending: "Start c rf = (r, rf') \<Longrightarrow> pending_ok rf rf'"
  by (rule pending_same) (auto simp: Start_def Let_def split: if_splits)

lemma AppendEntries_pending: "AppendEntries now args rf = Some (reply, rf') \<Longrightarrow> pending_ok rf rf'"
  by (rule pending_same) (auto elim!: AppendEntries_cases)

lemma onAppendReply_pending: "onAppendReply p args reply rf = Some rf' \<Longrightarrow> pending_ok rf rf'"
  by (rule pending_same) (auto elim!: onAppendReply_frame)

lemma InstallSnapshot_pending: "InstallSnapshot now args rf = Some (reply, rf') \<Longrightarrow> pending_ok rf rf'"
  by (erule InstallSnapshot_cases) (simp_all add: pending_ok_def snapshotMsg_def)

lemma onSnapshotReply_pending: "onSnapshotReply p args reply rf = Some rf' \<Longrightarrow> pending_ok rf rf'"
  by (rule pending_same) (auto elim!: onSnapshotReply_frame)

lemma Snapshot_pending: "Snapshot index sn rf = Some rf' \<Longrightarrow> pending_ok rf rf'"
  by (rule pending_same) (auto simp: Snapshot_def bind_Some_conv split: if_splits)

lemma applyGap_pending: "applyGap rf = Some (m, rf') \<Longrightarrow> pending_ok rf rf'"
  by (rule pending_same) (auto dest: applyGap_frame)

lemma applyTop_pending: "applyTop rf = Some (m, rf') \<Longrightarrow> pending_ok rf rf'"
  using applyGap_pending [of rf m rf'] by (auto simp: applyTop_def pending_ok_def split: option.splits)

lemma refinesD:
  assumes "refines n g s"
  shows "pinv n g" "cluster_inv n s" "p < n \<Longrightarrow> node_ok n g p (nodes s p)" "votes_rel n g (nodes s) (voteCalls s)"
    "msgs_rel n g s" "\<forall>msg. pendingSnapshot (nodes s p) = Some msg \<longrightarrow> \<not> CommandValid msg"
  using assms unfolding refines_def by blast+

text \<open>
  One peer moves and the cluster's messages change: what remains to be shown of the messages and
  the votes.
\<close>

lemma refines_move:
  assumes ref: "refines n g s" and inv: "cluster_inv n s'" and mv: "ballot_moves n i g (nodes s i) g' rf"
    and nd: "nodes s' = (nodes s)(i := rf)" and pend: "pending_ok (nodes s i) rf"
    and votes: "votes_rel n g' (nodes s') (voteCalls s')"
    and msgs: "msgs_rel n g' (setNode i rf s) \<Longrightarrow> msgs_rel n g' s'"
  shows "refines n g' s'"
proof -
  note r = refinesD [OF ref]
  have pm: "pmove n i g g'" "node_ok n g' i rf" "later (nodes s i) rf" using mv by (simp_all add: ballot_moves_def)
  have gr: "pinv n g'" "grows g g'" using pmove_grows [OF pm(1) r(1)] by simp_all
  have "later (nodes s j) (((nodes s)(i := rf)) j)" for j using pm(3) by simp
  then have "msgs_rel n g' (setNode i rf s)" using msgs_rel_grows [OF r(1) gr(2) r(5)] by (simp add: setNode_def)
  then have "msgs_rel n g' s'" by (rule msgs)
  moreover have "\<forall>p<n. node_ok n g' p (nodes s' p)" unfolding nd using nodes_rel_move [OF _ r(1) pm(1,2)] r(3) by blast
  moreover have "\<not> CommandValid msg" if "pendingSnapshot (nodes s' p) = Some msg" for p msg
    using that r(6) pend by (auto simp: nd pending_ok_def split: if_splits)
  ultimately show ?thesis using gr(1) inv votes unfolding refines_def by blast
qed

lemma votes_rel_same:
  assumes "votes_rel n g nd calls" "grows g g'" "ballots g' = ballots g" "vote_kept (nd i) rf"
    "\<And>j t p. calls' j t p = calls j t p \<or> calls' j t p = giveUp (calls j t p)"
  shows "votes_rel n g' (nd(i := rf)) calls'"
proof -
  have "call_rel g j t (giveUp c)" if "call_rel g j t c" for j t c using that by (cases c) auto
  then have "call_rel g' j t (calls' j t p)" for j t p
    using assms(1) assms(5) [of j t p] call_rel_grows [OF assms(2)] by (auto simp: votes_rel_def)
  moreover have "supports calls p j t" if "supports calls' p j t" for p j t
  proof -
    have "isGrant (calls' j t p) \<Longrightarrow> isGrant (calls j t p)" using assms(5) [of j t p] giveUp_grant by auto
    moreover have "calls' j t q \<noteq> NotCalled \<Longrightarrow> calls j t q \<noteq> NotCalled" for q using assms(5) [of j t q] by auto
    then have "started calls' j t \<Longrightarrow> started calls j t" unfolding started_def by blast
    ultimately show ?thesis using that by (auto simp: supports_def)
  qed
  ultimately show ?thesis
    using assms(1,3) pledged_later [OF assms(4)] by (auto simp: votes_rel_def)
qed

lemma refines_moves:
  assumes ref: "refines n g s" and inv: "cluster_inv n s'" and mv: "moves n i g (nodes s i) g' rf"
    and nd: "nodes s' = (nodes s)(i := rf)" and pend: "pending_ok (nodes s i) rf" and vk: "vote_kept (nodes s i) rf"
    and calls: "\<And>j t p. voteCalls s' j t p = voteCalls s j t p \<or> voteCalls s' j t p = giveUp (voteCalls s j t p)"
    and msgs: "msgs_rel n g' (setNode i rf s) \<Longrightarrow> msgs_rel n g' s'"
  shows "\<exists>g'. (pstep n)\<^sup>=\<^sup>= g g' \<and> refines n g' s'"
proof -
  have bm: "ballot_moves n i g (nodes s i) g' rf" "ballots g' = ballots g" using mv by (simp_all add: moves_def)
  then have pm: "pmove n i g g'" by (simp add: ballot_moves_def)
  note gr = pmove_grows [OF pm refinesD(1) [OF ref]]
  have "votes_rel n g' (nodes s') (voteCalls s')"
    unfolding nd using votes_rel_same [OF refinesD(4) [OF ref] conjunct2 [OF gr] bm(2) vk calls] .
  from refines_move [OF ref inv bm(1) nd pend this msgs] pm show ?thesis unfolding pmove_def by blast
qed


lemma votes_rel_set:
  assumes "votes_rel n g nd calls" "grows g g'" "calls i t p \<noteq> NotCalled" "call_rel g' i t st"
    "isGrant st \<Longrightarrow> (p, i, t) \<in> ballots g'" "\<And>q j u. (q, j, u) \<in> ballots g' \<Longrightarrow> pledged (nd' q) u (int j)"
  shows "votes_rel n g' nd' (setCall i t p st calls)"
proof -
  have "started calls j u" if "started (setCall i t p st calls) j u" for j u
    using that assms(3) by (auto simp: started_def setCall_def split: if_splits)
  then have "(q, j, u) \<in> ballots g'" if "supports (setCall i t p st calls) q j u" for q j u
    using that assms(1,5) growsD(6) [OF assms(2)] by (auto simp: supports_def setCall_def votes_rel_def split: if_splits)
  moreover have "call_rel g' j u (setCall i t p st calls j u q)" for j u q
    using assms(1,4) call_rel_grows [OF assms(2)] by (auto simp: setCall_def votes_rel_def)
  ultimately show ?thesis using assms(6) by (simp add: votes_rel_def)
qed

lemma moves_refl: "node_ok n g i rf \<Longrightarrow> moves n i g rf g rf"
  by (simp add: moves_def ballot_moves_def)

lemma moves_some: "\<exists>t. dterm g i \<le> t \<and> moves n i g rf (g\<lparr>dterm := (dterm g)(i := t)\<rparr>) rf' \<Longrightarrow> \<exists>g'. moves n i g rf g' rf'"
  by blast

text \<open>The messages of a state with a moved peer, when only calls and counts of elections differ.\<close>

lemma msgs_rel_setNode [simp]:
  "msgs_rel n g (setNode i rf (s\<lparr>voteCalls := c\<rparr>)) = msgs_rel n g (setNode i rf s)"
  "msgs_rel n g (setNode i rf (s\<lparr>voteCalls := c, voteCount := d\<rparr>)) = msgs_rel n g (setNode i rf s)"
  "msgs_rel n g (s\<lparr>voteCalls := c\<rparr>) = msgs_rel n g s"
  by (rule msgs_rel_cong; simp add: setNode_def)+

lemma refines_timeout:
  assumes ref: "refines n g s" and i: "i < n" and el: "startElection (nodes s i) = Some (rf, reqs)"
    and inv: "cluster_inv n s'" and s': "s' = setNode i rf (s\<lparr>voteCalls := openCalls i (currentTerm rf) reqs (voteCalls s), voteCount := cnt\<rparr>)"
  shows "\<exists>g'. (pstep n)\<^sup>=\<^sup>= g g' \<and> refines n g' s'"
proof -
  define T where "T = currentTerm (nodes s i) + 1"
  define g' where "g' = g\<lparr>dterm := (dterm g)(i := T), cand := (cand g)(i := (cand g i)(T := Some (flog g i))),
      ballots := insert (i, i, T) (ballots g)\<rparr>"
  note r = refinesD [OF ref]
  note f = startElection_fields [OF el]
  note mv = election_moves [OF r(1) r(3) [OF i] el, folded T_def, folded g'_def]
  have pm: "pmove n i g g'" using mv(1) by (simp add: ballot_moves_def)
  have gr: "grows g g'" using pmove_grows [OF pm r(1)] by simp
  have T: "currentTerm rf = T" using f(4) by (simp add: T_def)
  have vk: "vote_kept (nodes s i) rf" using el by (rule startElection_vote_kept)
  have "votes_rel n g' (nodes s') (voteCalls s')"
    unfolding votes_rel_def
  proof (intro conjI allI impI)
    fix j t p
    have old: "call_rel g' j t (voteCalls s j t p)" using r(4) call_rel_grows [OF gr] by (simp add: votes_rel_def)
    show "call_rel g' j t (voteCalls s' j t p)"
      using old mv(2) by (auto simp: s' openCalls_def T split: option.splits dest: map_of_SomeD)
  next
    fix p j t assume sup: "supports (voteCalls s') p j t"
    show "(p, j, t) \<in> ballots g'"
    proof (cases "j = i \<and> t = T")
      case True
      have "isGrant (voteCalls s' i T p) \<Longrightarrow> isGrant (voteCalls s i T p)"
        by (auto simp: s' openCalls_def T split: option.splits)
      with sup True r(4) show ?thesis by (auto simp: supports_def votes_rel_def g'_def)
    next
      case False
      then have "voteCalls s' j t = voteCalls s j t" by (auto simp: s' openCalls_def T)
      then have "supports (voteCalls s) p j t" using sup by (simp add: supports_def started_def)
      then show ?thesis using r(4) by (simp add: votes_rel_def g'_def)
    qed
  next
    fix p j t assume b: "(p, j, t) \<in> ballots g'"
    show "pledged (nodes s' p) t (int j)"
    proof (cases "(p, j, t) \<in> ballots g")
      case True
      then have "pledged (nodes s p) t (int j)" using r(4) by (simp add: votes_rel_def)
      then show ?thesis using pledged_later [OF vk] by (cases "p = i") (simp_all add: s')
    next
      case False
      with b have "p = i" "j = i" "t = T" by (auto simp: g'_def)
      then show ?thesis using f(4,5,6) node_okD(3) [OF r(3) [OF i]] T
        by (simp add: s' pledged_def backs_def volatileImage_def)
    qed
  qed
  moreover have "nodes s' = (nodes s)(i := rf)" by (simp add: s')
  ultimately have "refines n g' s'"
    using refines_move [OF ref inv mv(1) _ startElection_pending [OF el]] by (simp add: s')
  with pm show ?thesis unfolding pmove_def by blast
qed

lemma refines_vote:
  assumes ref: "refines n g s" and c: "voteCalls s i t p = Calling args" "p < n" and rv: "RequestVote now args (nodes s p) = Some (reply, rf)"
    and inv: "cluster_inv n s'" and s': "s' = setNode p rf (s\<lparr>voteCalls := setCall i t p (Replied args reply) (voteCalls s)\<rparr>)"
  shows "\<exists>g'. (pstep n)\<^sup>=\<^sup>= g g' \<and> refines n g' s'"
proof -
  note r = refinesD [OF ref]
  have "call_ok n i t p (voteCalls s i t p)" "call_rel g i t (voteCalls s i t p)"
    using r(2,4) by (simp_all add: cluster_inv_def vote_inv_def calls_ok_def votes_rel_def)
  then have ok: "rvTerm args = t" "rvCandidateId args = int i" and offer: "offer_ok g i t args" using c(1) by simp_all
  have pl: "\<And>q j u. (q, j, u) \<in> ballots g \<Longrightarrow> pledged (nodes s q) u (int j)" using r(4) by (simp add: votes_rel_def)
  note vk = RequestVote_vote_kept [OF rv]
  have keep: "pledged (nodes s' q) u (int j)" if "(q, j, u) \<in> ballots g" for q j u
    using pl [OF that] pledged_later [OF vk] by (cases "q = p") (simp_all add: s')
  have nd: "nodes s' = (nodes s)(p := rf)" by (simp add: s')
  obtain g' where mv: "ballot_moves n p g (nodes s p) g' rf"
    and bal: "rvrVoteGranted reply \<Longrightarrow> (p, i, t) \<in> ballots g'"
      "\<And>q j u. (q, j, u) \<in> ballots g' \<Longrightarrow> (q, j, u) \<in> ballots g \<or> rvrVoteGranted reply \<and> (q, j, u) = (p, i, t)"
  proof (cases "rvrVoteGranted reply")
    case True
    from vote_moves [OF r(1) r(3) [OF c(2)] offer [folded ok(1)] rv True ok(2)] pl True ok(1)
    show ?thesis by (intro that) auto
  next
    case False
    with RequestVote_moves [OF r(3) [OF c(2)] rv] show ?thesis by (auto simp: moves_def intro: that)
  qed
  then have pm: "pmove n p g g'" by (simp add: ballot_moves_def)
  have gr: "grows g g'" using pmove_grows [OF pm r(1)] by simp
  have "votes_rel n g' (nodes s') (voteCalls s')"
  proof -
    have pl': "pledged (nodes s' q) u (int j)" if "(q, j, u) \<in> ballots g'" for q j u
    proof (cases "(q, j, u) \<in> ballots g")
      case False
      with bal(2) [OF that] RequestVote_pledged(1) [OF rv] ok show ?thesis by (simp add: s')
    qed (rule keep)
    have calls: "voteCalls s' = setCall i t p (Replied args reply) (voteCalls s)" by (simp add: s')
    show ?thesis unfolding calls by (rule votes_rel_set [OF r(4) gr _ _ _ pl']) (use c(1) bal(1) in simp_all)
  qed
  then have "refines n g' s'"
    using refines_move [OF ref inv mv nd RequestVote_pending [OF rv]] by (simp add: s')
  with pm show ?thesis unfolding pmove_def by blast
qed


lemma onVoteReply_result:
  assumes "onVoteReply t reply v rf = (rf', v')"
  obtains "rf' = rf" | "currentTerm rf < rvrTerm reply" "rf' = stepDown (rvrTerm reply) rf"
  | "state rf = candidate" "currentTerm rf = t" "rf' = becomeLeader rf"
proof -
  have "rf' = rf \<or> currentTerm rf < rvrTerm reply \<and> rf' = stepDown (rvrTerm reply) rf
    \<or> state rf = candidate \<and> currentTerm rf = t \<and> rf' = becomeLeader rf"
    using assms by (auto simp: onVoteReply_def split: if_splits)
  then show ?thesis using that by blast
qed

lemma refines_voteReply:
  assumes ref: "refines n g s" and c: "voteCalls s i t p = Replied args reply" "i < n"
    and on: "onVoteReply t reply (voteCount s i t) (nodes s i) = (rf, v)"
    and inv: "cluster_inv n s'" and s': "s' = setNode i rf (s\<lparr>voteCalls := setCall i t p (Handled args reply) (voteCalls s), voteCount := cnt\<rparr>)"
  shows "\<exists>g'. (pstep n)\<^sup>=\<^sup>= g g' \<and> refines n g' s'"
proof -
  note r = refinesD [OF ref]
  note ok = r(3) [OF c(2)]
  note vk = onVoteReply_vote_kept [OF on]
  have nd: "nodes s' = (nodes s)(i := rf)" by (simp add: s')
  have grant: "rvrVoteGranted reply \<Longrightarrow> (p, i, t) \<in> ballots g"
    using r(4) c(1) by (auto simp: votes_rel_def supports_def dest!: spec [of _ p] spec [of _ i] spec [of _ t])
  have votes: "votes_rel n g (nodes s) (setCall i t p (Handled args reply) (voteCalls s))"
    using c(1) grant r(4) by (intro votes_rel_set [OF r(4) grows_refl]) (auto simp: votes_rel_def)
  from on obtain g' where mv: "moves n i g (nodes s i) g' rf"
  proof (cases rule: onVoteReply_result)
    case 1
    with moves_refl [OF ok] that show ?thesis by simp
  next
    case 2
    with stepDown_moves [OF ok, of "rvrTerm reply"] that show ?thesis by blast
  next
    case 3
    have "elected n (voteCalls s') i t"
      using leader_elected [OF inv c(2)] 3 by (simp add: s')
    then have Q: "majority n (insert i (voters (voteCalls s') i t))" and st: "started (voteCalls s') i t"
      by (simp_all add: elected_def)
    have "isGrant d" if "isCounted d" for d using that by (cases d) auto
    then have "supports (voteCalls s') k i t" if "k \<in> insert i (voters (voteCalls s') i t)" for k
      using that st by (auto simp: supports_def voters_def)
    then have "\<forall>k\<in>insert i (voters (voteCalls s') i t). (k, i, currentTerm (nodes s i)) \<in> ballots g"
      using votes 3(2) by (simp add: votes_rel_def s')
    with win_moves [OF r(1) ok 3(1) Q] 3(3) that show ?thesis by blast
  qed
  then have bm: "ballot_moves n i g (nodes s i) g' rf" "ballots g' = ballots g" and pm: "pmove n i g g'"
    by (simp_all add: moves_def ballot_moves_def)
  note gr = pmove_grows [OF pm r(1)]
  have "votes_rel n g' ((nodes s)(i := rf)) (setCall i t p (Handled args reply) (voteCalls s))"
    using votes_rel_same [OF votes conjunct2 [OF gr] bm(2) vk] by blast
  then have "refines n g' s'" using refines_move [OF ref inv bm(1) nd onVoteReply_pending [OF on]] by (simp add: s')
  with pm show ?thesis unfolding pmove_def by blast
qed

lemma refines_voteLate:
  assumes ref: "refines n g s" and c: "voteCalls s i t p = Abandoned args" "p < n" and rv: "RequestVote now args (nodes s p) = Some (reply, rf)"
    and inv: "cluster_inv n s'" and s': "s' = setNode p rf (s\<lparr>voteCalls := setCall i t p Failed (voteCalls s)\<rparr>)"
  shows "\<exists>g'. (pstep n)\<^sup>=\<^sup>= g g' \<and> refines n g' s'"
proof -
  note r = refinesD [OF ref]
  obtain g' where mv: "moves n p g (nodes s p) g' rf" using RequestVote_moves [OF r(3) [OF c(2)] rv] by blast
  have bm: "ballot_moves n p g (nodes s p) g' rf" "ballots g' = ballots g" and pm: "pmove n p g g'"
    using mv by (simp_all add: moves_def ballot_moves_def)
  note gr = pmove_grows [OF pm r(1)]
  have nd: "nodes s' = (nodes s)(p := rf)" by (simp add: s')
  have "votes_rel n g (nodes s) (setCall i t p Failed (voteCalls s))"
    using c(1) r(4) by (intro votes_rel_set [OF r(4) grows_refl]) (auto simp: votes_rel_def)
  from votes_rel_same [OF this conjunct2 [OF gr] bm(2) RequestVote_vote_kept [OF rv]]
  have "votes_rel n g' ((nodes s)(p := rf)) (setCall i t p Failed (voteCalls s))" by blast
  then have "refines n g' s'" using refines_move [OF ref inv bm(1) nd RequestVote_pending [OF rv]] by (simp add: s')
  with pm show ?thesis unfolding pmove_def by blast
qed

text \<open>A change of messages alone.\<close>

lemma refines_quiet:
  assumes "refines n g s" "cluster_inv n s'" "nodes s' = nodes s"
    "\<And>j t p. voteCalls s' j t p = voteCalls s j t p \<or> voteCalls s' j t p = giveUp (voteCalls s j t p)" "msgs_rel n g s'"
  shows "\<exists>g'. (pstep n)\<^sup>=\<^sup>= g g' \<and> refines n g' s'"
proof -
  have "votes_rel n g ((nodes s)(0 := nodes s 0)) (voteCalls s')"
    by (rule votes_rel_same [OF refinesD(4) [OF assms(1)]]) (use assms(4) in auto)
  then have "refines n g s'" using assms by (simp add: refines_def)
  then show ?thesis by blast
qed

lemma refines_restart:
  assumes ref: "refines n g s" and i: "i < n" and inv: "cluster_inv n s'"
    and s': "s' = setNode i (Make (peers (nodes s i)) (int i) (persister (nodes s i)) now) (forget i s)"
  shows "refines n g s'"
proof -
  let ?rf = "Make (peers (nodes s i)) (int i) (persister (nodes s i)) now"
  note r = refinesD [OF ref]
  note mk = Make_node_ok [OF r(1) r(3) [OF i] i, of now]
  have nd: "nodes s' = (nodes s)(i := ?rf)" by (simp add: s')
  have msgs: "msgs_rel n g s'"
    using r(5) mk(2) unfolding msgs_rel_def by (auto simp: s' setNode_def forget_def)
  have drop: "voteCalls s' j t p = voteCalls s j t p \<or> voteCalls s' j t p = giveUp (voteCalls s j t p)" for j t p
    by (simp add: s' dropCalls_def)
  have "votes_rel n g ((nodes s)(0 := nodes s 0)) (voteCalls s')"
    by (rule votes_rel_same [OF r(4)]) (use drop in auto)
  then have "votes_rel n g (nodes s') (voteCalls s')"
    using pledged_Make [of "nodes s i"] by (auto simp: votes_rel_def nd)
  with r mk(1) msgs inv show ?thesis by (auto simp: refines_def nd)
qed


lemma msgs_relD:
  assumes "msgs_rel n g s"
  shows "(i, hb) \<in> hbRounds s \<Longrightarrow> round_ok n g (nodes s i) hb" "(i, p, args) \<in> appendCalls s \<Longrightarrow> append_ok n g i args"
    "(i, p, args, reply) \<in> appendReplies s \<Longrightarrow> p < n \<and> append_reply_ok g i p args reply"
    "(i, p, iargs) \<in> installCalls s \<Longrightarrow> install_ok g i iargs \<and> isLastIncludedIndex iargs \<le> lastIncludedIndex (nodes s i)"
    "(i, p, iargs, ireply) \<in> installReplies s \<Longrightarrow> p < n \<and> isLastIncludedIndex iargs \<le> lastIncludedIndex (nodes s i)"
    "msg \<in> set (delivered s i) \<Longrightarrow> delivery_ok n g msg"
  using assms unfolding msgs_rel_def by fast+

lemma msgs_rel_send:
  assumes "msgs_rel n g s" "\<And>args. out = AppendRequest args \<Longrightarrow> append_ok n g i args"
    "\<And>iargs. out = SnapshotRequest iargs \<Longrightarrow> install_ok g i iargs \<and> isLastIncludedIndex iargs = lastIncludedIndex (nodes s i)"
  shows "msgs_rel n g (send i p out s)"
  using assms by (cases out) (auto simp: send_def msgs_rel_def)

lemma msgs_rel_handOver:
  assumes "msgs_rel n g s" "\<And>msg. m = Some msg \<Longrightarrow> delivery_ok n g msg"
  shows "msgs_rel n g (handOver i m s)"
  using assms by (cases m) (auto simp: handOver_def msgs_rel_def)

lemma refines_delivers:
  assumes ref: "refines n g s" and inv: "cluster_inv n s'" and mv: "moves n i g (nodes s i) g' rf"
    and del: "\<And>msg. m = Some msg \<Longrightarrow> delivery_ok n g msg"
    and s': "s' = handOver i m (setNode i rf s)" and keep: "pending_ok (nodes s i) rf" "vote_kept (nodes s i) rf"
  shows "\<exists>g'. (pstep n)\<^sup>=\<^sup>= g g' \<and> refines n g' s'"
proof -
  have gr: "grows g g'" using mv pmove_grows refinesD(1) [OF ref] by (auto simp: moves_def ballot_moves_def)
  show ?thesis by (rule refines_moves [OF ref inv mv _ keep])
    (use del delivery_ok_grows [OF gr] in \<open>auto simp: s' intro!: msgs_rel_handOver\<close>)
qed

lemma refines_electionTimeout:
  assumes ref: "refines n g s" and inv: "cluster_inv n s'" and i: "i < n" and el: "electionTimeout now d (nodes s i) = Some (rf, reqs)"
    and s': "s' = setNode i rf (s\<lparr>voteCalls := openCalls i (currentTerm rf) reqs (voteCalls s), voteCount := cnt\<rparr>)"
  shows "\<exists>g'. (pstep n)\<^sup>=\<^sup>= g g' \<and> refines n g' s'"
  using el
proof (cases rule: electionTimeout_cases)
  case 1
  with s' refinesD(5) [OF ref] show ?thesis
    by (intro refines_quiet [OF ref inv]) (auto simp: setNode_def fun_upd_idem msgs_rel_def)
next
  case 2
  show ?thesis by (rule refines_timeout [OF ref i 2(2) inv s'])
qed

lemma refines_install:
  assumes ref: "refines n g s" and inv: "cluster_inv n s'" and call: "(i, p, args) \<in> installCalls s" "p < n"
    and ins: "InstallSnapshot now args (nodes s p) = Some (ireply, rf)"
    and s': "s' = setNode p rf (s\<lparr>installReplies := insert (i, p, args, ireply) (installReplies s)\<rparr>)"
  shows "\<exists>g'. (pstep n)\<^sup>=\<^sup>= g g' \<and> refines n g' s'"
proof -
  note r = refinesD [OF ref] and m = msgs_relD [OF refinesD(5) [OF ref]]
  obtain g' where mv: "moves n p g (nodes s p) g' rf"
    using InstallSnapshot_moves [OF r(1) r(3) [OF call(2)]] m(4) call(1) ins by blast
  have "isLastIncludedIndex args \<le> lastIncludedIndex (nodes s i)" using m(4) call(1) by blast
  moreover have "lastIncludedIndex (nodes s p) \<le> lastIncludedIndex rf" using mv by (simp add: moves_def ballot_moves_def later_def)
  ultimately have "isLastIncludedIndex args \<le> lastIncludedIndex (((nodes s)(p := rf)) i)" by auto
  then show ?thesis by (intro refines_moves [OF ref inv mv])
    (use ins call(2) s' in \<open>auto simp: InstallSnapshot_pending InstallSnapshot_vote_kept msgs_rel_def setNode_def\<close>)
qed

text \<open>
  The simulation: a step of the cluster is at most one step of the protocol.
\<close>

lemma step_refines:
  assumes st: "step n s s'" and ref: "refines n g s"
  shows "\<exists>g'. (pstep n)\<^sup>=\<^sup>= g g' \<and> refines n g' s'"
proof -
  note r = refinesD [OF ref]
  note m = msgs_relD [OF r(5)]
  have inv: "cluster_inv n s'" using step_inv [OF st r(2)] .
  from st inv show ?thesis
  proof (cases rule: step.cases)
    case (timeout i now d rf reqs)
    then show ?thesis using refines_electionTimeout [OF ref inv] by blast
  next
    case (vote i t p args now reply rf)
    then show ?thesis using refines_vote [OF ref _ _ _ inv] by blast
  next
    case (voteReply i t p args reply rf v)
    then show ?thesis using refines_voteReply [OF ref _ _ _ inv] by blast
  next
    case (voteLost i t p)
    then show ?thesis
      by (intro refines_quiet [OF ref inv]) (auto simp: setCall_def r(5))
  next
    case (voteLate i t p args now reply rf)
    then show ?thesis using refines_voteLate [OF ref _ _ _ inv] by blast
  next
    case (command i c r' rf)
    then obtain g' where "moves n i g (nodes s i) g' rf" using Start_moves [OF r(1) r(3)] by blast
    then show ?thesis by (rule refines_moves [OF ref inv])
      (use command in \<open>auto simp: Start_pending Start_vote_kept\<close>)
  next
    case (heartbeat i)
    then show ?thesis using heartbeat_round [OF r(3), of i] r(5)
      by (intro refines_quiet [OF ref inv]) (auto simp: msgs_rel_def)
  next
    case (heartbeatPeer i hb p out)
    note sent = sent_ok [OF r(1) r(3) [OF heartbeatPeer(3)] m(1) [OF heartbeatPeer(2)] heartbeatPeer(4,6)]
    show ?thesis
      by (rule refines_quiet [OF ref inv]) (use heartbeatPeer sent r(5) in \<open>auto intro: msgs_rel_send\<close>)
  next
    case (append i p args now reply rf)
    then obtain g' where mv: "moves n p g (nodes s p) g' rf" and rep: "append_reply_ok g' i p args reply"
      using AppendEntries_moves [OF r(1) r(3) m(2)] by blast
    from mv show ?thesis by (rule refines_moves [OF ref inv])
      (use append rep in \<open>auto simp: AppendEntries_pending AppendEntries_vote_kept msgs_rel_def setNode_def\<close>)
  next
    case (appendReply i p args reply rf)
    then obtain g' where "moves n i g (nodes s i) g' rf"
      using onAppendReply_moves [OF r(1) r(3)] m(3) by blast
    then show ?thesis by (rule refines_moves [OF ref inv])
      (use appendReply in \<open>auto simp: onAppendReply_pending onAppendReply_vote_kept\<close>)
  next
    case (install i p args now ireply rf)
    then show ?thesis using refines_install [OF ref inv] by blast
  next
    case (installReply i p args ireply rf)
    then obtain g' where "moves n i g (nodes s i) g' rf"
      using onSnapshotReply_moves [OF r(1) r(3)] m(5) by blast
    then show ?thesis by (rule refines_moves [OF ref inv])
      (use installReply in \<open>auto simp: onSnapshotReply_pending onSnapshotReply_vote_kept\<close>)
  next
    case (applyOuter i mm rf)
    note ap = applyTop_moves [OF r(3) [OF applyOuter(2)] applyOuter(4) r(6)]
    from ap(1) obtain g' where mv: "moves n i g (nodes s i) g' rf" by blast
    show ?thesis by (rule refines_delivers [OF ref inv mv ap(2) applyOuter(1)])
      (use applyOuter in \<open>simp_all add: applyTop_pending applyTop_vote_kept\<close>)
  next
    case (applyInner i mm rf)
    note ap = applyGap_moves [OF r(3) [OF applyInner(2)] applyInner(4)]
    from ap(1) obtain g' where mv: "moves n i g (nodes s i) g' rf" by blast
    show ?thesis by (rule refines_delivers [OF ref inv mv ap(2) applyInner(1)])
      (use applyInner in \<open>simp_all add: applyGap_pending applyGap_vote_kept\<close>)
  next
    case (compact i index sn rf)
    then obtain g' where "moves n i g (nodes s i) g' rf" using Snapshot_moves [OF r(3)] by blast
    then show ?thesis by (rule refines_moves [OF ref inv])
      (use compact in \<open>auto simp: Snapshot_pending Snapshot_vote_kept\<close>)
  next
    case (restart i now)
    then show ?thesis using refines_restart [OF ref restart(2) inv] by blast
  qed
qed

lemma boot_refines: "refines (length ps) proto_init (boot ps)"
proof -
  let ?n = "length ps"
  have node: "node_ok ?n proto_init p (Make ps (int p) MakePersister 0 :: ('a, 'b) Raft)" if "p < ?n" for p
    using that by (simp add: node_ok_def wf_raft_def Make_def readPersist_def node_rel_def termAt_def proto_init_def durable_def
        decodeState_def settled_def lastLogIndex_def)
  have "votes_rel ?n proto_init (nodes (boot ps)) (voteCalls (boot ps))"
    by (simp add: votes_rel_def boot_def supports_def started_def proto_init_def)
  with node show ?thesis
    using cluster_inv_boot [of ps] by (simp add: refines_def pinv_init msgs_rel_def) (simp add: boot_def)
qed

lemma steps_refines: "(step n)\<^sup>*\<^sup>* s s' \<Longrightarrow> refines n g s \<Longrightarrow> \<exists>g'. grows g g' \<and> refines n g' s'"
proof (induction rule: rtranclp_induct)
  case base
  then show ?case using grows_refl by blast
next
  case (step s' s'')
  then obtain g' where g': "grows g g'" "refines n g' s'" by blast
  then obtain g'' where "(pstep n)\<^sup>=\<^sup>= g' g''" "refines n g'' s''" using step_refines [OF step(2)] by blast
  moreover from this have "grows g' g''" using pstep_pinv refinesD(1) [OF g'(2)] by auto
  ultimately show ?case using grows_trans [OF g'(1)] by blast
qed

lemma reachable_refines: "reachable ps s \<Longrightarrow> \<exists>g. refines (length ps) g s"
proof (induction rule: reachable.induct)
  case booted
  then show ?case using boot_refines by blast
next
  case (stepped s s')
  then show ?case using step_refines by blast
qed

end
