(* ===== verification/Raft_Guarantees.thy ===== *)
theory Raft_Guarantees
  imports Raft_Refine
begin

text \<open>
  What every run of the cluster keeps to, derived from the refinement of \<open>Raft_Refine\<close>: the service
  of no two peers is ever given different commands for one index; entries with the same index and
  term are the same; a committed entry is in the log of every later leader and never replaced; no
  critical section panics; and what a peer acknowledges it has.
\<close>

section \<open>Two moments of a run\<close>

lemma two_moments:
  assumes "reachable ps s" "(step (length ps))\<^sup>*\<^sup>* s s'"
  shows "\<exists>g g'. refines (length ps) g s \<and> grows g g' \<and> refines (length ps) g' s'"
  using reachable_refines [OF assms(1)] steps_refines [OF assms(2)] by blast

text \<open>An entry a peer holds is the one of its whole log, and a committed one is settled.\<close>

lemma held_entry:
  assumes "node_ok n g i rf" "entryAt rf k = Some e"
  shows "0 < k" "nat k \<le> length (flog g i)" "flog g i ! (nat k - 1) = e" "e \<in> set (flog g i)"
proof -
  note rel = node_okD(4) [OF assms(1)]
  have r: "lastIncludedIndex rf < k" "k \<le> int (length (flog g i))"
    using entryAt_range [OF assms(2)] node_last [OF rel] by simp_all
  show pos: "0 < k" using r(1) rel by (simp add: node_rel_def)
  show le: "nat k \<le> length (flog g i)" using r by simp
  show at: "flog g i ! (nat k - 1) = e"
    using node_entry(3) [OF rel r] assms(2) pos by (simp add: nat_diff_distrib)
  have "nat k - 1 < length (flog g i)" using pos le by (cases "nat k") auto
  with at show "e \<in> set (flog g i)" using nth_mem by blast
qed

lemma committed_entry:
  assumes "node_ok n g i rf" "entryAt rf k = Some e" "k \<le> commitIndex rf"
  shows "settled n g (dterm g i) (take (nat k) (flog g i))"
proof -
  have "take (nat k) (flog g i) = take (nat k) (take (nat (commitIndex rf)) (flog g i))"
    using assms(3) by (simp add: min_def nat_mono)
  with settled_take [OF node_okD(6) [OF assms(1)], of "nat k"] show ?thesis by simp
qed


lemma deliveries_agree:
  assumes "reachable ps s" and "(step (length ps))\<^sup>*\<^sup>* s s'"
    and "msg \<in> set (delivered s i)" and "msg' \<in> set (delivered s' j)"
    and "CommandValid msg" and "CommandValid msg'" and "CommandIndex msg = CommandIndex msg'"
  shows "amCommand msg = amCommand msg'"
proof -
  obtain g g' where r: "refines (length ps) g s" "grows g g'" "refines (length ps) g' s'"
    using two_moments [OF assms(1,2)] by blast
  have "delivery_ok (length ps) g' msg" "delivery_ok (length ps) g' msg'"
    using delivery_ok_grows [OF r(2) msgs_relD(6) [OF refinesD(5) [OF r(1)] assms(3)]]
      msgs_relD(6) [OF refinesD(5) [OF r(3)] assms(4)] by blast+
  then obtain D xs D' ys m where "settled (length ps) g' D xs" "settled (length ps) g' D' ys" "0 < m"
    "m \<le> length xs" "m \<le> length ys" "amCommand msg = eCommand (xs ! (m - 1))" "amCommand msg' = eCommand (ys ! (m - 1))"
    using assms(5-7) unfolding delivery_ok_def by auto
  moreover from this have "take m xs = take m ys" using settled_agree [OF refinesD(1) [OF r(3)]] by blast
  ultimately show ?thesis by (metis diff_less nth_take zero_less_one)
qed

text \<open>The end of the sample run.\<close>

lemma delivered_sample:
  obtains s :: "(nat, nat) cluster" and reply rf where "reachable threePeers s"
    "commandMsg (Some 7) 1 \<in> set (delivered s 0)" "commandMsg (Some 7) 1 \<in> set (delivered s 1)"
    "entryAt (nodes s 0) 1 = Some \<lparr>eTerm = 1, eCommand = Some 7\<rparr>" "entryAt (nodes s 1) 1 = Some \<lparr>eTerm = 1, eCommand = Some 7\<rparr>"
    "commitIndex (nodes s 0) = 1" "commitIndex (nodes s 1) = 1" "state (nodes s 0) = leader"
    "currentTerm (nodes s 0) = 1" "currentTerm (nodes s 1) = 1" "(0, 1, firstCall) \<in> appendCalls s"
    "AppendEntries 402 firstCall (nodes s 1) = Some (reply, rf)" "aerSuccess reply"
proof -
  have "map_option (\<lambda>s. (delivered s 0, delivered s 1, entryAt (nodes s 0) 1, entryAt (nodes s 1) 1,
        (commitIndex (nodes s 0), commitIndex (nodes s 1)), state (nodes s 0), (currentTerm (nodes s 0), currentTerm (nodes s 1)),
        (0, 1, firstCall) \<in> appendCalls s, map_option (aerSuccess \<circ> fst) (AppendEntries 402 firstCall (nodes s 1))))
      (run 3 deliverRun (boot threePeers))
    = Some ([commandMsg (Some 7) 1], [commandMsg (Some 7) 1], Some \<lparr>eTerm = 1, eCommand = Some 7\<rparr>,
        Some \<lparr>eTerm = 1, eCommand = Some 7\<rparr>, (1, 1), leader, (1, 1), True, Some True)"
    by code_simp
  from sample_run [OF this] that show ?thesis by (auto simp: comp_def)
qed


section \<open>Properties\<close>

text \<open>
  C1: State machine safety: two commands ever handed to the service for the same index, by the
  same peer or by two peers, at the same moment or at any two moments of a run, are the same
  command, whatever messages are lost, delayed, repeated or handled late, whichever peers restart
  from their persisters and whatever they compact in between.
\<close>

theorem state_machine_safety:
  assumes "reachable ps s" and "(step (length ps))\<^sup>*\<^sup>* s s'"
    and "msg \<in> set (delivered s i)" and "msg' \<in> set (delivered s' j)"
    and "CommandValid msg" and "CommandValid msg'" and "CommandIndex msg = CommandIndex msg'"
  shows "amCommand msg = amCommand msg'"
  using assms by (rule deliveries_agree)

theorem state_machine_safety_witness:
  "\<exists>(s :: (nat, nat) cluster) msg msg'. reachable threePeers s \<and> msg \<in> set (delivered s 0) \<and> msg' \<in> set (delivered s 1)
     \<and> CommandIndex msg = 1 \<and> CommandIndex msg' = 1 \<and> amCommand msg = Some 7 \<and> amCommand msg = amCommand msg'"
proof -
  obtain s :: "(nat, nat) cluster" where s: "reachable threePeers s" "commandMsg (Some 7) 1 \<in> set (delivered s 0)" "commandMsg (Some 7) 1 \<in> set (delivered s 1)"
    by (rule delivered_sample)
  from state_machine_safety [OF s(1) rtranclp.rtrancl_refl s(2,3)] s show ?thesis
    by (intro exI [of _ s] exI [of _ "commandMsg (Some 7) 1"]) (simp add: commandMsg_def)
qed

text \<open>
  C25: Two entries with the same index and the same term, held by any two peers at any two moments
  of a run, are the same entry.
\<close>

theorem same_term_same_entry:
  assumes "reachable ps s" and "(step (length ps))\<^sup>*\<^sup>* s s'" and "i < length ps" and "j < length ps"
    and "entryAt (nodes s i) k = Some e" and "entryAt (nodes s' j) k = Some e'" and "eTerm e = eTerm e'"
  shows "e = e'"
proof -
  obtain g g' where r: "refines (length ps) g s" "grows g g'" "refines (length ps) g' s'"
    using two_moments [OF assms(1,2)] by blast
  note e = held_entry [OF refinesD(3) [OF r(1) assms(3)] assms(5)]
    and e' = held_entry [OF refinesD(3) [OF r(3) assms(4)] assms(6)]
  have "genuine g' (flog g i)" "genuine g' (flog g' j)"
    using genuine_grows [OF r(2)] pinvD(6) [OF refinesD(1) [OF r(1)], of i] pinvD(6) [OF refinesD(1) [OF r(3)], of j]
    by (simp_all add: log_ok_def)
  from genuine_agree [OF this, of "nat k - 1"] show ?thesis using e e' assms(7) by (cases "nat k") auto
qed

theorem same_term_same_entry_witness:
  "\<exists>(s :: (nat, nat) cluster) e e'. reachable threePeers s \<and> entryAt (nodes s 0) 1 = Some e \<and> entryAt (nodes s 1) 1 = Some e'
     \<and> eTerm e = eTerm e' \<and> e = e'"
proof -
  obtain s :: "(nat, nat) cluster" where s: "reachable threePeers s" "entryAt (nodes s 0) 1 = Some \<lparr>eTerm = 1, eCommand = Some 7\<rparr>"
    "entryAt (nodes s 1) 1 = Some \<lparr>eTerm = 1, eCommand = Some 7\<rparr>" by (rule delivered_sample)
  have "length threePeers = 3" by (simp add: threePeers_def)
  with same_term_same_entry [OF s(1) rtranclp.rtrancl_refl _ _ s(2,3)] s show ?thesis by auto
qed

text \<open>
  C6: An entry a peer has committed is never replaced: whatever any peer has committed at that index
  at any later moment is the same entry.
\<close>

theorem committed_entries_agree:
  assumes "reachable ps s" and "(step (length ps))\<^sup>*\<^sup>* s s'" and "i < length ps" and "j < length ps"
    and "entryAt (nodes s i) k = Some e" and "k \<le> commitIndex (nodes s i)"
    and "entryAt (nodes s' j) k = Some e'" and "k \<le> commitIndex (nodes s' j)"
  shows "e = e'"
proof -
  obtain g g' where r: "refines (length ps) g s" "grows g g'" "refines (length ps) g' s'"
    using two_moments [OF assms(1,2)] by blast
  note ok = refinesD(3) [OF r(1) assms(3)] and ok' = refinesD(3) [OF r(3) assms(4)]
  note e = held_entry [OF ok assms(5)] and e' = held_entry [OF ok' assms(7)]
  have "take (nat k) (take (nat k) (flog g i)) = take (nat k) (take (nat k) (flog g' j))"
    using settled_agree [OF refinesD(1) [OF r(3)] settled_grows [OF r(2) committed_entry [OF ok assms(5,6)] order_refl]
      committed_entry [OF ok' assms(7,8)], of "nat k"] e(2) e'(2) by simp
  then have "flog g i ! (nat k - 1) = flog g' j ! (nat k - 1)"
    using e(1) by (metis diff_less nth_take take_take min.idem zero_less_nat_eq zero_less_one)
  with e(3) e'(3) show ?thesis by simp
qed

theorem committed_entries_agree_witness:
  "\<exists>(s :: (nat, nat) cluster) e e'. reachable threePeers s \<and> entryAt (nodes s 0) 1 = Some e \<and> 1 \<le> commitIndex (nodes s 0)
     \<and> entryAt (nodes s 1) 1 = Some e' \<and> 1 \<le> commitIndex (nodes s 1) \<and> e = e'"
proof -
  obtain s :: "(nat, nat) cluster" where s: "reachable threePeers s" "entryAt (nodes s 0) 1 = Some \<lparr>eTerm = 1, eCommand = Some 7\<rparr>"
    "entryAt (nodes s 1) 1 = Some \<lparr>eTerm = 1, eCommand = Some 7\<rparr>" "commitIndex (nodes s 0) = 1" "commitIndex (nodes s 1) = 1"
    by (rule delivered_sample)
  have "length threePeers = 3" by (simp add: threePeers_def)
  with committed_entries_agree [OF s(1) rtranclp.rtrancl_refl _ _ s(2) _ s(3)] s show ?thesis by auto
qed

text \<open>
  C5: Leader completeness: an entry a peer has committed is in the log of every later leader whose
  term is not older than the peer's, unless the leader has already compacted it.
\<close>

theorem leader_completeness:
  assumes "reachable ps s" and "(step (length ps))\<^sup>*\<^sup>* s s'" and "i < length ps" and "j < length ps"
    and "entryAt (nodes s i) k = Some e" and "k \<le> commitIndex (nodes s i)"
    and "state (nodes s' j) = leader" and "currentTerm (nodes s i) \<le> currentTerm (nodes s' j)"
  shows "entryAt (nodes s' j) k = Some e \<or> k \<le> lastIncludedIndex (nodes s' j)"
proof -
  obtain g g' where r: "refines (length ps) g s" "grows g g'" "refines (length ps) g' s'"
    using two_moments [OF assms(1,2)] by blast
  note ok = refinesD(3) [OF r(1) assms(3)] and ok' = refinesD(3) [OF r(3) assms(4)]
  note e = held_entry [OF ok assms(5)]
  have ld: "lead g' (currentTerm (nodes s' j)) \<noteq> None" "flog g' j = leadLog g' (currentTerm (nodes s' j))"
    using node_okD(8) [OF ok' assms(7)] by (simp_all add: leadsTerm_def)
  have "dterm g i \<le> currentTerm (nodes s' j)" using node_okD(5) [OF ok] assms(8) by simp
  from settled_leader [OF refinesD(1) [OF r(3)] settled_grows [OF r(2) committed_entry [OF ok assms(5,6)] order_refl] this ld(1)]
  have pre: "prefix (take (nat k) (flog g i)) (flog g' j)" by (simp add: ld(2))
  then have len: "nat k \<le> length (flog g' j)" using e(2) prefix_length_le by fastforce
  have "flog g' j ! (nat k - 1) = e" using prefix_nth_same [OF pre, of "nat k - 1"] e by simp
  moreover have "nat (k - 1) = nat k - 1" using e(1) by (simp add: nat_diff_distrib)
  ultimately show ?thesis
    using node_entry(3) [OF node_okD(4) [OF ok'], of k] len by (cases "k \<le> lastIncludedIndex (nodes s' j)") simp_all
qed

theorem leader_completeness_witness:
  "\<exists>(s :: (nat, nat) cluster) e. reachable threePeers s \<and> entryAt (nodes s 1) 1 = Some e \<and> 1 \<le> commitIndex (nodes s 1)
     \<and> state (nodes s 0) = leader \<and> (entryAt (nodes s 0) 1 = Some e \<or> 1 \<le> lastIncludedIndex (nodes s 0))"
proof -
  obtain s :: "(nat, nat) cluster" where s: "reachable threePeers s" "entryAt (nodes s 1) 1 = Some \<lparr>eTerm = 1, eCommand = Some 7\<rparr>"
    "commitIndex (nodes s 1) = 1" "state (nodes s 0) = leader" "currentTerm (nodes s 0) = 1" "currentTerm (nodes s 1) = 1"
    by (rule delivered_sample)
  have "length threePeers = 3" by (simp add: threePeers_def)
  with leader_completeness [OF s(1) rtranclp.rtrancl_refl, of 1 0 1] s show ?thesis by auto
qed


section \<open>No panic\<close>

text \<open>What peer \<open>p\<close> may have to handle next.\<close>

fun due :: "('c, 'b) cluster \<Rightarrow> nat \<Rightarrow> ('c, 'b) event \<Rightarrow> bool" where
  "due s p (EvRequestVote now args) = (\<exists>i t. voteCalls s i t p = Calling args \<or> voteCalls s i t p = Abandoned args)"
| "due s p (EvVoteReply t reply votes) = (\<exists>q args. voteCalls s p t q = Replied args reply \<and> votes = voteCount s p t)"
| "due s p (EvAppendEntries now args) = (\<exists>i. (i, p, args) \<in> appendCalls s)"
| "due s p (EvAppendReply q args reply) = ((p, q, args, reply) \<in> appendReplies s)"
| "due s p (EvInstallSnapshot now args) = (\<exists>i. (i, p, args) \<in> installCalls s)"
| "due s p (EvSnapshotReply q args reply) = ((p, q, args, reply) \<in> installReplies s)"
| "due s p (EvSnapshot index sn) = (index \<le> lastApplied (nodes s p))"
| "due s p ev = True"

lemma due_event_ok:
  assumes r: "refines n g s" and p: "p < n" and due: "due s p ev"
  shows "event_ok ev (nodes s p)"
proof -
  note ok = refinesD(3) [OF r p] and inv = refinesD(1) [OF r] and msgs = msgs_relD [OF refinesD(5) [OF r]]
  show ?thesis
  proof (cases ev)
    case (EvAppendEntries now args)
    with due obtain i where "(i, p, args) \<in> appendCalls s" by auto
    from append_event_ok [OF inv ok msgs(2) [OF this]] show ?thesis unfolding EvAppendEntries .
  next
    case (EvAppendReply q args reply)
    with due have "(p, q, args, reply) \<in> appendReplies s" by simp
    from msgs(3) [OF this] append_reply_event_ok [OF ok] show ?thesis unfolding EvAppendReply by blast
  next
    case (EvSnapshotReply q args reply)
    then have "q < n" "isLastIncludedIndex args \<le> lastIncludedIndex (nodes s p)" using due msgs(5) by auto
    with EvSnapshotReply node_okD(1,2) [OF ok] show ?thesis by (simp add: wf_raft_def)
  qed (use due in auto)
qed



text \<open>
  A peer that answers a request of a leader with success holds exactly the entries of the
  request from then on, at the positions the leader has them.
\<close>

theorem accepted_entries_are_held:
  assumes "reachable ps s" and "p < length ps" and "(i, p, args) \<in> appendCalls s"
    and "AppendEntries now args (nodes s p) = Some (reply, rf)" and "aerSuccess reply" and "k < length (aeEntries args)"
  shows "entryAt rf (aePrevLogIndex args + 1 + int k) = Some (aeEntries args ! k)"
proof -
  let ?rf = "nodes s p" and ?q = "aePrevLogIndex args"
  obtain g where r: "refines (length ps) g s" using reachable_refines [OF assms(1)] by blast
  note ok = refinesD(3) [OF r assms(2)] and inv = refinesD(1) [OF r]
  note rel = node_okD(4) [OF ok]
  obtain U K q where K: "between g U K" "?q = int q" "q \<le> length K" "aeEntries args = drop q K"
    using msgs_relD(2) [OF refinesD(5) [OF r] assms(3)] unfolding append_ok_def by blast
  have c: "currentTerm ?rf \<le> aeTerm args" "lastIncludedIndex ?rf \<le> ?q" "?q \<le> lastLogIndex ?rf"
    "logTerm ?rf ?q = Some (aePrevLogTerm args)"
    using assms(5) by (auto intro: AppendEntries_cases [OF assms(4)])
  define n where "n = nat (?q + 1 - lastIncludedIndex ?rf)"
  have old: "drop n (log ?rf) = drop q (flog g p)" using node_drop [OF rel, of "?q + 1"] c(2) by (simp add: n_def K(2))
  have gen: "genuine g (flog g p)" "genuine g K"
    using pinvD(6) [OF inv, of p] matched_genuine [OF between_log(1) [OF inv K(1)]] by (simp_all add: log_ok_def)
  have qL: "q \<le> length (flog g p)" using c(3) node_last [OF rel] K(2) by simp
  have "merge_log (drop q K) (drop q (flog g p)) = (if prefix (drop q K) (drop q (flog g p)) then drop q (flog g p) else drop q K)"
  proof (rule merge_accepted)
    fix j assume "j < length (drop q K)" "j < length (drop q (flog g p))" "eTerm (drop q (flog g p) ! j) = eTerm (drop q K ! j)"
    then show "drop q (flog g p) ! j = drop q K ! j" using genuine_agree [OF gen, of "q + j"] K(3) qL by simp
  qed
  moreover have "k < length (drop q K)" using assms(6) K(4) by simp
  ultimately have at: "merge_log (aeEntries args) (drop n (log ?rf)) ! k = aeEntries args ! k"
    unfolding K(4) old by (auto simp: prefix_nth_same)
  have lt: "k < length (merge_log (aeEntries args) (drop n (log ?rf)))"
    by (rule less_le_trans [OF assms(6) merge_log_length])
  have rf: "log rf = take n (log ?rf) @ merge_log (aeEntries args) (drop n (log ?rf))"
    "lastIncludedIndex rf = lastIncludedIndex ?rf"
    using AppendEntries_match_merge [OF c, of now] assms(4) by (simp_all add: n_def)
  have n: "n \<le> length (log ?rf)" "int n = ?q + 1 - lastIncludedIndex ?rf"
    using c(2,3) by (auto simp: n_def lastLogIndex_def)
  then have "nat (?q + 1 + int k - lastIncludedIndex rf) = n + k" "lastIncludedIndex rf < ?q + 1 + int k"
    using c(2) rf(2) by simp_all
  with at lt n(1) show ?thesis by (simp add: entryAt_nth rf(1) nth_append)
qed

theorem accepted_entries_are_held_witness:
  "\<exists>(s :: (nat, nat) cluster) reply rf. reachable threePeers s \<and> (0, 1, firstCall) \<in> appendCalls s
     \<and> AppendEntries 402 firstCall (nodes s 1) = Some (reply, rf) \<and> aerSuccess reply
     \<and> entryAt rf 1 = Some \<lparr>eTerm = 1, eCommand = Some 7\<rparr>"
proof -
  obtain s :: "(nat, nat) cluster" and reply rf where s: "reachable threePeers s" "(0, 1, firstCall) \<in> appendCalls s"
    "AppendEntries 402 firstCall (nodes s 1) = Some (reply, rf)" "aerSuccess reply" by (rule delivered_sample)
  from accepted_entries_are_held [OF s(1) _ s(2-4), of 0] s show ?thesis by (auto simp: threePeers_def firstCall_def)
qed


section \<open>The protocol behind the cluster\<close>

text \<open>
  C11: The cluster implements the protocol of \<open>Raft_Protocol\<close>: every state it can reach refines a
  state the protocol can reach, in which a peer's log is the part of its whole log beyond its last
  compaction, what it has committed is chosen by a majority, and every message in flight is one
  that a leader or candidate of the protocol could have sent.
\<close>

theorem cluster_refines_protocol:
  assumes "reachable ps s"
  shows "\<exists>g. (pstep (length ps))\<^sup>*\<^sup>* proto_init g \<and> refines (length ps) g s"
  using assms
proof (induction rule: reachable.induct)
  case booted
  then show ?case using boot_refines by blast
next
  case (stepped s s')
  then obtain g g' where "(pstep (length ps))\<^sup>*\<^sup>* proto_init g" "(pstep (length ps))\<^sup>=\<^sup>= g g'" "refines (length ps) g' s'"
    using step_refines by blast
  then show ?case by (auto intro: rtranclp.rtrancl_into_rtrancl)
qed

theorem cluster_refines_protocol_witness:
  "\<exists>(s :: (nat, nat) cluster) g. reachable threePeers s \<and> state (nodes s 0) = leader \<and> (pstep 3)\<^sup>*\<^sup>* proto_init g \<and> refines 3 g s"
proof -
  obtain s :: "(nat, nat) cluster" where s: "reachable threePeers s" "state (nodes s 0) = leader" by (rule delivered_sample)
  from cluster_refines_protocol [OF s(1)] s show ?thesis by (auto simp: threePeers_def)
qed


section \<open>Entries that survive a snapshot\<close>

definition staleCall :: "nat AppendEntriesArgs" where
  "staleCall = \<lparr>aeTerm = 2, aeLeaderId = 1, aePrevLogIndex = 0, aePrevLogTerm = 0,
     aeEntries = [\<lparr>eTerm = 2, eCommand = Some 7\<rparr>], aeLeaderCommit = 0\<rparr>"

definition staleInstall :: "nat InstallSnapshotArgs" where
  "staleInstall = \<lparr>isTerm = 2, isLeaderId = 1, isLastIncludedIndex = 1, isLastIncludedTerm = 2, isData = [9]\<rparr>"

definition staleRun :: "(nat, nat) act list" where
  "staleRun = electionRun @ [Command 0 5, Command 0 6, Timeout 1 800 300, Vote 1 2 2 801, VoteReply 1 2 2, Command 1 7,
     Heartbeat 1, HeartbeatPeer 1 (2, 1, 0) 2, Append 1 2 staleCall 802, AppendReply 1 2 staleCall (aeReply 2 True (- 1) 0),
     ApplyOuter 1, Compact 1 1 [9], Heartbeat 1, HeartbeatPeer 1 (2, 1, 1) 0, Install 1 0 staleInstall 803]"

text \<open>
  The log of a peer need not be ordered by term: a snapshot installed over a log that conflicts
  with it leaves the entries beyond the snapshot in place, here an uncommitted entry of term 1
  after a snapshot of term 2.
\<close>

theorem snapshot_leaves_stale_entries:
  "\<exists>s :: (nat, nat) cluster. reachable threePeers s \<and> lastIncludedIndex (nodes s 0) = 1 \<and> logTerm (nodes s 0) 1 = Some 2
     \<and> entryAt (nodes s 0) 2 = Some \<lparr>eTerm = 1, eCommand = Some 6\<rparr>"
proof -
  have "map_option (\<lambda>s. (lastIncludedIndex (nodes s 0), logTerm (nodes s 0) 1, entryAt (nodes s 0) 2))
      (run 3 staleRun (boot threePeers)) = Some (1, Some 2, Some \<lparr>eTerm = 1, eCommand = Some 6\<rparr>)"
    by code_simp
  from sample_run [OF this] show ?thesis by blast
qed

end
