(* ===== verification/Replication.thy ===== *)
theory Replication
  imports Raft_Guarantees Store
begin

text \<open>
  Raft and the store together, over whole runs of a cluster: as long as a node's service is given
  commands only, its store goes through the same states as every other such store, and where a
  snapshot is installed while the apply loop is running, it does not.
\<close>

section \<open>What the service is given\<close>

text \<open>A critical section other than those of the apply loop: a peer's position stays, unless it was
  given a snapshot that its service has still to see.\<close>

definition apply_kept :: "('c, 'b) Raft \<Rightarrow> ('c, 'b) Raft \<Rightarrow> bool" where
  "apply_kept rf rf' \<longleftrightarrow> lastApplied rf' = lastApplied rf \<and> pendingSnapshot rf' = pendingSnapshot rf
     \<or> (\<exists>msg. pendingSnapshot rf' = Some msg \<and> \<not> CommandValid msg)"

lemma RequestVote_apply: "RequestVote now args rf = Some (reply, rf') \<Longrightarrow> apply_kept rf rf'"
  by (auto simp: RequestVote_def Let_def bind_Some_conv apply_kept_def split: if_splits)

lemma electionTimeout_apply: "electionTimeout now d rf = Some (rf', reqs) \<Longrightarrow> apply_kept rf rf'"
  by (auto simp: electionTimeout_def startElection_def Let_def bind_Some_conv apply_kept_def split: if_splits)

lemma onVoteReply_apply: "onVoteReply t reply v rf = (rf', v') \<Longrightarrow> apply_kept rf rf'"
  by (auto simp: onVoteReply_def becomeLeader_def apply_kept_def split: if_splits)

lemma Start_apply: "Start c rf = (r, rf') \<Longrightarrow> apply_kept rf rf'"
  by (auto simp: Start_def Let_def apply_kept_def split: if_splits)

lemma AppendEntries_apply: "AppendEntries now args rf = Some (reply, rf') \<Longrightarrow> apply_kept rf rf'"
  by (erule AppendEntries_cases) (auto simp: apply_kept_def aeCommitted_def)

lemma onAppendReply_apply: "onAppendReply p args reply rf = Some rf' \<Longrightarrow> apply_kept rf rf'"
  by (erule onAppendReply_frame) (auto simp: apply_kept_def)

lemma InstallSnapshot_apply: "InstallSnapshot now args rf = Some (reply, rf') \<Longrightarrow> apply_kept rf rf'"
  by (erule InstallSnapshot_cases) (auto simp: apply_kept_def snapshotMsg_def)

lemma onSnapshotReply_apply: "onSnapshotReply p args reply rf = Some rf' \<Longrightarrow> apply_kept rf rf'"
  by (erule onSnapshotReply_frame) (auto simp: apply_kept_def)

lemma Snapshot_apply: "Snapshot index sn rf = Some rf' \<Longrightarrow> apply_kept rf rf'"
  by (auto simp: Snapshot_def bind_Some_conv apply_kept_def split: if_splits)

lemmas apply_kept_rules = RequestVote_apply electionTimeout_apply onVoteReply_apply Start_apply AppendEntries_apply
  onAppendReply_apply InstallSnapshot_apply onSnapshotReply_apply Snapshot_apply

text \<open>
  A peer whose service was given commands only, and has no snapshot to come, has given it every
  command from some position up to the last one applied.
\<close>

definition served :: "('c, 'b) Raft \<Rightarrow> ('c, 'b) ApplyMsg list \<Rightarrow> bool" where
  "served rf msgs \<longleftrightarrow> (\<forall>msg. pendingSnapshot rf = Some msg \<longrightarrow> \<not> CommandValid msg)
     \<and> (\<forall>msg\<in>set msgs. CommandValid msg \<longrightarrow> \<not> SnapshotValid msg)
     \<and> (pendingSnapshot rf = None \<longrightarrow> (\<forall>msg\<in>set msgs. CommandValid msg) \<longrightarrow>
          (\<exists>b \<le> lastApplied rf. map CommandIndex msgs = [b + 1..lastApplied rf]))"

lemma served_kept: "served rf msgs \<Longrightarrow> apply_kept rf rf' \<Longrightarrow> served rf' msgs"
  by (auto simp: served_def apply_kept_def)

lemma served_gap:
  assumes "served rf msgs" "wf_raft rf" "applyGap rf = Some (m, rf')"
  shows "served rf' (case m of None \<Rightarrow> msgs | Some msg \<Rightarrow> msgs @ [msg])"
proof (cases "lastApplied rf < commitIndex rf")
  case True
  then obtain c where m: "m = Some (commandMsg c (lastApplied rf + 1))" "rf' = rf\<lparr>lastApplied := lastApplied rf + 1\<rparr>"
    using applyGap_spec [OF assms(2)] assms(3) by auto
  have "\<exists>b \<le> lastApplied rf + 1. map CommandIndex msgs @ [lastApplied rf + 1] = [b + 1..lastApplied rf + 1]"
    if "b \<le> lastApplied rf" "map CommandIndex msgs = [b + 1..lastApplied rf]" for b
    using that upto_rec2 [of "b + 1" "lastApplied rf + 1"] by (intro exI [of _ b]) simp
  then show ?thesis using assms(1) by (auto simp: served_def m commandMsg_def)
next
  case False
  with applyGap_spec [OF assms(2)] assms(1,3) show ?thesis by auto
qed

lemma served_top:
  assumes "served rf msgs" "wf_raft rf" "applyTop rf = Some (m, rf')"
  shows "served rf' (case m of None \<Rightarrow> msgs | Some msg \<Rightarrow> msgs @ [msg])"
proof (cases "pendingSnapshot rf")
  case None
  with served_gap [OF assms(1,2)] assms(3) show ?thesis by (simp add: applyTop_def)
next
  case (Some msg)
  then have "m = Some msg" "rf' = rf\<lparr>pendingSnapshot := None\<rparr>" using assms(3) by (simp_all add: applyTop_def)
  with assms(1) Some show ?thesis by (auto simp: served_def)
qed

lemma step_served:
  assumes "step n s s'" "\<forall>i. i < n \<longrightarrow> wf_raft (nodes s i)" "\<forall>i. i < n \<longrightarrow> served (nodes s i) (delivered s i)"
  shows "\<forall>i. i < n \<longrightarrow> served (nodes s' i) (delivered s' i)"
  using assms
proof (induction rule: step.induct)
  case (applyOuter i s m rf)
  then show ?case using served_top [of "nodes s i" "delivered s i" m rf]
    by (auto simp: handOver_def setNode_def split: option.splits)
next
  case (applyInner i s m rf)
  then show ?case using served_gap [of "nodes s i" "delivered s i" m rf]
    by (auto simp: handOver_def setNode_def split: option.splits)
next
  case (restart i s now)
  have "served (Make ps m pr now) []" for ps m and pr :: "('a, 'b) Persister"
    by (auto simp: served_def Make_def Let_def readPersist_def split: option.splits prod.splits)
  with restart show ?case by (simp add: setNode_def forget_def)
qed (auto simp: setNode_def send_def split: outgoing.splits intro: served_kept apply_kept_rules)

lemma reachable_served: "reachable ps s \<Longrightarrow> i < length ps \<Longrightarrow> served (nodes s i) (delivered s i)"
proof (induction arbitrary: i rule: reachable.induct)
  case booted
  then show ?case by (auto simp: boot_def served_def Make_def Let_def readPersist_def)
next
  case (stepped s s')
  have "\<forall>i. i < length ps \<longrightarrow> wf_raft (nodes s i)"
    using reachable_refines [OF stepped.hyps(1)] refinesD(3) node_okD(1) by blast
  with step_served [OF stepped.hyps(2)] stepped show ?case by blast
qed


section \<open>Stores of a cluster\<close>

lemma nth_of_upto: "map f xs = [a..b] \<Longrightarrow> m < length xs \<Longrightarrow> f (xs ! m) = a + int m"
proof -
  assume m: "map f xs = [a..b]" "m < length xs"
  have "length xs = nat (b - a + 1)" using m(1) length_upto [of a b] by (metis length_map)
  then have "a + int m \<le> b" using m(2) by linarith
  with m nth_upto [of a m b] show "f (xs ! m) = a + int m" by (metis nth_map)
qed

text \<open>Two peers that gave their services commands only, from the same index on, gave the shorter
  service a beginning of what they gave the other.\<close>

lemma deliveries_prefix:
  assumes "reachable ps s" "(step (length ps))\<^sup>*\<^sup>* s s'" "i < length ps" "j < length ps"
    and "pendingSnapshot (nodes s i) = None" "pendingSnapshot (nodes s' j) = None"
    and "\<forall>msg\<in>set (delivered s i). CommandValid msg" "\<forall>msg\<in>set (delivered s' j). CommandValid msg"
    and "delivered s i \<noteq> []" "CommandIndex (hd (delivered s i)) = CommandIndex (hd (delivered s' j))"
    and "length (delivered s i) \<le> length (delivered s' j)"
  shows "map amCommand (take (length (delivered s i)) (delivered s' j)) = map amCommand (delivered s i)"
proof -
  let ?xs = "delivered s i" and ?ys = "delivered s' j"
  have "reachable ps s'" using steps_reachable [OF assms(2,1)] .
  obtain b where b: "map CommandIndex ?xs = [b + 1..lastApplied (nodes s i)]"
    using reachable_served [OF assms(1,3)] assms(5,7) by (auto simp: served_def)
  obtain b' where b': "map CommandIndex ?ys = [b' + 1..lastApplied (nodes s' j)]"
    using reachable_served [OF \<open>reachable ps s'\<close> assms(4)] assms(6,8) by (auto simp: served_def)
  have ix: "CommandIndex (?xs ! m) = b + 1 + int m" "CommandIndex (?ys ! m) = b' + 1 + int m"
    if "m < length ?xs" for m
    using nth_of_upto [OF b, of m] nth_of_upto [OF b', of m] that assms(11) by simp_all
  have "?ys \<noteq> []" using assms(9,11) by auto
  then have "b = b'" using ix [of 0] assms(9,10) by (simp add: hd_conv_nth)
  show ?thesis
  proof (rule nth_equalityI)
    fix m assume "m < length (map amCommand (take (length ?xs) ?ys))"
    then have m: "m < length ?xs" "m < length ?ys" using assms(11) by simp_all
    have "amCommand (?xs ! m) = amCommand (?ys ! m)"
      by (rule deliveries_agree [OF assms(1,2), of _ i _ j]) (use m ix [OF m(1)] \<open>b = b'\<close> assms(7,8) in auto)
    then show "map amCommand (take (length ?xs) ?ys) ! m = map amCommand ?xs ! m" using m by simp
  qed (use assms(11) in simp)
qed

text \<open>
  The stores of a cluster go through the same states.  Take two nodes of a run, or one node at
  two moments of it, whose services were given commands only, from the same index on, and whose
  stores held the same jobs and runs at that index: the store that was given less holds the jobs
  and runs that the other held when it had been given as much; neither of them blocks.
\<close>

theorem stores_agree:
  fixes s s' :: "(Cmd, storeState) cluster"
  assumes "reachable ps s" and "(step (length ps))\<^sup>*\<^sup>* s s'" and "i < length ps" and "j < length ps"
    and "pendingSnapshot (nodes s i) = None" and "pendingSnapshot (nodes s' j) = None"
    and "\<forall>msg\<in>set (delivered s i). CommandValid msg" and "\<forall>msg\<in>set (delivered s' j). CommandValid msg"
    and "delivered s i \<noteq> []" and "CommandIndex (hd (delivered s i)) = CommandIndex (hd (delivered s' j))"
    and "length (delivered s i) \<le> length (delivered s' j)"
    and "waiters_ok st" and "waiters_ok st'" and "storeView st = storeView st'"
  shows "\<exists>t t'. feed (delivered s i) st = Some t \<and> feed (take (length (delivered s i)) (delivered s' j)) st' = Some t'
    \<and> storeView t = storeView t'"
proof -
  let ?xs = "delivered s i" and ?ys = "take (length (delivered s i)) (delivered s' j)"
  have "reachable ps s'" using steps_reachable [OF assms(2,1)] .
  have "\<forall>msg\<in>set ?xs. \<not> SnapshotValid msg" "\<forall>msg\<in>set ?ys. \<not> SnapshotValid msg"
    using reachable_served [OF assms(1,3)] reachable_served [OF \<open>reachable ps s'\<close> assms(4)] assms(7,8)
    unfolding served_def by (blast dest: in_set_takeD)+
  note commands = this
  obtain t where t: "feed ?xs st = Some t" "storeView t = storeView (fold applySwitch (concat (map commandOf ?xs)) st)"
    using feed_commands [OF assms(12) commands(1)] by blast
  obtain t' where t': "feed ?ys st' = Some t'" "storeView t' = storeView (fold applySwitch (concat (map commandOf ?ys)) st')"
    using feed_commands [OF assms(13) commands(2)] by blast
  have "map commandOf ?ys = map (case_option [] (\<lambda>c. [c])) (map amCommand ?ys)" by (simp add: commandOf_def)
  also have "\<dots> = map commandOf ?xs" unfolding deliveries_prefix [OF assms(1-11)] by (simp add: commandOf_def)
  finally have "map commandOf ?ys = map commandOf ?xs" .
  with t t' store_machine.replay_view [OF assms(14), of "concat (map commandOf ?xs)"] show ?thesis by simp
qed

definition fillCall :: "'c \<Rightarrow> 'c \<Rightarrow> 'c \<Rightarrow> int \<Rightarrow> 'c AppendEntriesArgs" where
  "fillCall a b c k = \<lparr>aeTerm = 1, aeLeaderId = 0, aePrevLogIndex = 0, aePrevLogTerm = 0,
     aeEntries = [\<lparr>eTerm = 1, eCommand = Some a\<rparr>, \<lparr>eTerm = 1, eCommand = Some b\<rparr>, \<lparr>eTerm = 1, eCommand = Some c\<rparr>],
     aeLeaderCommit = k\<rparr>"

text \<open>Peer 0 leads, replicates three commands to peer 1, applies them and sends them to peer 2,
  which applies the first.\<close>

definition fillRun :: "'c \<Rightarrow> 'c \<Rightarrow> 'c \<Rightarrow> ('c, 'b) act list" where
  "fillRun a b c = [Timeout 0 400 300, Vote 0 1 1 401, VoteReply 0 1 1, Command 0 a, Command 0 b, Command 0 c,
     Heartbeat 0, HeartbeatPeer 0 (1, 0, 0) 1, Append 0 1 (fillCall a b c 0) 402,
     AppendReply 0 1 (fillCall a b c 0) (aeReply 1 True (- 1) 0), ApplyOuter 0, ApplyInner 0,
     Heartbeat 0, HeartbeatPeer 0 (1, 0, 3) 2, Append 0 2 (fillCall a b c 3) 403, ApplyOuter 2]"

lemma filled:
  "map_option (\<lambda>s. (delivered s 2, delivered s 0, pendingSnapshot (nodes s 2), pendingSnapshot (nodes s 0)))
      (run 3 (fillRun a b c :: ('c::equal, 'b::equal) act list) (boot threePeers))
    = Some ([commandMsg (Some a) 1], [commandMsg (Some a) 1, commandMsg (Some b) 2], None, None)"
  by code_simp

theorem stores_agree_witness:
  "\<exists>(s :: (Cmd, storeState) cluster) t t'. reachable threePeers s \<and> delivered s 2 \<noteq> []
     \<and> feed (delivered s 2) (makeStore True None) = Some t
     \<and> feed (take (length (delivered s 2)) (delivered s 0)) (makeStore True None) = Some t' \<and> storeView t = storeView t'"
proof -
  define c where "c = upsertCmd ''r''"
  obtain s :: "(Cmd, storeState) cluster" where s: "reachable threePeers s"
    "delivered s 2 = [commandMsg (Some (c ''a'')) 1]" "delivered s 0 = [commandMsg (Some (c ''a'')) 1, commandMsg (Some (c ''b'')) 2]"
    "pendingSnapshot (nodes s 2) = None" "pendingSnapshot (nodes s 0) = None"
    using sample_run [OF filled [of "c ''a''" "c ''b''" "c ''c''"]] by auto
  have "\<exists>t t'. feed (delivered s 2) (makeStore True None) = Some t
     \<and> feed (take (length (delivered s 2)) (delivered s 0)) (makeStore True None) = Some t' \<and> storeView t = storeView t'"
    by (rule stores_agree [OF s(1) rtranclp.rtrancl_refl _ _ s(4,5)])
      (simp_all add: s threePeers_def commandMsg_def waiters_ok_make)
  with s show ?thesis by auto
qed


section \<open>A snapshot that is overtaken\<close>

definition midInstall :: "'b list \<Rightarrow> 'b InstallSnapshotArgs" where
  "midInstall sn = \<lparr>isTerm = 1, isLeaderId = 0, isLastIncludedIndex = 2, isLastIncludedTerm = 1, isData = sn\<rparr>"

text \<open>The run goes on: the service of the leader compacts the first two commands, the leader sends
  the snapshot to peer 2, whose apply loop is between two commands.\<close>

definition overtakeRun :: "'c \<Rightarrow> 'c \<Rightarrow> 'c \<Rightarrow> 'b list \<Rightarrow> ('c, 'b) act list" where
  "overtakeRun a b c sn = fillRun a b c @ [Compact 0 2 sn, HeartbeatPeer 0 (1, 0, 3) 2, Install 0 2 (midInstall sn) 404,
     ApplyInner 2, ApplyInner 2, ApplyOuter 2]"

lemma overtaken:
  "map_option (\<lambda>s. (delivered s 2, lastApplied (nodes s 2), commitIndex (nodes s 2), pendingSnapshot (nodes s 2), entryAt (nodes s 2) 3))
      (run 3 (overtakeRun a b c sn) (boot threePeers))
    = Some ([commandMsg (Some a) 1, commandMsg (Some c) 3, snapshotMsg (midInstall sn)], 3, 3, None, Some \<lparr>eTerm = 1, eCommand = Some c\<rparr>)"
  for a b c :: "'c::equal" and sn :: "'b::equal list"
  by code_simp


end
