(* ===== verification/Raft_Origin.thy ===== *)
theory Raft_Origin
  imports Raft_Refine
begin

text \<open>
  Where the commands of a cluster come from, and how far a peer's service is: no critical section
  puts a command into a log that was neither in a log, nor in a request, nor given to \<open>Start\<close>; none
  moves the position of the apply loop back, and only compaction and an installed snapshot change
  what the persister holds as snapshot.
\<close>

section \<open>One peer\<close>

definition entryCommands :: "'c LogEntry list \<Rightarrow> 'c set" where
  "entryCommands l = {c. \<exists>e \<in> set l. eCommand e = Some c}"

lemma entryCommands_simps [simp]:
  "entryCommands [] = {}"
  "entryCommands (e # l) = (case eCommand e of None \<Rightarrow> {} | Some c \<Rightarrow> {c}) \<union> entryCommands l"
  "entryCommands (l @ l') = entryCommands l \<union> entryCommands l'"
  by (auto simp: entryCommands_def split: option.split)

lemma entryCommands_mono: "set l \<subseteq> set l' \<Longrightarrow> entryCommands l \<subseteq> entryCommands l'"
  by (auto simp: entryCommands_def)

lemma appendLoop_set: "appendLoop idx es rf = Some rf' \<Longrightarrow> set (log rf') \<subseteq> set (log rf) \<union> set es"
proof (induction idx es rf rule: appendLoop.induct)
  case (2 idx entry rest rf)
  then show ?case
    by (cases "idx < lastLogIndex rf + 1"; cases "logTerm rf idx")
      (auto simp: bind_Some_conv go_slice_to_def split: if_splits dest: in_set_takeD)
qed simp

text \<open>What a critical section may do, when it is given the commands \<open>C\<close>.\<close>

definition draws :: "'c set \<Rightarrow> ('c, 'b) Raft \<Rightarrow> ('c, 'b) Raft \<Rightarrow> bool" where
  "draws C rf rf' \<longleftrightarrow> entryCommands (log rf') \<subseteq> entryCommands (log rf) \<union> C \<and> lastApplied rf \<le> lastApplied rf'
     \<and> (\<forall>msg. pendingSnapshot rf' = Some msg \<longrightarrow> pendingSnapshot rf = Some msg \<or> amCommand msg = None \<and> CommandIndex msg = 0)"

definition slot_kept :: "('c, 'b) Raft \<Rightarrow> ('c, 'b) Raft \<Rightarrow> bool" where
  "slot_kept rf rf' \<longleftrightarrow> lastIncludedIndex rf' = lastIncludedIndex rf
     \<and> ReadSnapshot (persister rf') = ReadSnapshot (persister rf)
     \<and> pendingSnapshot rf' = pendingSnapshot rf \<and> lastApplied rf' = lastApplied rf"

lemma slot_kept_refl [simp]: "slot_kept rf rf" by (simp add: slot_kept_def)

lemma snapshot_persist [simp]: "ReadSnapshot (persister (persist rf)) = ReadSnapshot (persister rf)"
  "ReadSnapshot (persister (persistWithSnapshot sn rf)) = sn"
  "ReadSnapshot (persister (stepDown t rf)) = ReadSnapshot (persister rf)"
  by (simp_all add: persist_def persistWithSnapshot_def stepDown_def Save_def ReadSnapshot_def)

lemma RequestVote_draws: "RequestVote now args rf = Some (reply, rf') \<Longrightarrow> draws {} rf rf' \<and> slot_kept rf rf'"
  by (auto simp: RequestVote_def Let_def bind_Some_conv draws_def slot_kept_def split: if_splits)

lemma electionTimeout_draws: "electionTimeout now d rf = Some (rf', reqs) \<Longrightarrow> draws {} rf rf' \<and> slot_kept rf rf'"
  by (auto simp: electionTimeout_def startElection_def Let_def bind_Some_conv draws_def slot_kept_def split: if_splits)

lemma onVoteReply_draws: "onVoteReply t reply v rf = (rf', v') \<Longrightarrow> draws {} rf rf' \<and> slot_kept rf rf'"
  by (auto simp: onVoteReply_def becomeLeader_def draws_def slot_kept_def split: if_splits)

lemma Start_draws: "Start c rf = (r, rf') \<Longrightarrow> draws {c} rf rf' \<and> slot_kept rf rf'"
  by (auto simp: Start_def Let_def draws_def slot_kept_def split: if_splits)

lemma onAppendReply_draws: "onAppendReply p args reply rf = Some rf' \<Longrightarrow> draws {} rf rf' \<and> slot_kept rf rf'"
  by (erule onAppendReply_frame) (auto simp: draws_def slot_kept_def)

lemma onSnapshotReply_draws: "onSnapshotReply p args reply rf = Some rf' \<Longrightarrow> draws {} rf rf' \<and> slot_kept rf rf'"
  by (erule onSnapshotReply_frame) (auto simp: draws_def slot_kept_def)

lemma AppendEntries_draws:
  assumes "AppendEntries now args rf = Some (reply, rf')"
  shows "draws (entryCommands (aeEntries args)) rf rf' \<and> slot_kept rf rf'"
  using assms
proof (cases rule: AppendEntries_cases)
  case (appended l)
  have "set l \<subseteq> set (log rf) \<union> set (aeEntries args)"
    using appendLoop_set [OF appended(5)] by (simp add: aeAccepted_def)
  then have "entryCommands l \<subseteq> entryCommands (log rf) \<union> entryCommands (aeEntries args)"
    using entryCommands_mono [of l "log rf @ aeEntries args"] by simp
  with appended(6) show ?thesis by (simp add: draws_def slot_kept_def aeCommitted_def aeAccepted_def)
qed (simp_all add: draws_def slot_kept_def aeAccepted_def)

lemma InstallSnapshot_draws:
  assumes "InstallSnapshot now args rf = Some (reply, rf')" shows "draws {} rf rf'"
  using assms
proof (cases rule: InstallSnapshot_cases)
  case installed
  have "entryCommands (isKeptLog args rf) \<subseteq> entryCommands (log rf)"
    using entryCommands_mono [OF set_drop_subset, of "nat (isLastIncludedIndex args - lastIncludedIndex rf)" "log rf"]
    by (simp add: isKeptLog_def)
  with installed(3) show ?thesis
    by (simp add: draws_def isInstalled_def isAccepted_def snapshotMsg_def)
qed (simp_all add: draws_def isAccepted_def)

lemma Snapshot_draws:
  assumes "Snapshot index sn rf = Some rf'" shows "draws {} rf rf'"
proof (cases "index \<le> lastIncludedIndex rf")
  case True
  with assms show ?thesis by (simp add: Snapshot_def draws_def)
next
  case False
  then obtain l s l' t where l: "go_slice_from (log rf) (logIndex rf index) = Some l" "go_nth l 0 = Some s"
    "go_update l 0 (s\<lparr>eCommand := None\<rparr>) = Some l'"
    "rf' = persistWithSnapshot sn (rf\<lparr>log := l', lastIncludedIndex := index, lastIncludedTerm := t\<rparr>)"
    using assms by (auto simp: Snapshot_def bind_Some_conv)
  have "entryCommands l \<subseteq> entryCommands (log rf)"
    using l(1) by (intro entryCommands_mono) (auto simp: go_slice_from_def split: if_splits dest: in_set_dropD)
  moreover have "entryCommands l' \<subseteq> entryCommands l"
    using l(2,3) by (cases l) (auto simp: go_update_def go_nth_def split: if_splits)
  ultimately show ?thesis using l(4) by (auto simp: draws_def)
qed

lemma applyGap_draws:
  assumes "applyGap rf = Some (m, rf')"
  shows "draws {} rf rf' \<and> lastIncludedIndex rf' = lastIncludedIndex rf \<and> persister rf' = persister rf
    \<and> pendingSnapshot rf' = pendingSnapshot rf \<and> log rf' = log rf
    \<and> (\<forall>msg. m = Some msg \<longrightarrow> CommandValid msg \<and> \<not> SnapshotValid msg \<and> CommandIndex msg = lastApplied rf'
         \<and> amCommand msg \<in> eCommand ` set (log rf))"
  using assms
proof (induction rf arbitrary: m rf' rule: applyGap.induct)
  case (1 rf)
  show ?case
  proof (cases "lastApplied rf < commitIndex rf")
    case False
    with "1.prems" show ?thesis by (simp add: applyGap.simps [of rf] draws_def)
  next
    case True
    define rf1 where "rf1 = rf\<lparr>lastApplied := lastApplied rf + 1\<rparr>"
    show ?thesis
    proof (cases "lastApplied rf1 \<le> lastIncludedIndex rf1")
      case below: True
      define rf2 where "rf2 = rf1\<lparr>lastApplied := lastIncludedIndex rf1\<rparr>"
      have "applyGap rf2 = Some (m, rf')" using "1.prems" True below
        by (simp add: applyGap.simps [of rf] rf1_def rf2_def Let_def)
      from "1.IH" [OF True rf1_def below, folded rf2_def, OF this] below show ?thesis
        by (auto simp: draws_def slot_kept_def rf1_def rf2_def)
    next
      case above: False
      then obtain e where "go_nth (log rf) (logIndex rf (lastApplied rf + 1)) = Some e"
        "m = Some (commandMsg (eCommand e) (lastApplied rf1))" "rf' = rf1"
        using "1.prems" True by (auto simp: applyGap.simps [of rf] rf1_def Let_def bind_Some_conv logIndex_def)
      then show ?thesis
        by (auto simp: draws_def slot_kept_def rf1_def commandMsg_def go_nth_def split: if_splits)
    qed
  qed
qed

lemma sendHeartbeats_peer_draws:
  assumes "sendHeartbeats_peer hb p rf = Some (AppendRequest args)"
  shows "entryCommands (aeEntries args) \<subseteq> entryCommands (log rf)"
  using assms
  by (intro entryCommands_mono)
    (auto simp: sendHeartbeats_peer_def Let_def bind_Some_conv go_slice_from_def split: prod.splits if_splits dest: in_set_dropD)

lemma sendHeartbeats_peer_snapshot:
  assumes "sendHeartbeats_peer hb p rf = Some (SnapshotRequest args)" "wf_raft rf"
  shows "args = snapshotArgs rf \<and> 0 < lastIncludedIndex rf"
proof -
  obtain ni where ni: "state rf = leader" "go_nth (nextIndex rf) (int p) = Some ni" "ni \<le> lastIncludedIndex rf"
    "args = snapshotArgs rf"
    using assms(1) by (auto simp: sendHeartbeats_peer_def Let_def bind_Some_conv split: prod.splits if_splits)
  have "ni \<in> set (nextIndex rf)" using ni(2) by (auto simp: go_nth_def split: if_splits)
  with ni assms(2) show ?thesis by (auto simp: wf_raft_def leaderSlots_def list_all_iff)
qed


section \<open>The cluster\<close>

text \<open>
  All commands in logs, in requests and in messages to a service are among \<open>C\<close>, and no message to a
  service is ahead of the apply loop.
\<close>

definition peer_origin :: "'c set \<Rightarrow> ('c, 'b) Raft \<Rightarrow> bool" where
  "peer_origin C rf \<longleftrightarrow> entryCommands (log rf) \<subseteq> C
     \<and> (\<forall>msg. pendingSnapshot rf = Some msg \<longrightarrow> amCommand msg = None \<and> CommandIndex msg = 0)"

definition message_origin :: "'c set \<Rightarrow> int \<Rightarrow> ('c, 'b) ApplyMsg \<Rightarrow> bool" where
  "message_origin C k msg \<longleftrightarrow> CommandIndex msg \<le> k \<and> (\<forall>c. amCommand msg = Some c \<longrightarrow> c \<in> C \<and> CommandValid msg)"

definition origin :: "nat \<Rightarrow> 'c set \<Rightarrow> ('c, 'b) cluster \<Rightarrow> bool" where
  "origin n C s \<longleftrightarrow> (\<forall>i < n. peer_origin C (nodes s i))
     \<and> (\<forall>(i, p, args) \<in> appendCalls s. entryCommands (aeEntries args) \<subseteq> C)
     \<and> (\<forall>i < n. \<forall>msg \<in> set (delivered s i). message_origin C (lastApplied (nodes s i)) msg)"

lemma peer_origin_mono: "peer_origin C rf \<Longrightarrow> C \<subseteq> D \<Longrightarrow> peer_origin D rf"
  by (auto simp: peer_origin_def)

lemma message_origin_mono: "message_origin C k msg \<Longrightarrow> C \<subseteq> D \<Longrightarrow> k \<le> l \<Longrightarrow> message_origin D l msg"
  by (auto simp: message_origin_def)

lemma peer_origin_draws: "peer_origin C rf \<Longrightarrow> draws D rf rf' \<Longrightarrow> peer_origin (C \<union> D) rf'"
  unfolding peer_origin_def draws_def by blast

lemma origin_mono: "origin n C s \<Longrightarrow> C \<subseteq> D \<Longrightarrow> origin n D s"
  unfolding origin_def by (fastforce intro: peer_origin_mono message_origin_mono)

lemma origin_cong:
  "origin n C s \<Longrightarrow> nodes s' = nodes s \<Longrightarrow> appendCalls s' = appendCalls s \<Longrightarrow> delivered s' = delivered s \<Longrightarrow> origin n C s'"
  by (simp add: origin_def)

text \<open>One peer runs a critical section that hands nothing over.\<close>

lemma origin_peer:
  assumes "origin n C s" "draws D (nodes s i) rf" "nodes s' = (nodes s)(i := rf)" "delivered s' = delivered s"
    and "\<And>j p args. (j, p, args) \<in> appendCalls s' \<Longrightarrow> (j, p, args) \<notin> appendCalls s \<Longrightarrow> entryCommands (aeEntries args) \<subseteq> C \<union> D"
  shows "origin n (C \<union> D) s'"
proof -
  have "lastApplied (nodes s j) \<le> lastApplied (nodes s' j)" for j using assms(2,3) by (simp add: draws_def)
  moreover have "peer_origin (C \<union> D) (nodes s' j)" if "j < n" for j
    using that assms(1,2,3) peer_origin_draws [of C "nodes s i" D rf] peer_origin_mono [of C _ "C \<union> D"] by (auto simp: origin_def)
  ultimately show ?thesis using assms(1,4,5) unfolding origin_def by (fastforce intro: message_origin_mono)
qed

lemma origin_handOver:
  assumes "origin n C s" "draws {} (nodes s i) rf" "\<And>msg. m = Some msg \<Longrightarrow> message_origin C (lastApplied rf) msg"
  shows "origin n C (handOver i m (setNode i rf s))"
proof -
  have "origin n C (setNode i rf s)"
    using origin_peer [OF assms(1,2), of "setNode i rf s"] by (simp add: setNode_def)
  with assms(3) show ?thesis by (auto simp: origin_def handOver_def setNode_def split: option.splits)
qed

lemma applyGap_message:
  assumes "applyGap rf = Some (Some msg, rf')" "peer_origin C rf"
  shows "message_origin C (lastApplied rf') msg"
  using applyGap_draws [OF assms(1)] assms(2) by (force simp: message_origin_def peer_origin_def entryCommands_def)

lemma applyTop_message:
  assumes "applyTop rf = Some (m, rf')" "peer_origin C rf" "wf_raft rf"
  shows "draws {} rf rf' \<and> (\<forall>msg. m = Some msg \<longrightarrow> message_origin C (lastApplied rf') msg)"
proof (cases "pendingSnapshot rf")
  case None
  with assms applyGap_draws [of rf m rf'] applyGap_message [of rf _ rf' C] show ?thesis by (auto simp: applyTop_def)
next
  case (Some msg)
  then have "m = Some msg" "rf' = rf\<lparr>pendingSnapshot := None\<rparr>" using assms(1) by (simp_all add: applyTop_def)
  with Some assms(2,3) show ?thesis by (auto simp: draws_def message_origin_def peer_origin_def wf_raft_def)
qed

lemma send_fields [simp]:
  "nodes (send i p out s) = nodes s" "delivered (send i p out s) = delivered s" "inGap (send i p out s) = inGap s"
  by (simp_all add: send_def split: outgoing.split)

text \<open>
  The steps in which one peer, the \<open>mover\<close>, runs a critical section that neither hands anything over
  nor sends a request, and the commands it is given from outside.
\<close>

fun mover :: "('c, 'b) act \<Rightarrow> nat option" where
  "mover (Timeout i now d) = Some i"
| "mover (Vote i t p now) = Some p"
| "mover (VoteReply i t p) = Some i"
| "mover (VoteLate i t p now) = Some p"
| "mover (Command i c) = Some i"
| "mover (Append i p args now) = Some p"
| "mover (AppendReply i p args reply) = Some i"
| "mover (Install i p args now) = Some p"
| "mover (InstallReply i p args reply) = Some i"
| "mover (Compact i index sn) = Some i"
| "mover _ = None"

fun given :: "('c, 'b) act \<Rightarrow> 'c set" where
  "given (Command i c) = {c}"
| "given (Append i p args now) = entryCommands (aeEntries args)"
| "given _ = {}"

fun commandsIn :: "('c, 'b) act \<Rightarrow> 'c set" where
  "commandsIn (Command i c) = {c}"
| "commandsIn _ = {}"

fun snapshots :: "('c, 'b) act \<Rightarrow> bool" where
  "snapshots (Install i p args now) = True"
| "snapshots (Compact i index sn) = True"
| "snapshots _ = False"

lemma snd_Start_draws: "draws {c} rf (snd (Start c rf)) \<and> slot_kept rf (snd (Start c rf))"
  using Start_draws [of c rf "fst (Start c rf)"] by simp

lemma exec_mover:
  assumes "exec n a s = Some s'" "mover a = Some i"
  shows "nodes s' = (nodes s)(i := nodes s' i)" "draws (given a) (nodes s i) (nodes s' i)"
    "\<not> snapshots a \<Longrightarrow> slot_kept (nodes s i) (nodes s' i)" "delivered s' = delivered s" "appendCalls s' = appendCalls s"
    "installCalls s' = installCalls s" "inGap s' = inGap s" "i < n"
  using assms
  by (cases a; auto simp: bind_Some_conv setNode_def snd_Start_draws split: if_splits vote_call.splits prod.splits
      dest: electionTimeout_draws RequestVote_draws onVoteReply_draws AppendEntries_draws onAppendReply_draws
        InstallSnapshot_draws onSnapshotReply_draws Snapshot_draws)+

text \<open>What a restart reads back.\<close>

definition saved :: "('c, 'b) Raft \<Rightarrow> bool" where
  "saved rf \<longleftrightarrow> wf_raft rf \<and> (\<exists>t v. durable rf = (t, v, log rf, lastIncludedIndex rf, lastIncludedTerm rf))"

lemma reachable_saved: "reachable ps s \<Longrightarrow> i < length ps \<Longrightarrow> saved (nodes s i)"
  using reachable_refines [of ps s] refinesD(3) [of "length ps"] node_okD(1,9) unfolding saved_def by blast

lemma Make_saved:
  assumes "saved rf"
  shows "log (Make ps m (persister rf) now) = log rf" "lastIncludedIndex (Make ps m (persister rf) now) = lastIncludedIndex rf"
    "lastApplied (Make ps m (persister rf) now) = lastIncludedIndex rf"
    "pendingSnapshot (Make ps m (persister rf) now) = None" "persister (Make ps m (persister rf) now) = persister rf"
  using assms readPersist_durable [of ps m rf now]
  by (auto simp: saved_def volatileImage_def Make_def Let_def readPersist_def split: option.splits prod.splits)

lemma origin_restart:
  assumes "origin n C s" "i < n" "saved (nodes s i)"
  shows "origin n C (setNode i (Make (peers (nodes s i)) (int i) (persister (nodes s i)) now) (forget i s))"
proof -
  have "peer_origin C (Make (peers (nodes s i)) (int i) (persister (nodes s i)) now)"
    using assms Make_saved [OF assms(3)] by (simp add: origin_def peer_origin_def)
  with assms show ?thesis by (simp add: origin_def setNode_def forget_def)
qed

lemma exec_origin:
  assumes "exec n a s = Some s'" "origin n C s" "\<forall>i < n. saved (nodes s i)"
  shows "origin n (C \<union> commandsIn a) s'"
proof (cases "mover a")
  case (Some i)
  note m = exec_mover [OF assms(1) Some]
  have "C \<union> given a = C \<union> commandsIn a" using assms(1,2) by (cases a) (auto simp: origin_def split: if_splits)
  with origin_peer [OF assms(2) m(2,1,4)] m(5) show ?thesis by simp
next
  case None
  then show ?thesis
  proof (cases a)
    case (HeartbeatPeer i hb p)
    then obtain out where out: "i < n" "sendHeartbeats_peer hb p (nodes s i) = Some out" "s' = send i p out s"
      using assms(1) by (auto simp: bind_Some_conv split: if_splits)
    have "entryCommands (aeEntries args) \<subseteq> C" if "out = AppendRequest args" for args
      using sendHeartbeats_peer_draws [of hb p "nodes s i" args] out(1,2) that assms(2) by (auto simp: origin_def peer_origin_def)
    with assms(2) out(3) HeartbeatPeer show ?thesis by (auto simp: origin_def send_def split: outgoing.splits)
  next
    case (ApplyOuter i)
    then obtain m rf where m: "i < n" "applyTop (nodes s i) = Some (m, rf)" "s' = handOver i m (setNode i rf s)"
      using assms(1) by (auto simp: bind_Some_conv split: if_splits)
    moreover have "peer_origin C (nodes s i)" "wf_raft (nodes s i)" using m(1) assms(2,3) by (auto simp: origin_def saved_def)
    ultimately show ?thesis using origin_handOver [OF assms(2)] applyTop_message [OF m(2)] ApplyOuter by simp
  next
    case (ApplyInner i)
    then obtain m rf where m: "i < n" "applyGap (nodes s i) = Some (m, rf)" "s' = handOver i m (setNode i rf s)"
      using assms(1) by (auto simp: bind_Some_conv split: if_splits)
    moreover have "peer_origin C (nodes s i)" using m(1) assms(2) by (auto simp: origin_def)
    ultimately show ?thesis
      using origin_handOver [OF assms(2)] applyGap_draws [OF m(2)] applyGap_message [of "nodes s i" _ rf C] ApplyInner by simp
  next
    case (Restart i now)
    with assms origin_restart [OF assms(2), of i now] show ?thesis by (auto split: if_splits)
  qed (use assms(1) origin_cong [OF assms(2), of s'] in \<open>auto split: if_splits\<close>)
qed

lemma boot_origin: "origin n {} (boot ps)"
  by (simp add: origin_def boot_def peer_origin_def Make_def readPersist_def Let_def)

end
