(* ===== verification/System.thy ===== *)
theory System
  imports Replication Raft_Origin
begin

text \<open>
  Whole nodes in a cluster: on every node a Raft peer and the store that \<open>main\<close> puts on top of it.

  The peers move as in \<open>Raft_Cluster\<close>, but commands enter only through \<open>Submit\<close>, the log is compacted
  only by the goroutines the store starts, and what a peer hands over is applied by the store's loop.
  A \<open>Submit\<close> that is waiting is an entry of \<open>waits\<close>; it returns with what arrives on its channel or when
  its time is up.  A restart makes a new peer and a new store from the persister.

  Some fields of the state only record what happened: the commands that were submitted, the answers
  that callers got, the commands that any store was given with their indices (\<open>history\<close>), and the
  index up to which a store's state reaches (\<open>pos\<close>).
\<close>

section \<open>The system\<close>

record system =
  cl :: "(Cmd, storeState) cluster"
  stores :: "nat \<Rightarrow> Store"
  taken :: "nat \<Rightarrow> nat"
  waits :: "nat \<Rightarrow> (int \<times> nat \<times> Cmd) list"
  compactions :: "nat \<Rightarrow> (int \<times> storeState list) list"
  submitted :: "Cmd list"
  answers :: "(nat \<times> int \<times> Cmd \<times> submit_error option) list"
  history :: "(int \<times> Cmd option) list"
  pos :: "nat \<Rightarrow> int"

definition start :: "Peer list \<Rightarrow> system" where
  "start ps = \<lparr>cl = boot ps, stores = (\<lambda>_. makeStore True (Some MakePersister)), taken = (\<lambda>_. 0), waits = (\<lambda>_. []),
     compactions = (\<lambda>_. []), submitted = [], answers = [], history = [], pos = (\<lambda>_. 0)\<rparr>"

datatype sys_act =
    Internal "(Cmd, storeState) act"
  | SubmitTo nat Cmd
  | Take nat "int list"
  | Answer nat nat
  | Expire nat nat
  | Compaction nat nat
  | Reboot nat int

fun internal :: "('c, 'b) act \<Rightarrow> bool" where
  "internal (Command i c) = False"
| "internal (Compact i index sn) = False"
| "internal (Restart i now) = False"
| "internal _ = True"

definition dropNth :: "nat \<Rightarrow> 'a list \<Rightarrow> 'a list" where
  "dropNth k xs = take k xs @ drop (Suc k) xs"

definition indexOf :: "storeMsg \<Rightarrow> int" where
  "indexOf msg = (if SnapshotValid msg then SnapshotIndex msg else CommandIndex msg)"

text \<open>The list \<open>ks\<close> is the order in which the store visits its waiters, each of which has to occur.\<close>

fun sysExec :: "nat \<Rightarrow> sys_act \<Rightarrow> system \<Rightarrow> system option" where
  "sysExec n (Internal a) S = (if internal a then do { s \<leftarrow> exec n a (cl S); Some (S\<lparr>cl := s\<rparr>) } else None)"
| "sysExec n (SubmitTo i cmd) S =
     (if i < n then
        (case Submit_begin cmd (nodes (cl S) i) (stores S i) of
           (Inl e, rf, st) \<Rightarrow> Some (S\<lparr>cl := setNode i rf (cl S), stores := (stores S)(i := st)\<rparr>)
         | (Inr (index, ch), rf, st) \<Rightarrow>
             Some (S\<lparr>cl := setNode i rf (cl S), stores := (stores S)(i := st),
               waits := (waits S)(i := waits S i @ [(index, ch, cmd)]), submitted := cmd # submitted S\<rparr>))
      else None)"
| "sysExec n (Take i ks) S =
     (if i < n \<and> taken S i < length (delivered (cl S) i) \<and> set (map fst (waits S i)) \<subseteq> set ks then
        (let msg = delivered (cl S) i ! taken S i in
         do { (req, st) \<leftarrow> applyLoop_msg ks msg (stores S i);
              Some (S\<lparr>stores := (stores S)(i := st), taken := (taken S)(i := taken S i + 1),
                compactions := (compactions S)(i := compactions S i @ (case req of None \<Rightarrow> [] | Some r \<Rightarrow> [r])),
                history := (if SnapshotValid msg then history S else (CommandIndex msg, amCommand msg) # history S),
                pos := (pos S)(i := indexOf msg)\<rparr>) })
      else None)"
| "sysExec n (Answer i k) S =
     (if i < n \<and> k < length (waits S i) then
        (case waits S i ! k of (index, ch, cmd) \<Rightarrow>
           do { (e, st) \<leftarrow> chRecv ch (stores S i);
                Some (S\<lparr>stores := (stores S)(i := st), waits := (waits S)(i := dropNth k (waits S i)),
                  answers := (i, index, cmd, e) # answers S\<rparr>) })
      else None)"
| "sysExec n (Expire i k) S =
     (if i < n \<and> k < length (waits S i) then
        (case waits S i ! k of (index, ch, cmd) \<Rightarrow>
         case Submit_timeout index (stores S i) of (e, st) \<Rightarrow>
           Some (S\<lparr>stores := (stores S)(i := st), waits := (waits S)(i := dropNth k (waits S i)),
             answers := (i, index, cmd, e) # answers S\<rparr>))
      else None)"
| "sysExec n (Compaction i k) S =
     (if i < n \<and> k < length (compactions S i) then
        (case compactions S i ! k of (index, sn) \<Rightarrow>
           do { rf \<leftarrow> Snapshot index sn (nodes (cl S) i);
                Some (S\<lparr>cl := setNode i rf (cl S), compactions := (compactions S)(i := dropNth k (compactions S i))\<rparr>) })
      else None)"
| "sysExec n (Reboot i now) S =
     (if i < n then
        (let rf = nodes (cl S) i; pr = persister rf in
         Some (S\<lparr>cl := setNode i (Make (peers rf) (int i) pr now) (forget i (cl S)),
           stores := (stores S)(i := makeStore True (Some pr)), taken := (taken S)(i := 0),
           waits := (waits S)(i := []), compactions := (compactions S)(i := []), pos := (pos S)(i := lastIncludedIndex rf)\<rparr>))
      else None)"

inductive sysReachable :: "Peer list \<Rightarrow> system \<Rightarrow> bool" for ps where
  started: "sysReachable ps (start ps)"
| moved: "sysReachable ps S \<Longrightarrow> sysExec (length ps) a S = Some S' \<Longrightarrow> sysReachable ps S'"

primrec sysRun :: "nat \<Rightarrow> sys_act list \<Rightarrow> system \<Rightarrow> system option" where
  "sysRun n [] S = Some S"
| "sysRun n (a # as) S = do { S' \<leftarrow> sysExec n a S; sysRun n as S' }"

lemma sysRun_reachable: "sysRun (length ps) as S = Some S' \<Longrightarrow> sysReachable ps S \<Longrightarrow> sysReachable ps S'"
  by (induction as arbitrary: S) (auto simp: bind_Some_conv intro: moved)


section \<open>The peers\<close>

lemma dropNth_subset: "set (dropNth k xs) \<subseteq> set xs"
  by (auto simp: dropNth_def dest: in_set_takeD in_set_dropD)

lemma setNode_same: "rf = nodes s i \<Longrightarrow> setNode i rf s = s"
  by (simp add: setNode_def)

lemma Submit_begin_raft:
  assumes "Submit_begin cmd rf st = (r, rf', st')"
  shows "rf' = rf \<and> (\<exists>e. r = Inl e) \<or> rf' = snd (Start cmd rf)"
  using assms by (auto simp: Submit_begin_def Let_def split: if_splits prod.splits)

lemma Start_refused: "Submit_begin cmd rf st = (Inl e, rf', st') \<Longrightarrow> rf' = rf \<and> st' = st"
  by (auto simp: Submit_begin_def Start_def Let_def split: if_splits prod.splits)

text \<open>The position of the apply loop moves only forward.\<close>

lemma exec_lastApplied:
  assumes "exec n a s = Some s'" "internal a"
  shows "lastApplied (nodes s i) \<le> lastApplied (nodes s' i)"
proof (cases "mover a")
  case (Some j)
  from exec_mover(2) [OF assms(1) Some] have "lastApplied (nodes s j) \<le> lastApplied (nodes s' j)" by (simp add: draws_def)
  moreover have "nodes s' i = nodes s i" if "i \<noteq> j" using exec_mover(1) [OF assms(1) Some] that by (metis fun_upd_other)
  ultimately show ?thesis by (cases "i = j") simp_all
next
  case None
  have top: "lastApplied rf \<le> lastApplied rf'" if "applyTop rf = Some (m, rf')" for rf rf' :: "('a, 'b) Raft" and m
    using that applyGap_draws [of rf m rf'] by (auto simp: applyTop_def draws_def split: option.splits)
  have gap: "lastApplied rf \<le> lastApplied rf'" if "applyGap rf = Some (m, rf')" for rf rf' :: "('a, 'b) Raft" and m
    using that applyGap_draws [of rf m rf'] by (simp add: draws_def)
  from None assms top gap show ?thesis
    by (cases a) (auto simp: bind_Some_conv handOver_def setNode_def split: if_splits option.splits)
qed

text \<open>
  The peers of the system behave as the cluster: in particular the store asks for compaction only of
  what its peer has applied.
\<close>

definition peers_inv :: "Peer list \<Rightarrow> system \<Rightarrow> bool" where
  "peers_inv ps S \<longleftrightarrow> reachable ps (cl S) \<and> origin (length ps) (set (submitted S)) (cl S)
     \<and> (\<forall>i < length ps. \<forall>(index, sn) \<in> set (compactions S i). index \<le> lastApplied (nodes (cl S) i))"

lemma peers_invD:
  assumes "peers_inv ps S"
  shows "reachable ps (cl S)" "origin (length ps) (set (submitted S)) (cl S)"
    "i < length ps \<Longrightarrow> (index, sn) \<in> set (compactions S i) \<Longrightarrow> index \<le> lastApplied (nodes (cl S) i)"
    "i < length ps \<Longrightarrow> saved (nodes (cl S) i)"
  using assms reachable_saved unfolding peers_inv_def by blast+

text \<open>Every step of the system is a step of the cluster, or leaves the cluster as it is.\<close>

lemma sysExec_submit:
  assumes "sysExec n (SubmitTo i cmd) S = Some S'"
  obtains (refused) "S' = S"
  | (accepted) index ch rf st where "i < n" "Submit_begin cmd (nodes (cl S) i) (stores S i) = (Inr (index, ch), rf, st)"
      "rf = snd (Start cmd (nodes (cl S) i))"
      "S' = S\<lparr>cl := setNode i rf (cl S), stores := (stores S)(i := st),
               waits := (waits S)(i := waits S i @ [(index, ch, cmd)]), submitted := cmd # submitted S\<rparr>"
proof -
  have i: "i < n" using assms by (auto split: if_splits)
  obtain r rf st where r: "Submit_begin cmd (nodes (cl S) i) (stores S i) = (r, rf, st)" by (metis prod_cases3)
  show ?thesis
  proof (cases r)
    case (Inl e)
    with r Start_refused have "rf = nodes (cl S) i" "st = stores S i" by blast+
    with assms i r Inl show ?thesis by (intro refused) (simp add: setNode_same)
  next
    case (Inr x)
    with assms i r Submit_begin_raft [OF r] accepted show ?thesis by (cases x) auto
  qed
qed

lemma sysExec_take:
  assumes "sysExec n (Take i ks) S = Some S'"
  obtains msg req st where "i < n" "taken S i < length (delivered (cl S) i)" "msg = delivered (cl S) i ! taken S i"
    "set (map fst (waits S i)) \<subseteq> set ks" "applyLoop_msg ks msg (stores S i) = Some (req, st)"
    "S' = S\<lparr>stores := (stores S)(i := st), taken := (taken S)(i := taken S i + 1),
             compactions := (compactions S)(i := compactions S i @ (case req of None \<Rightarrow> [] | Some r \<Rightarrow> [r])),
             history := (if SnapshotValid msg then history S else (CommandIndex msg, amCommand msg) # history S),
             pos := (pos S)(i := indexOf msg)\<rparr>"
  using assms by (auto simp: Let_def bind_Some_conv split: if_splits)

lemma sysExec_compaction:
  assumes "sysExec n (Compaction i k) S = Some S'"
  obtains index sn rf where "i < n" "(index, sn) \<in> set (compactions S i)" "Snapshot index sn (nodes (cl S) i) = Some rf"
    "S' = S\<lparr>cl := setNode i rf (cl S), compactions := (compactions S)(i := dropNth k (compactions S i))\<rparr>"
proof -
  obtain index sn rf where c: "i < n" "k < length (compactions S i)" "compactions S i ! k = (index, sn)"
    "Snapshot index sn (nodes (cl S) i) = Some rf"
    "S' = S\<lparr>cl := setNode i rf (cl S), compactions := (compactions S)(i := dropNth k (compactions S i))\<rparr>"
    using assms by (auto simp: bind_Some_conv split: if_splits prod.splits)
  moreover have "(index, sn) \<in> set (compactions S i)" using c(2,3) nth_mem by fastforce
  ultimately show ?thesis using that by blast
qed

lemma sysExec_cluster:
  assumes "sysExec (length ps) a S = Some S'" "peers_inv ps S"
  obtains (same) "cl S' = cl S" "submitted S' = submitted S"
  | (moves) b where "exec (length ps) b (cl S) = Some (cl S')" "set (submitted S') = set (submitted S) \<union> commandsIn b"
proof (cases a)
  case (Internal b)
  moreover have "internal b \<Longrightarrow> commandsIn b = {}" by (cases b) auto
  ultimately show ?thesis using assms(1) by (intro moves [of b]) (auto simp: bind_Some_conv split: if_splits)
next
  case (SubmitTo i cmd)
  with assms(1) have "sysExec (length ps) (SubmitTo i cmd) S = Some S'" by simp
  then show ?thesis by (rule sysExec_submit) (auto intro: same moves [of "Command i cmd"])
next
  case (Compaction i k)
  with assms(1) have "sysExec (length ps) (Compaction i k) S = Some S'" by simp
  then show ?thesis
  proof (rule sysExec_compaction)
    fix index sn rf
    assume c: "i < length ps" "(index, sn) \<in> set (compactions S i)" "Snapshot index sn (nodes (cl S) i) = Some rf"
      "S' = S\<lparr>cl := setNode i rf (cl S), compactions := (compactions S)(i := dropNth k (compactions S i))\<rparr>"
    from peers_invD(3) [OF assms(2) c(1,2)] c show ?thesis by (intro moves [of "Compact i index sn"]) auto
  qed
next
  case (Reboot i now)
  with assms(1) show ?thesis by (intro moves [of "Restart i now"]) (auto simp: Let_def split: if_splits)
qed (use assms(1) in \<open>auto simp: Let_def bind_Some_conv intro: same split: if_splits prod.splits\<close>)

lemma sysExec_steps:
  assumes "sysExec (length ps) a S = Some S'" "peers_inv ps S"
  shows "(step (length ps))\<^sup>*\<^sup>* (cl S) (cl S')" "set (submitted S) \<subseteq> set (submitted S')"
  using sysExec_cluster [OF assms] exec_step by (metis rtranclp.rtrancl_refl r_into_rtranclp, metis Un_upper1 order_refl)

text \<open>What the store asks to compact stays within what its peer has applied.\<close>

lemma sysExec_compactions:
  assumes "sysExec (length ps) a S = Some S'" "peers_inv ps S" "\<forall>i. waiters_ok (stores S i)" "j < length ps"
    and "(index, sn) \<in> set (compactions S' j)"
  shows "index \<le> lastApplied (nodes (cl S') j)"
proof (cases a)
  case (Internal b)
  then have "exec (length ps) b (cl S) = Some (cl S')" "internal b" "compactions S' = compactions S"
    using assms(1) by (auto simp: bind_Some_conv split: if_splits)
  then show ?thesis using exec_lastApplied [of "length ps" b "cl S" "cl S'" j] peers_invD(3) [OF assms(2,4)] assms(5) by fastforce
next
  case (SubmitTo i cmd)
  with assms(1) have "sysExec (length ps) (SubmitTo i cmd) S = Some S'" by simp
  then have "compactions S' = compactions S \<and> lastApplied (nodes (cl S') j) = lastApplied (nodes (cl S) j)"
    by (rule sysExec_submit) (use snd_Start_draws [of cmd "nodes (cl S) i"] in \<open>auto simp: setNode_def slot_kept_def\<close>)
  then show ?thesis using peers_invD(3) [OF assms(2,4)] assms(5) by simp
next
  case (Take i ks)
  with assms(1) have "sysExec (length ps) (Take i ks) S = Some S'" by simp
  then show ?thesis
  proof (rule sysExec_take)
    fix msg req st
    assume t: "i < length ps" "taken S i < length (delivered (cl S) i)" "msg = delivered (cl S) i ! taken S i"
      "applyLoop_msg ks msg (stores S i) = Some (req, st)"
      "S' = S\<lparr>stores := (stores S)(i := st), taken := (taken S)(i := taken S i + 1),
             compactions := (compactions S)(i := compactions S i @ (case req of None \<Rightarrow> [] | Some r \<Rightarrow> [r])),
             history := (if SnapshotValid msg then history S else (CommandIndex msg, amCommand msg) # history S),
             pos := (pos S)(i := indexOf msg)\<rparr>"
    have "message_origin (set (submitted S)) (lastApplied (nodes (cl S) i)) msg"
      using peers_invD(2) [OF assms(2)] t(1,2,3) by (auto simp: origin_def)
    then have "k \<le> lastApplied (nodes (cl S) i)" if "req = Some (k, sn)" for k sn
      using appliedD(7) [OF applyLoop_msg_applied [OF _ t(4)] that] assms(3) by (simp add: message_origin_def)
    with t(5) assms(5) peers_invD(3) [OF assms(2,4)] show ?thesis by (auto split: if_splits option.splits)
  qed
next
  case (Compaction i k)
  with assms(1) have "sysExec (length ps) (Compaction i k) S = Some S'" by simp
  then show ?thesis
  proof (rule sysExec_compaction)
    fix k' sn' rf
    assume c: "Snapshot k' sn' (nodes (cl S) i) = Some rf"
      "S' = S\<lparr>cl := setNode i rf (cl S), compactions := (compactions S)(i := dropNth k (compactions S i))\<rparr>"
    have "(index, sn) \<in> set (compactions S j)" using assms(5) c(2) dropNth_subset [of k "compactions S i"] by (auto split: if_splits)
    moreover have "lastApplied (nodes (cl S) j) \<le> lastApplied (nodes (cl S') j)"
      using Snapshot_draws [OF c(1)] by (simp add: c(2) setNode_def draws_def)
    ultimately show ?thesis using peers_invD(3) [OF assms(2,4)] by fastforce
  qed
qed (use assms(1,5) peers_invD(3) [OF assms(2,4)] in
    \<open>auto simp: Let_def bind_Some_conv setNode_def forget_def split: if_splits prod.splits\<close>)

lemma sysExec_peers:
  assumes "sysExec (length ps) a S = Some S'" "peers_inv ps S" "\<forall>i. waiters_ok (stores S i)"
  shows "peers_inv ps S'"
proof -
  note inv = peers_invD [OF assms(2)]
  have "reachable ps (cl S')" using steps_reachable [OF sysExec_steps(1) [OF assms(1,2)] inv(1)] .
  moreover have "origin (length ps) (set (submitted S')) (cl S')"
    using sysExec_cluster [OF assms(1,2)] exec_origin inv(2,4) by metis
  ultimately show ?thesis using sysExec_compactions [OF assms] unfolding peers_inv_def by blast
qed

end
