(* ===== verification/System_Writes.thy ===== *)
theory System_Writes
  imports System
begin

text \<open>
  The callers of \<open>Submit\<close> in a system of whole nodes: each waits on a channel of its own, and is told
  that its command was applied only when some peer handed over a command with its request id at its
  index.  With the safety of Raft this makes acknowledged writes final.
\<close>

section \<open>Waiting callers\<close>

text \<open>At some moment of the run the peer \<open>i\<close> handed over, at \<open>index\<close>, a command with the request id \<open>r\<close>.\<close>

definition evidence :: "Peer list \<Rightarrow> system \<Rightarrow> nat \<Rightarrow> int \<Rightarrow> string \<Rightarrow> bool" where
  "evidence ps S i index r \<longleftrightarrow> (\<exists>s msg c. reachable ps s \<and> (step (length ps))\<^sup>*\<^sup>* s (cl S) \<and> msg \<in> set (delivered s i)
     \<and> CommandValid msg \<and> CommandIndex msg = index \<and> amCommand msg = Some c \<and> ReqID c = r \<and> c \<in> set (submitted S))"

text \<open>
  A waiting caller has a channel of its own; when \<open>nil\<close> is on it there is evidence for its command.
  Every registered waiter is a waiting caller.
\<close>

definition wait_ok :: "Peer list \<Rightarrow> system \<Rightarrow> nat \<Rightarrow> int \<times> nat \<times> Cmd \<Rightarrow> bool" where
  "wait_ok ps S i w \<longleftrightarrow> (case w of (index, ch, cmd) \<Rightarrow>
     cmd \<in> set (submitted S) \<and> ch < nextChan (stores S i)
     \<and> (chans (stores S i) ch = [] \<or> chans (stores S i) ch = [None] \<and> evidence ps S i index (ReqID cmd)
        \<or> (\<exists>e. chans (stores S i) ch = [Some e]))
     \<and> (\<forall>k e. pending (stores S i) k = Some e \<longrightarrow> peCh e = ch \<longrightarrow> k = index \<and> peReqID e = ReqID cmd))"

definition chanOf :: "int \<times> nat \<times> Cmd \<Rightarrow> nat" where
  "chanOf w = fst (snd w)"

definition node_waits :: "Peer list \<Rightarrow> system \<Rightarrow> nat \<Rightarrow> bool" where
  "node_waits ps S i \<longleftrightarrow> waiters_ok (stores S i) \<and> distinct (map chanOf (waits S i))
     \<and> (\<forall>w \<in> set (waits S i). wait_ok ps S i w)
     \<and> (\<forall>k e. pending (stores S i) k = Some e \<longrightarrow> (\<exists>cmd. (k, peCh e, cmd) \<in> set (waits S i)))"

definition answer_ok :: "Peer list \<Rightarrow> system \<Rightarrow> nat \<times> int \<times> Cmd \<times> submit_error option \<Rightarrow> bool" where
  "answer_ok ps S a \<longleftrightarrow> (case a of (i, index, cmd, e) \<Rightarrow>
     cmd \<in> set (submitted S) \<and> (e = None \<longrightarrow> evidence ps S i index (ReqID cmd)))"

definition waits_inv :: "Peer list \<Rightarrow> system \<Rightarrow> bool" where
  "waits_inv ps S \<longleftrightarrow> (\<forall>i. node_waits ps S i) \<and> (\<forall>a \<in> set (answers S). answer_ok ps S a)"

lemma evidence_later:
  assumes "evidence ps S i index r" "(step (length ps))\<^sup>*\<^sup>* (cl S) (cl S')" "set (submitted S) \<subseteq> set (submitted S')"
  shows "evidence ps S' i index r"
  using assms rtranclp_trans [of "step (length ps)"] unfolding evidence_def by blast

lemma answer_ok_later:
  assumes "answer_ok ps S a" "(step (length ps))\<^sup>*\<^sup>* (cl S) (cl S')" "set (submitted S) \<subseteq> set (submitted S')"
  shows "answer_ok ps S' a"
  using assms evidence_later by (auto simp: answer_ok_def)

lemma wait_ok_later:
  assumes "wait_ok ps S i w" "(step (length ps))\<^sup>*\<^sup>* (cl S) (cl S')" "set (submitted S) \<subseteq> set (submitted S')"
    and "chans (stores S' i) (chanOf w) = chans (stores S i) (chanOf w)" "nextChan (stores S i) \<le> nextChan (stores S' i)"
    and "\<And>k e. pending (stores S' i) k = Some e \<Longrightarrow> peCh e = chanOf w \<Longrightarrow> pending (stores S i) k = Some e"
  shows "wait_ok ps S' i w"
proof (cases w)
  case (fields index ch cmd)
  note w = assms(1) [unfolded wait_ok_def fields prod.case]
  have "cmd \<in> set (submitted S')" "ch < nextChan (stores S' i)" using w assms(3,5) by auto
  moreover have "chans (stores S' i) ch = [] \<or> chans (stores S' i) ch = [None] \<and> evidence ps S' i index (ReqID cmd)
      \<or> (\<exists>e. chans (stores S' i) ch = [Some e])"
    using w assms(4) evidence_later [OF _ assms(2,3)] by (auto simp: fields chanOf_def)
  moreover have "k = index \<and> peReqID e = ReqID cmd" if "pending (stores S' i) k = Some e" "peCh e = ch" for k e
    using w assms(6) [OF that(1)] that by (simp add: fields chanOf_def)
  ultimately show ?thesis by (simp add: wait_ok_def fields)
qed

lemma node_waits_later:
  assumes "node_waits ps S i" "(step (length ps))\<^sup>*\<^sup>* (cl S) (cl S')" "set (submitted S) \<subseteq> set (submitted S')"
    and "stores S' i = stores S i" "waits S' i = waits S i"
  shows "node_waits ps S' i"
proof -
  have "wait_ok ps S' i w" if "wait_ok ps S i w" for w using that assms(2,3) by (rule wait_ok_later) (simp_all add: assms(4))
  with assms show ?thesis by (simp add: node_waits_def)
qed

lemma dropNth_distinct:
  assumes "distinct (map f xs)" "k < length xs"
  shows "set (dropNth k xs) = {x \<in> set xs. f x \<noteq> f (xs ! k)}" "distinct (map f (dropNth k xs))"
proof -
  obtain ys y zs where xs: "xs = ys @ y # zs" "length ys = k"
    using id_take_nth_drop [OF assms(2)] assms(2) by (metis length_take min.absorb4)
  with assms(1) show "set (dropNth k xs) = {x \<in> set xs. f x \<noteq> f (xs ! k)}" "distinct (map f (dropNth k xs))"
    by (auto simp: dropNth_def nth_append rev_image_eqI)
qed

lemma node_waits_submit:
  assumes "node_waits ps S i" "Submit_begin cmd rf (stores S i) = (Inr (index, ch), rf', st)"
    and "(step (length ps))\<^sup>*\<^sup>* (cl S) (cl S')" "stores S' i = st" "waits S' i = waits S i @ [(index, ch, cmd)]"
    and "submitted S' = cmd # submitted S"
  shows "node_waits ps S' i"
proof -
  let ?s = "stores S i"
  have st: "ch = nextChan ?s" "st = ?s\<lparr>nextChan := ch + 1, chans := (chans ?s)(ch := []),
      pending := (pending ?s)(index \<mapsto> \<lparr>peCh = ch, peReqID = ReqID cmd\<rparr>)\<rparr>"
    using assms(2) by (auto simp: Submit_begin_def Let_def split: if_splits prod.splits)
  have ok: "waiters_ok ?s" using assms(1) by (simp add: node_waits_def)
  have old: "chanOf w < ch" "wait_ok ps S' i w" if "w \<in> set (waits S i)" for w
  proof -
    from that assms(1) have w: "wait_ok ps S i w" by (simp add: node_waits_def)
    then show "chanOf w < ch" by (auto simp: wait_ok_def chanOf_def st(1))
    then show "wait_ok ps S' i w"
      by (intro wait_ok_later [OF w assms(3)]) (auto simp: assms(4,6) st(2) st(1) [symmetric] split: if_splits)
  qed
  moreover have "wait_ok ps S' i (index, ch, cmd)"
    using waiters_okD(2) [OF ok] by (fastforce simp: wait_ok_def assms(4,6) st)
  moreover have "waiters_ok st" using Submit_begin_ok [OF ok, of cmd rf] assms(2) by simp
  ultimately show ?thesis
    using assms(1) by (fastforce simp: node_waits_def assms(4,5) st(2) chanOf_def split: if_splits)
qed

lemma node_waits_take:
  assumes "node_waits ps S i" "peers_inv ps S" "i < length ps" "msg \<in> set (delivered (cl S) i)"
    and "applyLoop_msg ks msg (stores S i) = Some (req, st)"
    and "cl S' = cl S" "stores S' i = st" "waits S' i = waits S i" "submitted S' = submitted S"
  shows "node_waits ps S' i"
proof -
  have ok: "waiters_ok (stores S i)" using assms(1) by (simp add: node_waits_def)
  note st = appliedD [OF applyLoop_msg_applied [OF ok assms(5)]]
  have msg: "c \<in> set (submitted S) \<and> CommandValid msg" if "amCommand msg = Some c" for c
    using peers_invD(2) [OF assms(2)] assms(3,4) that by (auto simp: origin_def message_origin_def)
  have "wait_ok ps S' i w" if "w \<in> set (waits S i)" for w
  proof -
    obtain index ch cmd where w: "w = (index, ch, cmd)" by (cases w)
    have ok: "wait_ok ps S i w" using that assms(1) by (simp add: node_waits_def)
    show ?thesis
    proof (cases "chans st ch = chans (stores S i) ch")
      case True
      then show ?thesis using st(2,4)
        by (intro wait_ok_later [OF ok]) (auto simp: assms(6,7,9) w chanOf_def)
    next
      case False
      then have "told msg (stores S i) st ch" using st(5) by blast
      moreover have "evidence ps S i index (ReqID cmd)" if "CommandIndex msg = index" "amCommand msg = Some c" "ReqID c = ReqID cmd" for c
        using peers_invD(1) [OF assms(2)] assms(4) msg [OF that(2)] that unfolding evidence_def by blast
      ultimately show ?thesis
        using ok st(2,4) by (fastforce simp: told_def wait_ok_def w assms(7,9) evidence_def assms(6))
    qed
  qed
  with assms(1) st(1,4) show ?thesis by (auto simp: node_waits_def assms(7,8))
qed

lemma node_waits_leave:
  assumes "node_waits ps S i" "k < length (waits S i)" "waits S i ! k = (index, ch, cmd)"
    and "cl S' = cl S" "submitted S' = submitted S" "waits S' i = dropNth k (waits S i)" "waiters_ok (stores S' i)"
    and "nextChan (stores S' i) = nextChan (stores S i)" "\<And>c. c \<noteq> ch \<Longrightarrow> chans (stores S' i) c = chans (stores S i) c"
    and "\<And>j e. pending (stores S' i) j = Some e \<Longrightarrow> pending (stores S i) j = Some e \<and> peCh e \<noteq> ch"
  shows "node_waits ps S' i"
proof -
  have d: "distinct (map chanOf (waits S i))" using assms(1) by (simp add: node_waits_def)
  have "chanOf (waits S i ! k) = ch" by (simp add: assms(3) chanOf_def)
  note left = dropNth_distinct [OF d assms(2), unfolded this]
  have "wait_ok ps S' i w" if "w \<in> set (waits S i)" "chanOf w \<noteq> ch" for w
  proof -
    have "wait_ok ps S i w" using that(1) assms(1) by (simp add: node_waits_def)
    then show ?thesis by (rule wait_ok_later) (use assms(4,5,8) assms(9) [OF that(2)] assms(10) in simp_all)
  qed
  moreover have "\<exists>cmd. (j, peCh e, cmd) \<in> set (waits S' i)" if "pending (stores S' i) j = Some e" for j e
  proof -
    note p = assms(10) [OF that]
    obtain cmd' where "(j, peCh e, cmd') \<in> set (waits S i)" using assms(1) p unfolding node_waits_def by blast
    then show ?thesis using p left(1) by (auto simp: assms(6) chanOf_def)
  qed
  ultimately show ?thesis using left assms(6,7) by (simp add: node_waits_def)
qed

lemma pending_of_wait:
  assumes "node_waits ps S i" "(index, ch, cmd) \<in> set (waits S i)" "pending (stores S i) j = Some e" "peCh e = ch"
  shows "j = index"
proof -
  have "wait_ok ps S i (index, ch, cmd)" using assms(1,2) by (simp add: node_waits_def)
  with assms(3,4) show ?thesis by (simp add: wait_ok_def)
qed

lemma node_waits_answer:
  assumes "node_waits ps S i" "k < length (waits S i)" "waits S i ! k = (index, ch, cmd)"
    and "chRecv ch (stores S i) = Some (e, st)" "cl S' = cl S" "submitted S' = submitted S"
    and "stores S' i = st" "waits S' i = dropNth k (waits S i)"
  shows "node_waits ps S' i"
proof -
  obtain ms where c: "chans (stores S i) ch = e # ms" "st = (stores S i)\<lparr>chans := (chans (stores S i))(ch := ms)\<rparr>"
    using assms(4) by (auto simp: chRecv_def split: list.splits)
  have ok: "waiters_ok (stores S i)" using assms(1) by (simp add: node_waits_def)
  then have "waiters_ok st" using assms(4) by (rule chRecv_ok)
  moreover have "peCh f \<noteq> ch" if "pending (stores S i) l = Some f" for l f using waiters_okD(1) [OF ok that] c(1) by auto
  ultimately show ?thesis by (intro node_waits_leave [OF assms(1-3,5,6,8)]) (simp_all add: assms(7) c(2))
qed

lemma node_waits_expire:
  assumes "node_waits ps S i" "k < length (waits S i)" "waits S i ! k = (index, ch, cmd)"
    and "cl S' = cl S" "submitted S' = submitted S"
    and "stores S' i = snd (Submit_timeout index (stores S i))" "waits S' i = dropNth k (waits S i)"
  shows "node_waits ps S' i"
proof -
  have ok: "waiters_ok (stores S i)" using assms(1) by (simp add: node_waits_def)
  have "(index, ch, cmd) \<in> set (waits S i)" using assms(2,3) nth_mem by fastforce
  then have "peCh f \<noteq> ch" if "pending (stores S i) l = Some f" "l \<noteq> index" for l f
    using pending_of_wait [OF assms(1)] that by blast
  then show ?thesis using waiters_ok_drop [OF ok, of index]
    by (intro node_waits_leave [OF assms(1-5,7)]) (auto simp: assms(6) Submit_timeout_def split: if_splits)
qed

lemma sysExec_node_waits:
  assumes "sysExec (length ps) a S = Some S'" "peers_inv ps S" "\<forall>i. node_waits ps S i"
  shows "node_waits ps S' j"
proof -
  note steps = sysExec_steps [OF assms(1,2)]
  have same: "node_waits ps S' j" if "stores S' j = stores S j" "waits S' j = waits S j"
    using node_waits_later [OF _ steps] that assms(3) by blast
  show ?thesis
  proof (cases a)
    case (Internal b)
    with assms(1) same show ?thesis by (auto simp: bind_Some_conv split: if_splits)
  next
    case (SubmitTo i cmd)
    with assms(1) have "sysExec (length ps) (SubmitTo i cmd) S = Some S'" by simp
    then show ?thesis
    proof (rule sysExec_submit)
      fix index ch rf st
      assume "Submit_begin cmd (nodes (cl S) i) (stores S i) = (Inr (index, ch), rf, st)"
        "S' = S\<lparr>cl := setNode i rf (cl S), stores := (stores S)(i := st),
               waits := (waits S)(i := waits S i @ [(index, ch, cmd)]), submitted := cmd # submitted S\<rparr>"
      with same node_waits_submit [of ps S i cmd "nodes (cl S) i" index ch rf st S', OF _ _ steps(1)] assms(3) show ?thesis
        by (cases "i = j") simp_all
    qed (use assms(3) in simp)
  next
    case (Take i ks)
    with assms(1) have "sysExec (length ps) (Take i ks) S = Some S'" by simp
    then show ?thesis
    proof (rule sysExec_take)
      fix msg req st
      assume t: "i < length ps" "taken S i < length (delivered (cl S) i)" "msg = delivered (cl S) i ! taken S i"
        "applyLoop_msg ks msg (stores S i) = Some (req, st)"
        "S' = S\<lparr>stores := (stores S)(i := st), taken := (taken S)(i := taken S i + 1),
               compactions := (compactions S)(i := compactions S i @ (case req of None \<Rightarrow> [] | Some r \<Rightarrow> [r])),
               history := (if SnapshotValid msg then history S else (CommandIndex msg, amCommand msg) # history S),
               pos := (pos S)(i := indexOf msg)\<rparr>"
      with same node_waits_take [OF _ assms(2) t(1) _ t(4), of S'] assms(3) show ?thesis by (cases "i = j") simp_all
    qed
  next
    case (Answer i k)
    then obtain index ch cmd e st where w: "k < length (waits S i)" "waits S i ! k = (index, ch, cmd)"
      "chRecv ch (stores S i) = Some (e, st)" "cl S' = cl S" "submitted S' = submitted S"
      "stores S' = (stores S)(i := st)" "waits S' = (waits S)(i := dropNth k (waits S i))"
      using assms(1) by (auto simp: bind_Some_conv split: if_splits prod.splits)
    with same node_waits_answer [OF _ w(1-5)] assms(3) show ?thesis by (cases "i = j") simp_all
  next
    case (Expire i k)
    then obtain index ch cmd where w: "k < length (waits S i)" "waits S i ! k = (index, ch, cmd)"
      "cl S' = cl S" "submitted S' = submitted S" "stores S' = (stores S)(i := snd (Submit_timeout index (stores S i)))"
      "waits S' = (waits S)(i := dropNth k (waits S i))"
      using assms(1) by (auto split: if_splits prod.splits)
    with same node_waits_expire [OF _ w(1-4)] assms(3) show ?thesis by (cases "i = j") simp_all
  next
    case (Compaction i k)
    with assms(1) same show ?thesis by (auto simp: bind_Some_conv split: if_splits prod.splits)
  next
    case (Reboot i now)
    have "node_waits ps S' j" if "stores S' j = makeStore True pr" "waits S' j = []" for pr
      using that waiters_ok_make [of True pr] by (simp add: node_waits_def) (simp add: makeStore_def Let_def split: option.split)
    with Reboot assms(1) same show ?thesis by (cases "i = j") (auto simp: Let_def split: if_splits)
  qed
qed

lemma sysExec_answers:
  assumes "sysExec (length ps) a S = Some S'" "peers_inv ps S" "waits_inv ps S" "x \<in> set (answers S')"
  shows "answer_ok ps S' x"
proof -
  note steps = sysExec_steps [OF assms(1,2)]
  show ?thesis
  proof (cases "x \<in> set (answers S)")
    case True
    then show ?thesis using assms(3) answer_ok_later [OF _ steps] by (simp add: waits_inv_def)
  next
    case False
    then obtain i k index ch cmd e where x: "x = (i, index, cmd, e)" "k < length (waits S i)" "waits S i ! k = (index, ch, cmd)"
      "e = None \<Longrightarrow> \<exists>st. chRecv ch (stores S i) = Some (None, st)"
      using assms(1,4) by (cases a) (auto simp: Let_def bind_Some_conv Submit_timeout_def split: if_splits prod.splits sum.splits)
    have "(index, ch, cmd) \<in> set (waits S i)" using x(2,3) nth_mem by fastforce
    then have "wait_ok ps S i (index, ch, cmd)" using assms(3) by (simp add: waits_inv_def node_waits_def)
    then have "answer_ok ps S x" using x(1,4) by (auto simp: wait_ok_def answer_ok_def chRecv_def split: list.splits)
    then show ?thesis using answer_ok_later [OF _ steps] by blast
  qed
qed

lemma sysReachable_inv: "sysReachable ps S \<Longrightarrow> peers_inv ps S \<and> waits_inv ps S"
proof (induction rule: sysReachable.induct)
  case started
  have "origin (length ps) {} (boot ps)" by (rule boot_origin)
  then show ?case
    using waiters_ok_make [of True "Some MakePersister"]
    by (simp add: peers_inv_def waits_inv_def node_waits_def start_def reachable.booted)
      (simp add: makeStore_def MakePersister_def ReadSnapshot_def)
next
  case (moved S a S')
  then have w: "\<forall>i. node_waits ps S i" "\<forall>i. waiters_ok (stores S i)" by (auto simp: waits_inv_def node_waits_def)
  from moved sysExec_peers [OF moved.hyps(2) _ w(2)] sysExec_node_waits [OF moved.hyps(2) _ w(1)]
    sysExec_answers [OF moved.hyps(2)] show ?case by (simp add: waits_inv_def)
qed


section \<open>Runs\<close>

lemma sysRun_append: "sysRun n (as @ bs) S = Option.bind (sysRun n as S) (sysRun n bs)"
  by (induction as arbitrary: S) (auto split: bind_splits)

definition sysStep :: "nat \<Rightarrow> system \<Rightarrow> system \<Rightarrow> bool" where
  "sysStep n S S' \<longleftrightarrow> (\<exists>a. sysExec n a S = Some S')"

lemma sysSteps:
  assumes "(sysStep (length ps))\<^sup>*\<^sup>* S S'" "sysReachable ps S"
  shows "sysReachable ps S' \<and> (step (length ps))\<^sup>*\<^sup>* (cl S) (cl S')"
  using assms
proof (induction rule: rtranclp_induct)
  case (step S1 S2)
  then obtain a where a: "sysExec (length ps) a S1 = Some S2" "sysReachable ps S1" by (auto simp: sysStep_def)
  then have "(Raft_Cluster.step (length ps))\<^sup>*\<^sup>* (cl S1) (cl S2)" using sysExec_steps(1) sysReachable_inv by blast
  with step a show ?case using sysReachable.moved by (meson rtranclp_trans)
qed simp


section \<open>Properties\<close>

text \<open>
  C2: An acknowledged write is final.  When a caller of \<open>Submit\<close> was answered without an error for
  its command at an index, every command that any node's store is ever given at that index, at the
  same moment or later, is that command, if no two submitted commands have the same request id:
  whatever messages are lost or late, whichever leaders come and whichever nodes restart from their
  persisters.
\<close>

theorem acknowledged_write_is_final:
  assumes "sysReachable ps S" and "(i, index, cmd, None) \<in> set (answers S)" and "inj_on ReqID (set (submitted S))"
    and "(sysStep (length ps))\<^sup>*\<^sup>* S S'" and "msg \<in> set (delivered (cl S') j)" and "CommandValid msg" and "CommandIndex msg = index"
  shows "amCommand msg = Some cmd"
proof -
  have "answer_ok ps S (i, index, cmd, None)" using sysReachable_inv [OF assms(1)] assms(2) by (auto simp: waits_inv_def)
  then obtain s m c where e: "reachable ps s" "(step (length ps))\<^sup>*\<^sup>* s (cl S)" "m \<in> set (delivered s i)" "CommandValid m"
    "CommandIndex m = index" "amCommand m = Some c" "ReqID c = ReqID cmd" "c \<in> set (submitted S)" "cmd \<in> set (submitted S)"
    by (auto simp: answer_ok_def evidence_def)
  have "c = cmd" using assms(3) e(7,8,9) by (auto dest: inj_onD)
  have "(step (length ps))\<^sup>*\<^sup>* s (cl S')" using e(2) sysSteps [OF assms(4,1)] by (meson rtranclp_trans)
  from deliveries_agree [OF e(1) this e(3) assms(5) e(4) assms(6)] e assms(7) \<open>c = cmd\<close> show ?thesis by simp
qed

text \<open>Three nodes; the leader's caller is answered, and a second node is given the command.\<close>

definition ackCall :: "int \<Rightarrow> Cmd AppendEntriesArgs" where
  "ackCall k = \<lparr>aeTerm = 1, aeLeaderId = 0, aePrevLogIndex = k, aePrevLogTerm = k,
     aeEntries = (if k = 0 then [\<lparr>eTerm = 1, eCommand = Some (upsertCmd ''r1'' ''a'')\<rparr>] else []), aeLeaderCommit = k\<rparr>"

definition ackRun :: "sys_act list" where
  "ackRun = map Internal [Timeout 0 400 300, Vote 0 1 1 401, VoteReply 0 1 1] @ [SubmitTo 0 (upsertCmd ''r1'' ''a'')]
     @ map Internal [Heartbeat 0, HeartbeatPeer 0 (1, 0, 0) 1, Append 0 1 (ackCall 0) 402,
         AppendReply 0 1 (ackCall 0) (aeReply 1 True (- 1) 0), ApplyOuter 0] @ [Take 0 [1], Answer 0 0]"

definition followRun :: "sys_act list" where
  "followRun = map Internal [Heartbeat 0, HeartbeatPeer 0 (1, 0, 1) 1, Append 0 1 (ackCall 1) 403, ApplyOuter 1]"

text \<open>States of stores hold maps, whose equality is not computed; no sample run needs it.\<close>

lemma storeState_equal [code]:
  "HOL.equal (a :: 'z::equal storeState_ext) b = Code.abort (STR ''equality of maps'') (\<lambda>_. HOL.equal a b)"
  by simp

lemma ack_sample:
  "map_option (\<lambda>S. (answers S, submitted S)) (sysRun 3 ackRun (start threePeers))
     = Some ([(0, 1, upsertCmd ''r1'' ''a'', None)], [upsertCmd ''r1'' ''a''])"
  by code_simp

lemma follow_sample:
  "map_option (\<lambda>S. delivered (cl S) 1) (Option.bind (sysRun 3 ackRun (start threePeers)) (sysRun 3 followRun))
     = Some [commandMsg (Some (upsertCmd ''r1'' ''a'')) 1]"
  by code_simp

lemma sysRun_steps: "sysRun n as S = Some S' \<Longrightarrow> (sysStep n)\<^sup>*\<^sup>* S S'"
  by (induction as arbitrary: S)
    (auto simp: bind_Some_conv intro: converse_rtranclp_into_rtranclp [of "sysStep n"] iffD2 [OF sysStep_def])

theorem acknowledged_write_is_final_witness:
  "\<exists>S S' msg. sysReachable threePeers S \<and> (0, 1, upsertCmd ''r1'' ''a'', None) \<in> set (answers S) \<and> (sysStep 3)\<^sup>*\<^sup>* S S'
     \<and> msg \<in> set (delivered (cl S') 1) \<and> CommandIndex msg = 1 \<and> amCommand msg = Some (upsertCmd ''r1'' ''a'')"
proof -
  obtain S where S: "sysRun 3 ackRun (start threePeers) = Some S" "answers S = [(0, 1, upsertCmd ''r1'' ''a'', None)]"
    "submitted S = [upsertCmd ''r1'' ''a'']"
    using ack_sample by auto
  obtain S' where S': "sysRun 3 followRun S = Some S'" "delivered (cl S') 1 = [commandMsg (Some (upsertCmd ''r1'' ''a'')) 1]"
    using follow_sample S(1) by auto
  have r: "sysReachable threePeers S"
    using sysRun_reachable [of threePeers ackRun "start threePeers" S] S(1) sysReachable.started by (simp add: threePeers_def)
  have "(sysStep (length threePeers))\<^sup>*\<^sup>* S S'" using sysRun_steps [OF S'(1)] by (simp add: threePeers_def)
  from acknowledged_write_is_final [OF r _ _ this, of 0 1 "upsertCmd ''r1'' ''a''" "commandMsg (Some (upsertCmd ''r1'' ''a'')) 1" 1]
  have "amCommand (commandMsg (Some (upsertCmd ''r1'' ''a'')) 1 :: storeMsg) = Some (upsertCmd ''r1'' ''a'')"
    by (simp add: S S' commandMsg_def)
  with r S S' sysRun_steps [OF S'(1)] show ?thesis
    by (intro exI [of _ S] exI [of _ S'] exI [of _ "commandMsg (Some (upsertCmd ''r1'' ''a'')) 1"]) (simp add: commandMsg_def)
qed

text \<open>
  C14: Nothing is made up: every command a store is given was submitted to some node, and a store is
  given it at an index that its peer has applied.
\<close>

theorem applied_commands_were_submitted:
  assumes "sysReachable ps S" and "i < length ps" and "msg \<in> set (delivered (cl S) i)" and "amCommand msg = Some c"
  shows "c \<in> set (submitted S) \<and> CommandIndex msg \<le> lastApplied (nodes (cl S) i)"
  using peers_invD(2) [of ps S] sysReachable_inv [OF assms(1)] assms(2-4) by (auto simp: origin_def message_origin_def)

theorem applied_commands_were_submitted_witness:
  "\<exists>S. sysReachable threePeers S \<and> delivered (cl S) 1 \<noteq> [] \<and> upsertCmd ''r1'' ''a'' \<in> set (submitted S)"
proof -
  obtain S where S: "sysRun 3 (ackRun @ followRun) (start threePeers) = Some S"
    "delivered (cl S) 1 = [commandMsg (Some (upsertCmd ''r1'' ''a'')) 1]"
    using follow_sample sysRun_append [of 3 ackRun followRun "start threePeers"] by auto
  have r: "sysReachable threePeers S"
    using sysRun_reachable [of threePeers _ "start threePeers" S] S(1) sysReachable.started by (simp add: threePeers_def)
  have "upsertCmd ''r1'' ''a'' \<in> set (submitted S)"
    using applied_commands_were_submitted [OF r, of 1 "commandMsg (Some (upsertCmd ''r1'' ''a'')) 1"] S(2)
    by (simp add: threePeers_def commandMsg_def)
  with r S(2) show ?thesis by auto
qed

text \<open>
  C15: A running node neither blocks nor panics between its peer and its store: the store can always
  take the next message that its peer hands over, and every compaction it asks for succeeds and is
  one that the model of the cluster allows.
\<close>

theorem node_never_stuck:
  assumes "sysReachable ps S" and "i < length ps"
  shows "reachable ps (cl S)
    \<and> (taken S i < length (delivered (cl S) i) \<longrightarrow> set (map fst (waits S i)) \<subseteq> set ks \<longrightarrow> (\<exists>S'. sysExec (length ps) (Take i ks) S = Some S'))
    \<and> (k < length (compactions S i) \<longrightarrow> (\<exists>S'. sysExec (length ps) (Compaction i k) S = Some S'))"
proof -
  have inv: "peers_inv ps S" and ok: "waiters_ok (stores S i)"
    using sysReachable_inv [OF assms(1)] by (auto simp: waits_inv_def node_waits_def)
  have "\<exists>S'. sysExec (length ps) (Take i ks) S = Some S'"
    if "taken S i < length (delivered (cl S) i)" "set (map fst (waits S i)) \<subseteq> set ks"
    using applyLoop_msg_ok [OF ok, of ks "delivered (cl S) i ! taken S i"] that assms(2) by (auto simp: Let_def)
  moreover have "\<exists>S'. sysExec (length ps) (Compaction i k) S = Some S'" if "k < length (compactions S i)"
  proof -
    obtain index sn where c: "compactions S i ! k = (index, sn)" by fastforce
    then have "index \<le> lastApplied (nodes (cl S) i)" using peers_invD(3) [OF inv assms(2), of index sn] that nth_mem by metis
    then obtain rf where "Snapshot index sn (nodes (cl S) i) = Some rf"
      using Snapshot_wf [of "nodes (cl S) i" index sn] peers_invD(4) [OF inv assms(2)] by (auto simp: saved_def)
    with c that assms(2) show ?thesis by simp
  qed
  ultimately show ?thesis using peers_invD(1) [OF inv] by blast
qed

theorem node_never_stuck_witness:
  "\<exists>S S'. sysReachable threePeers S \<and> sysExec 3 (Take 1 []) S = Some S'"
proof -
  have "map_option (\<lambda>S. (length (delivered (cl S) 1), taken S 1, waits S 1)) (sysRun 3 (ackRun @ followRun) (start threePeers))
      = Some (1, 0, [])"
    by code_simp
  then obtain S where S: "sysRun 3 (ackRun @ followRun) (start threePeers) = Some S" "length (delivered (cl S) 1) = 1"
    "taken S 1 = 0" "waits S 1 = []" by auto
  have r: "sysReachable threePeers S"
    using sysRun_reachable [of threePeers _ "start threePeers" S] S(1) sysReachable.started by (simp add: threePeers_def)
  with node_never_stuck [OF r, of 1 "[]"] S show ?thesis by (auto simp: threePeers_def)
qed

end
