(* ===== verification/System_Stores.thy ===== *)
theory System_Stores
  imports System_Writes
begin

text \<open>
  What the stores of a system of whole nodes hold.  The invariant \<open>stores_inv\<close> follows a snapshot from
  the store that took it through the persister, the requests between peers and the messages to another
  store, and the commands from the log to each store; it holds as long as snapshots arrive in time
  (\<open>timely\<close>), which \<open>Replication\<close> shows the program does not ensure.
\<close>

section \<open>The sequence of commands\<close>

text \<open>The store after the commands at the indices \<open>1..k\<close>.\<close>

definition cmdAt :: "(int \<times> Cmd option) list \<Rightarrow> int \<Rightarrow> Cmd list" where
  "cmdAt h k = (case map_of h k of Some (Some c) \<Rightarrow> [c] | _ \<Rightarrow> [])"

definition replay :: "(int \<times> Cmd option) list \<Rightarrow> int \<Rightarrow> Store" where
  "replay h k = fold applySwitch (concat (map (cmdAt h) [1..k])) (makeStore True None)"

definition covered :: "(int \<times> Cmd option) list \<Rightarrow> int \<Rightarrow> bool" where
  "covered h k \<longleftrightarrow> 0 \<le> k \<and> (\<forall>j. 0 < j \<and> j \<le> k \<longrightarrow> map_of h j \<noteq> None)"

text \<open>A history grows by an entry that does not contradict it.\<close>

definition grown :: "(int \<times> Cmd option) list \<Rightarrow> (int \<times> Cmd option) list \<Rightarrow> bool" where
  "grown h h' \<longleftrightarrow> map_of h \<subseteq>\<^sub>m map_of h'"

lemma grown_refl [simp]: "grown h h" by (simp add: grown_def)

lemma grown_Cons: "(\<And>w. map_of h j = Some w \<Longrightarrow> w = v) \<Longrightarrow> grown h ((j, v) # h)"
  by (auto simp: grown_def map_le_def)

lemma covered_grown: "covered h k \<Longrightarrow> grown h h' \<Longrightarrow> covered h' k"
  unfolding covered_def grown_def map_le_def by (metis domIff)

lemma replay_grown: "covered h k \<Longrightarrow> grown h h' \<Longrightarrow> replay h' k = replay h k"
proof -
  assume *: "covered h k" "grown h h'"
  have "cmdAt h' j = cmdAt h j" if "j \<in> set [1..k]" for j
    using * that by (force simp: cmdAt_def covered_def grown_def map_le_def)
  then have "map (cmdAt h') [1..k] = map (cmdAt h) [1..k]" by (rule map_cong [OF refl])
  then show ?thesis unfolding replay_def by (rule arg_cong [where f = "\<lambda>cs. fold applySwitch (concat cs) (makeStore True None)"])
qed

lemma replay_0: "replay h 0 = makeStore True None"
  by (simp add: replay_def)

lemma replay_next: "0 \<le> k \<Longrightarrow> replay h (k + 1) = fold applySwitch (cmdAt h (k + 1)) (replay h k)"
  using upto_rec2 [of 1 "k + 1"] by (simp add: replay_def)

definition snapAt :: "(int \<times> Cmd option) list \<Rightarrow> int \<Rightarrow> storeState list" where
  "snapAt h k = encodeSnapshot (replay h k)"

lemma snapAt_grown: "covered h k \<Longrightarrow> grown h h' \<Longrightarrow> snapAt h' k = snapAt h k"
  using replay_grown [of h k h'] by (simp add: snapAt_def)

lemma encodeSnapshot_view: "storeView s = storeView s' \<Longrightarrow> encodeSnapshot s = encodeSnapshot s'"
  by (simp add: encodeSnapshot_def storeView_def)

text \<open>A snapshot, in a message, a request, a persister or on its way to the peer, that is what it should be.\<close>

definition snap_ok :: "(int \<times> Cmd option) list \<Rightarrow> int \<Rightarrow> storeState list \<Rightarrow> bool" where
  "snap_ok h k sn \<longleftrightarrow> 0 < k \<and> covered h k \<and> sn = snapAt h k"

lemma snap_ok_grown: "snap_ok h k sn \<Longrightarrow> grown h h' \<Longrightarrow> snap_ok h' k sn"
  using snapAt_grown [of h k h'] covered_grown [of h k h'] by (simp add: snap_ok_def)

definition slot_ok :: "(int \<times> Cmd option) list \<Rightarrow> storeRaft \<Rightarrow> bool" where
  "slot_ok h rf \<longleftrightarrow> lastIncludedIndex rf = 0 \<and> ReadSnapshot (persister rf) = []
     \<or> snap_ok h (lastIncludedIndex rf) (ReadSnapshot (persister rf))"


section \<open>What is on its way to a store\<close>

text \<open>The messages continue the store's state at index \<open>p\<close> and end at index \<open>e\<close>.\<close>

fun chain :: "(int \<times> Cmd option) list \<Rightarrow> int \<Rightarrow> storeMsg list \<Rightarrow> int \<Rightarrow> bool" where
  "chain h p [] e \<longleftrightarrow> p = e"
| "chain h p (m # ms) e \<longleftrightarrow>
     (if SnapshotValid m then p \<le> SnapshotIndex m \<and> snap_ok h (SnapshotIndex m) (amSnapshot m)
      else CommandValid m \<and> CommandIndex m = p + 1) \<and> chain h (indexOf m) ms e"

lemma chain_append: "chain h p (ms @ ms') e \<longleftrightarrow> (\<exists>q. chain h p ms q \<and> chain h q ms' e)"
  by (induction ms arbitrary: p) auto

lemma chain_grown: "chain h p ms e \<Longrightarrow> grown h h' \<Longrightarrow> chain h' p ms e"
  by (induction ms arbitrary: p) (auto intro: snap_ok_grown)

lemma chain_le: "chain h p ms e \<Longrightarrow> p \<le> e"
  by (induction ms arbitrary: p) (fastforce simp: indexOf_def split: if_splits)+

text \<open>
  One node: its store is at \<open>pos\<close>, the messages not yet taken lead on from there to the position of
  the apply loop, or to a snapshot that is still to be handed over.
\<close>

definition lane :: "(int \<times> Cmd option) list \<Rightarrow> (Cmd, storeState) cluster \<Rightarrow> nat \<Rightarrow> nat \<Rightarrow> int \<Rightarrow> bool" where
  "lane h s i t p \<longleftrightarrow> t \<le> length (delivered s i) \<and>
     (case pendingSnapshot (nodes s i) of
        None \<Rightarrow> chain h p (drop t (delivered s i)) (lastApplied (nodes s i))
      | Some msg \<Rightarrow> \<not> inGap s i \<and> SnapshotValid msg \<and> \<not> CommandValid msg \<and> SnapshotIndex msg = lastApplied (nodes s i)
          \<and> snap_ok h (SnapshotIndex msg) (amSnapshot msg)
          \<and> (\<exists>e \<le> lastApplied (nodes s i). chain h p (drop t (delivered s i)) e))"

definition peer_ok :: "(int \<times> Cmd option) list \<Rightarrow> (Cmd, storeState) cluster \<Rightarrow> nat \<Rightarrow> nat \<Rightarrow> int \<Rightarrow> bool" where
  "peer_ok h s i t p \<longleftrightarrow> slot_ok h (nodes s i) \<and> lane h s i t p"

lemma lane_grown: "lane h s i t p \<Longrightarrow> grown h h' \<Longrightarrow> lane h' s i t p"
  by (auto simp: lane_def intro: chain_grown snap_ok_grown split: option.splits)

lemma lane_end: "lane h s i t p \<Longrightarrow> t \<le> length (delivered s i) \<and> (\<exists>e \<le> lastApplied (nodes s i). chain h p (drop t (delivered s i)) e)"
  by (auto simp: lane_def split: option.splits)

lemma lane_kept:
  assumes "lane h s i t p" "lastApplied (nodes s' i) = lastApplied (nodes s i)"
    "pendingSnapshot (nodes s' i) = pendingSnapshot (nodes s i)" "delivered s' i = delivered s i" "inGap s' i = inGap s i"
  shows "lane h s' i t p"
  using assms by (cases "pendingSnapshot (nodes s i)") (auto simp: lane_def)

lemma slot_ok_kept: "slot_ok h rf \<Longrightarrow> slot_kept rf rf' \<Longrightarrow> slot_ok h rf'"
  by (simp add: slot_ok_def slot_kept_def)

lemma peer_ok_kept:
  assumes "peer_ok h s i t p" "slot_kept (nodes s i) (nodes s' i)" "delivered s' i = delivered s i" "inGap s' i = inGap s i"
  shows "peer_ok h s' i t p"
  using assms slot_ok_kept lane_kept unfolding peer_ok_def slot_kept_def by blast


section \<open>Steps of the peers\<close>

text \<open>
  A snapshot that arrives in time: it is ignored anyway, or it is not older than what was handed over
  and the apply loop is not between two commands.
\<close>

fun timely :: "('c, 'b) act \<Rightarrow> ('c, 'b) cluster \<Rightarrow> bool" where
  "timely (Install i p args now) s \<longleftrightarrow>
     isTerm args < currentTerm (nodes s p) \<or> isLastIncludedIndex args \<le> lastIncludedIndex (nodes s p)
     \<or> \<not> inGap s p \<and> lastApplied (nodes s p) \<le> isLastIncludedIndex args"
| "timely _ s \<longleftrightarrow> True"

definition calls_ok :: "(int \<times> Cmd option) list \<Rightarrow> (Cmd, storeState) cluster \<Rightarrow> bool" where
  "calls_ok h s \<longleftrightarrow> (\<forall>(i, p, args) \<in> installCalls s. snap_ok h (isLastIncludedIndex args) (isData args))"

lemma handOver_peer_ok:
  assumes "peer_ok h s i t p" "slot_ok h rf" "pendingSnapshot rf = None"
    and "case m of
       None \<Rightarrow> pendingSnapshot (nodes s i) = None \<and> lastApplied rf = lastApplied (nodes s i)
     | Some msg \<Rightarrow> \<forall>e. chain h p (drop t (delivered s i)) e \<longrightarrow> e \<le> lastApplied (nodes s i) \<longrightarrow>
         (pendingSnapshot (nodes s i) = None \<longrightarrow> e = lastApplied (nodes s i)) \<longrightarrow> chain h e [msg] (lastApplied rf)"
  shows "peer_ok h (handOver i m (setNode i rf s)) i t p"
proof -
  have l: "lane h s i t p" using assms(1) by (simp add: peer_ok_def)
  have le: "t \<le> length (delivered s i)" using l by (simp add: lane_def)
  have "lane h (handOver i m (setNode i rf s)) i t p"
  proof (cases m)
    case None
    with l assms(3,4) show ?thesis by (simp add: lane_def handOver_def setNode_def)
  next
    case (Some msg)
    obtain e where e: "chain h p (drop t (delivered s i)) e" "e \<le> lastApplied (nodes s i)"
      "pendingSnapshot (nodes s i) = None \<longrightarrow> e = lastApplied (nodes s i)"
      using l by (auto simp: lane_def split: option.splits)
    with assms(4) Some have "chain h e [msg] (lastApplied rf)" by simp
    with e(1) have "chain h p (drop t (delivered s i) @ [msg]) (lastApplied rf)" unfolding chain_append by blast
    with le Some assms(3) show ?thesis by (simp add: lane_def handOver_def setNode_def)
  qed
  moreover have "nodes (handOver i m (setNode i rf s)) i = rf" by (simp add: handOver_def setNode_def split: option.split)
  ultimately show ?thesis using assms(2) by (simp add: peer_ok_def)
qed

lemma applyGap_peer_ok:
  assumes "peer_ok h s i t p" "wf_raft (nodes s i)" "pendingSnapshot (nodes s i) = None" "applyGap (nodes s i) = Some (m, rf)"
  shows "peer_ok h (handOver i m (setNode i rf s)) i t p"
proof (rule handOver_peer_ok [OF assms(1)])
  have rf: "slot_ok h (nodes s i)" using assms(1) by (simp add: peer_ok_def)
  then show "slot_ok h rf" "pendingSnapshot rf = None"
    using applyGap_draws [OF assms(4)] assms(3) by (simp_all add: slot_ok_def)
  show "case m of
       None \<Rightarrow> pendingSnapshot (nodes s i) = None \<and> lastApplied rf = lastApplied (nodes s i)
     | Some msg \<Rightarrow> \<forall>e. chain h p (drop t (delivered s i)) e \<longrightarrow> e \<le> lastApplied (nodes s i) \<longrightarrow>
         (pendingSnapshot (nodes s i) = None \<longrightarrow> e = lastApplied (nodes s i)) \<longrightarrow> chain h e [msg] (lastApplied rf)"
    using assms(3,4) applyGap_spec [OF assms(2)] by (auto simp: commandMsg_def indexOf_def split: if_splits)
qed

lemma applyTop_peer_ok:
  assumes "peer_ok h s i t p" "wf_raft (nodes s i)" "applyTop (nodes s i) = Some (m, rf)"
  shows "peer_ok h (handOver i m (setNode i rf s)) i t p"
proof (cases "pendingSnapshot (nodes s i)")
  case None
  with assms applyGap_peer_ok [OF assms(1,2)] show ?thesis by (simp add: applyTop_def)
next
  case (Some msg)
  then have m: "m = Some msg" "rf = (nodes s i)\<lparr>pendingSnapshot := None\<rparr>" using assms(3) by (simp_all add: applyTop_def)
  have ok: "SnapshotValid msg" "SnapshotIndex msg = lastApplied (nodes s i)" "snap_ok h (SnapshotIndex msg) (amSnapshot msg)"
    "slot_ok h (nodes s i)"
    using assms(1) Some by (auto simp: peer_ok_def lane_def)
  then show ?thesis using m
    by (intro handOver_peer_ok [OF assms(1)]) (auto simp: slot_ok_def indexOf_def)
qed

lemma install_peer_ok:
  assumes "peer_ok h s i t p" "InstallSnapshot now args (nodes s i) = Some (reply, rf)" "snap_ok h (isLastIncludedIndex args) (isData args)"
    and "timely (Install j i args now) s" "nodes s' i = rf" "delivered s' i = delivered s i" "inGap s' i = inGap s i"
  shows "peer_ok h s' i t p"
  using assms(2)
proof (cases rule: InstallSnapshot_cases)
  case installed
  then have g: "\<not> inGap s i" "lastApplied (nodes s i) \<le> isLastIncludedIndex args" using assms(4) by auto
  from installed(3) g(2) have rf: "lastApplied rf = isLastIncludedIndex args" "lastIncludedIndex rf = isLastIncludedIndex args"
    "ReadSnapshot (persister rf) = isData args" "pendingSnapshot rf = Some (snapshotMsg args)"
    by (auto simp: isInstalled_def isAccepted_def)
  obtain e where "e \<le> lastApplied (nodes s i)" "chain h p (drop t (delivered s i)) e" "t \<le> length (delivered s i)"
    using assms(1) lane_end unfolding peer_ok_def by blast
  with rf g assms show ?thesis
    by (auto simp: peer_ok_def slot_ok_def lane_def snapshotMsg_def intro: exI [of _ e])
qed (use assms in \<open>auto intro!: peer_ok_kept [OF assms(1)] simp: slot_kept_def isAccepted_def\<close>)

lemma exec_peer_ok:
  assumes "exec n a s = Some s'" "internal a" "timely a s" "i < n" "wf_raft (nodes s i)" "calls_ok h s" "peer_ok h s i t p"
  shows "peer_ok h s' i t p"
proof (cases "mover a")
  case (Some j)
  note m = exec_mover [OF assms(1) Some]
  show ?thesis
  proof (cases "i = j \<and> snapshots a")
    case True
    then obtain k args now where a: "a = Install k i args now" using assms(2) Some by (cases a) auto
    then obtain reply rf where "InstallSnapshot now args (nodes s i) = Some (reply, rf)" "nodes s' i = rf" "(k, i, args) \<in> installCalls s"
      using assms(1) by (auto simp: bind_Some_conv setNode_def split: if_splits)
    with install_peer_ok [OF assms(7)] assms(3,6) a m(4,7) show ?thesis by (auto simp: calls_ok_def)
  next
    case False
    then have "slot_kept (nodes s i) (nodes s' i)" using m(1,3) by (cases "i = j") (auto, metis fun_upd_other slot_kept_refl)
    with peer_ok_kept [OF assms(7)] m(4,7) show ?thesis by simp
  qed
next
  case None
  have kept: "peer_ok h s' i t p" if "nodes s' i = nodes s i" "delivered s' i = delivered s i" "inGap s' i = inGap s i"
    using peer_ok_kept [OF assms(7)] that by simp
  have other: "peer_ok h s' i t p" if "s' = handOver j m (setNode j rf s)" "j \<noteq> i" for j m rf
    using kept that by (simp add: handOver_def setNode_def split: option.splits)
  from None show ?thesis
  proof (cases a)
    case (ApplyOuter j)
    then obtain m rf where "applyTop (nodes s j) = Some (m, rf)" "s' = handOver j m (setNode j rf s)"
      using assms(1) by (auto simp: bind_Some_conv split: if_splits)
    with other applyTop_peer_ok [OF assms(7,5)] show ?thesis by (cases "j = i") auto
  next
    case (ApplyInner j)
    then obtain m rf where m: "applyGap (nodes s j) = Some (m, rf)" "s' = handOver j m (setNode j rf s)" "inGap s j"
      using assms(1) by (auto simp: bind_Some_conv split: if_splits)
    have "inGap s i \<Longrightarrow> pendingSnapshot (nodes s i) = None" using assms(7) by (auto simp: peer_ok_def lane_def split: option.splits)
    with m other applyGap_peer_ok [OF assms(7,5)] show ?thesis by (cases "j = i") auto
  qed (use assms(1,2) kept in \<open>auto simp: bind_Some_conv split: if_splits\<close>)
qed

lemma exec_calls_ok:
  assumes "exec n a s = Some s'" "internal a" "\<forall>i < n. wf_raft (nodes s i) \<and> slot_ok h (nodes s i)" "calls_ok h s"
  shows "calls_ok h s'"
proof (cases "mover a")
  case (Some j)
  with exec_mover(6) [OF assms(1) Some] assms(4) show ?thesis by (simp add: calls_ok_def)
next
  case None
  have same: "calls_ok h s'" if "installCalls s' = installCalls s" using assms(4) that by (simp add: calls_ok_def)
  from None show ?thesis
  proof (cases a)
    case (HeartbeatPeer i hb p)
    then obtain out where out: "i < n" "sendHeartbeats_peer hb p (nodes s i) = Some out" "s' = send i p out s"
      using assms(1) by (auto simp: bind_Some_conv split: if_splits)
    have "snap_ok h (isLastIncludedIndex args) (isData args)" if "out = SnapshotRequest args" for args
      using sendHeartbeats_peer_snapshot [of hb p "nodes s i" args] out(1,2) that assms(3) by (auto simp: slot_ok_def snapshotArgs_def)
    with assms(4) out(3) show ?thesis by (auto simp: calls_ok_def send_def split: outgoing.splits)
  qed (use assms(1,2) same in \<open>auto simp: bind_Some_conv handOver_def setNode_def split: if_splits option.splits\<close>)
qed


section \<open>Steps of the system\<close>

definition past :: "Peer list \<Rightarrow> (Cmd, storeState) cluster \<Rightarrow> int \<Rightarrow> Cmd option \<Rightarrow> bool" where
  "past ps s j v \<longleftrightarrow> (\<exists>s0 i msg. reachable ps s0 \<and> (step (length ps))\<^sup>*\<^sup>* s0 s \<and> msg \<in> set (delivered s0 i)
     \<and> CommandValid msg \<and> CommandIndex msg = j \<and> amCommand msg = v)"

definition node_inv :: "(int \<times> Cmd option) list \<Rightarrow> system \<Rightarrow> nat \<Rightarrow> bool" where
  "node_inv h S i \<longleftrightarrow> peer_ok h (cl S) i (taken S i) (pos S i) \<and> covered h (pos S i)
     \<and> storeView (stores S i) = storeView (replay h (pos S i)) \<and> (\<forall>(k, sn) \<in> set (compactions S i). snap_ok h k sn)"

definition consistent :: "(int \<times> Cmd option) list \<Rightarrow> bool" where
  "consistent h \<longleftrightarrow> (\<forall>(j, v) \<in> set h. map_of h j = Some v)"

definition stores_inv :: "Peer list \<Rightarrow> system \<Rightarrow> bool" where
  "stores_inv ps S \<longleftrightarrow> consistent (history S) \<and> (\<forall>(j, v) \<in> set (history S). past ps (cl S) j v) \<and> calls_ok (history S) (cl S)
     \<and> (\<forall>i < length ps. node_inv (history S) S i)"

lemma past_later: "past ps s j v \<Longrightarrow> (step (length ps))\<^sup>*\<^sup>* s s' \<Longrightarrow> past ps s' j v"
  using rtranclp_trans [of "step (length ps)" _ s s'] unfolding past_def by blast

lemma past_agree:
  assumes "past ps s j v" "msg \<in> set (delivered s i)" "CommandValid msg" "CommandIndex msg = j"
  shows "v = amCommand msg"
  using assms deliveries_agree [of ps _ s _ _ msg i] unfolding past_def by metis

lemma peer_ok_grown: "peer_ok h s i t p \<Longrightarrow> grown h h' \<Longrightarrow> peer_ok h' s i t p"
  unfolding peer_ok_def slot_ok_def using lane_grown snap_ok_grown by blast

lemma calls_ok_grown: "calls_ok h s \<Longrightarrow> grown h h' \<Longrightarrow> calls_ok h' s"
  by (auto simp: calls_ok_def intro: snap_ok_grown)

lemma node_inv_intro:
  assumes "node_inv h S i" "grown h h'" "peer_ok h' (cl S') i (taken S' i) (pos S' i)" "pos S' i = pos S i"
    and "storeView (stores S' i) = storeView (stores S i)" "set (compactions S' i) \<subseteq> set (compactions S i)"
  shows "node_inv h' S' i"
proof -
  have c: "covered h (pos S i)" using assms(1) by (simp add: node_inv_def)
  have "snap_ok h' k sn" if "(k, sn) \<in> set (compactions S' i)" for k sn
    using that assms(1,2,6) snap_ok_grown unfolding node_inv_def by blast
  with assms covered_grown [OF c assms(2)] replay_grown [OF c assms(2)] show ?thesis by (auto simp: node_inv_def)
qed

lemma node_inv_take:
  assumes "node_inv h S i" "waiters_ok (stores S i)" "taken S i < length (delivered (cl S) i)" "msg = delivered (cl S) i ! taken S i"
    and "applyLoop_msg ks msg (stores S i) = Some (req, st)" "cl S' = cl S" "stores S' i = st" "taken S' i = taken S i + 1"
    and "compactions S' i = compactions S i @ (case req of None \<Rightarrow> [] | Some r \<Rightarrow> [r])" "pos S' i = indexOf msg"
    and "h' = (if SnapshotValid msg then h else (CommandIndex msg, amCommand msg) # h)" "grown h h'"
  shows "node_inv h' S' i"
proof -
  note st = appliedD [OF applyLoop_msg_applied [OF assms(2,5)]]
  have inv: "slot_ok h (nodes (cl S) i)" "lane h (cl S) i (taken S i) (pos S i)" "covered h (pos S i)"
    "storeView (stores S i) = storeView (replay h (pos S i))" "\<forall>(k, sn) \<in> set (compactions S i). snap_ok h k sn"
    using assms(1) by (auto simp: node_inv_def peer_ok_def)
  have rest: "drop (taken S i) (delivered (cl S) i) = msg # drop (taken S i + 1) (delivered (cl S) i)"
    using Cons_nth_drop_Suc [OF assms(3)] assms(4) by simp
  then have lane: "lane h (cl S) i (taken S i + 1) (indexOf msg)"
    using inv(2) assms(3) by (auto simp: lane_def split: option.splits)
  have first: "if SnapshotValid msg then pos S i \<le> SnapshotIndex msg \<and> snap_ok h (SnapshotIndex msg) (amSnapshot msg)
      else CommandIndex msg = pos S i + 1"
    using inv(2) rest by (auto simp: lane_def split: option.splits if_splits)
  have at: "covered h' (indexOf msg) \<and> storeView st = storeView (replay h' (indexOf msg))"
  proof (cases "SnapshotValid msg")
    case True
    with first assms(11) st(6) show ?thesis
      by (simp add: snap_ok_def snapAt_def indexOf_def store_machine.restore_view)
  next
    case False
    then have k: "CommandIndex msg = pos S i + 1" "h' = (pos S i + 1, amCommand msg) # h" using first assms(11) by simp_all
    have "covered h' (pos S i)" using covered_grown [OF inv(3) assms(12)] .
    then have cov: "covered h' (pos S i + 1)" unfolding covered_def k(2) by auto
    have "cmdAt h' (pos S i + 1) = commandOf msg" by (simp add: cmdAt_def k(2) commandOf_def split: option.split)
    then have "replay h' (pos S i + 1) = fold applySwitch (commandOf msg) (replay h (pos S i))"
      using replay_next [of "pos S i" h'] replay_grown [OF inv(3) assms(12)] inv(3) by (simp add: covered_def)
    with store_machine.replay_view [OF inv(4), of "commandOf msg"] st(6) False cov k(1) show ?thesis
      by (simp add: indexOf_def)
  qed
  have "snap_ok h' k sn" if "req = Some (k, sn)" for k sn
    using st(7) [OF that] at encodeSnapshot_view [of st "replay h' (indexOf msg)"] first inv(3)
    by (auto simp: snap_ok_def snapAt_def indexOf_def covered_def)
  then have "\<forall>(k, sn) \<in> set (compactions S' i). snap_ok h' k sn"
    using inv(5) snap_ok_grown [OF _ assms(12)] by (auto simp: assms(9) split: option.splits)
  moreover have "slot_ok h' (nodes (cl S) i)" using inv(1) snap_ok_grown [OF _ assms(12)] by (auto simp: slot_ok_def)
  ultimately show ?thesis
    using at lane_grown [OF lane assms(12)] by (simp add: node_inv_def peer_ok_def assms(6,7,8,10))
qed

lemma stores_inv_past:
  assumes "stores_inv ps S" "(step (length ps))\<^sup>*\<^sup>* (cl S) s"
  shows "\<forall>(j, v) \<in> set (history S). past ps s j v"
  using assms past_later [OF _ assms(2)] unfolding stores_inv_def by blast

text \<open>
  Steps in which every node keeps its place: what remains is the peers, and that no store changes its
  jobs and runs.
\<close>

lemma stores_inv_same:
  assumes "stores_inv ps S" "(step (length ps))\<^sup>*\<^sup>* (cl S) (cl S')" "history S' = history S" "calls_ok (history S) (cl S')"
    and "\<And>i. i < length ps \<Longrightarrow> peer_ok (history S) (cl S') i (taken S i) (pos S i)" "taken S' = taken S" "pos S' = pos S"
    and "\<And>i. storeView (stores S' i) = storeView (stores S i)" "\<And>i. set (compactions S' i) \<subseteq> set (compactions S i)"
  shows "stores_inv ps S'"
proof -
  have "node_inv (history S) S' i" if "i < length ps" for i
  proof (rule node_inv_intro [OF _ grown_refl])
    show "node_inv (history S) S i" using assms(1) that by (simp add: stores_inv_def)
  qed (use assms(5) [OF that] assms(6-9) in simp_all)
  with stores_inv_past [OF assms(1,2)] assms(1,4) show ?thesis unfolding stores_inv_def assms(3) by blast
qed

lemma stores_invD:
  assumes "stores_inv ps S" "i < length ps"
  shows "peer_ok (history S) (cl S) i (taken S i) (pos S i)" "covered (history S) (pos S i)"
    "storeView (stores S i) = storeView (replay (history S) (pos S i))"
    "(k, sn) \<in> set (compactions S i) \<Longrightarrow> snap_ok (history S) k sn" "slot_ok (history S) (nodes (cl S) i)"
  using assms by (auto simp: stores_inv_def node_inv_def peer_ok_def)

lemma Submit_begin_view: "Submit_begin cmd rf s = (r, rf', s') \<Longrightarrow> storeView s' = storeView s"
  by (auto simp: Submit_begin_def Let_def storeView_def split: if_splits prod.splits)

lemma Snapshot_slot:
  assumes "Snapshot k sn rf = Some rf'" "slot_ok h rf" "snap_ok h k sn"
  shows "slot_ok h rf' \<and> lastApplied rf' = lastApplied rf \<and> pendingSnapshot rf' = pendingSnapshot rf"
  using assms by (auto simp: Snapshot_def bind_Some_conv slot_ok_def split: if_splits)

lemma stores_inv_internal:
  assumes "sysExec (length ps) (Internal b) S = Some S'" "timely b (cl S)" "peers_inv ps S" "stores_inv ps S"
  shows "stores_inv ps S'"
proof -
  have b: "exec (length ps) b (cl S) = Some (cl S')" "internal b" "S' = S\<lparr>cl := cl S'\<rparr>"
    using assms(1) by (auto simp: bind_Some_conv split: if_splits)
  have wf: "wf_raft (nodes (cl S) i)" if "i < length ps" for i using peers_invD(4) [OF assms(3) that] by (simp add: saved_def)
  have calls: "calls_ok (history S) (cl S)" using assms(4) by (simp add: stores_inv_def)
  show ?thesis
  proof (rule stores_inv_same [OF assms(4) sysExec_steps(1) [OF assms(1,3)]])
    show "calls_ok (history S) (cl S')"
      using exec_calls_ok [OF b(1,2) _ calls] wf stores_invD(5) [OF assms(4)] by blast
    show "peer_ok (history S) (cl S') i (taken S i) (pos S i)" if "i < length ps" for i
      using exec_peer_ok [OF b(1,2) assms(2) that wf [OF that] calls stores_invD(1) [OF assms(4) that]] .
  qed (subst b(3), simp)+
qed

lemma stores_inv_submit:
  assumes "sysExec (length ps) (SubmitTo i cmd) S = Some S'" "peers_inv ps S" "stores_inv ps S"
  shows "stores_inv ps S'"
  using assms(1)
proof (rule sysExec_submit)
  fix index ch rf st
  assume a: "i < length ps" "Submit_begin cmd (nodes (cl S) i) (stores S i) = (Inr (index, ch), rf, st)"
    "rf = snd (Start cmd (nodes (cl S) i))"
    "S' = S\<lparr>cl := setNode i rf (cl S), stores := (stores S)(i := st),
             waits := (waits S)(i := waits S i @ [(index, ch, cmd)]), submitted := cmd # submitted S\<rparr>"
  have kept: "slot_kept (nodes (cl S) j) (nodes (cl S') j)" for j
    using snd_Start_draws [of cmd "nodes (cl S) i"] by (simp add: a(3,4) setNode_def)
  show ?thesis
  proof (rule stores_inv_same [OF assms(3) sysExec_steps(1) [OF assms(1,2)]])
    show "peer_ok (history S) (cl S') j (taken S j) (pos S j)" if "j < length ps" for j
      using peer_ok_kept [OF stores_invD(1) [OF assms(3) that] kept] by (simp add: a(4) setNode_def)
  qed (use assms(3) Submit_begin_view [OF a(2)] in \<open>simp_all add: a(4) setNode_def calls_ok_def stores_inv_def\<close>)
qed (use assms(3) in simp)

lemma stores_inv_compaction:
  assumes "sysExec (length ps) (Compaction i k) S = Some S'" "peers_inv ps S" "stores_inv ps S"
  shows "stores_inv ps S'"
  using assms(1)
proof (rule sysExec_compaction)
  fix index sn rf
  assume c: "i < length ps" "(index, sn) \<in> set (compactions S i)" "Snapshot index sn (nodes (cl S) i) = Some rf"
    "S' = S\<lparr>cl := setNode i rf (cl S), compactions := (compactions S)(i := dropNth k (compactions S i))\<rparr>"
  note slot = Snapshot_slot [OF c(3) stores_invD(5,4) [OF assms(3) c(1)], OF c(2)]
  show ?thesis
  proof (rule stores_inv_same [OF assms(3) sysExec_steps(1) [OF assms(1,2)]])
    fix j assume j: "j < length ps"
    note ok = stores_invD(1) [OF assms(3) j]
    then have l: "lane (history S) (cl S) j (taken S j) (pos S j)" by (simp add: peer_ok_def)
    have "lane (history S) (cl S') j (taken S j) (pos S j)"
      by (rule lane_kept [OF l]) (use slot in \<open>simp_all add: c(4) setNode_def\<close>)
    moreover have "slot_ok (history S) (nodes (cl S') j)" using ok slot by (simp add: peer_ok_def c(4) setNode_def)
    ultimately show "peer_ok (history S) (cl S') j (taken S j) (pos S j)" by (simp add: peer_ok_def)
  qed (use assms(3) dropNth_subset [of k "compactions S i"] in \<open>auto simp: c(4) setNode_def calls_ok_def stores_inv_def\<close>)
qed

lemma stores_inv_reboot:
  assumes "sysExec (length ps) (Reboot i now) S = Some S'" "peers_inv ps S" "stores_inv ps S"
  shows "stores_inv ps S'"
proof -
  let ?rf = "nodes (cl S) i"
  let ?new = "Make (peers ?rf) (int i) (persister ?rf) now"
  have r: "i < length ps" "S' = S\<lparr>cl := setNode i ?new (forget i (cl S)), stores := (stores S)(i := makeStore True (Some (persister ?rf))),
      taken := (taken S)(i := 0), waits := (waits S)(i := []), compactions := (compactions S)(i := []), pos := (pos S)(i := lastIncludedIndex ?rf)\<rparr>"
    using assms(1) by (auto simp: Let_def split: if_splits)
  note make = Make_saved [OF peers_invD(4) [OF assms(2) r(1)], of "peers ?rf" "int i" now]
  have slot: "slot_ok (history S) ?rf" using stores_invD(5) [OF assms(3) r(1)] .
  have "node_inv (history S) S' j" if "j < length ps" for j
  proof (cases "j = i")
    case True
    have "storeView (makeStore True (Some (persister ?rf))) = storeView (replay (history S) (lastIncludedIndex ?rf))
        \<and> covered (history S) (lastIncludedIndex ?rf)"
      using slot store_machine.restore_view [of "replay (history S) (lastIncludedIndex ?rf)" "makeStore True None"]
      by (auto simp: slot_ok_def snap_ok_def snapAt_def replay_0 makeStore_def covered_def encodeSnapshot_def)
    with True slot make show ?thesis by (simp add: r(2) node_inv_def peer_ok_def slot_ok_def lane_def setNode_def forget_def)
  next
    case False
    have p: "peer_ok (history S) (cl S') j (taken S j) (pos S j)"
      by (rule peer_ok_kept [OF stores_invD(1) [OF assms(3) that]]) (use False in \<open>simp_all add: r(2) setNode_def forget_def\<close>)
    have "node_inv (history S) S j" using assms(3) that by (simp add: stores_inv_def)
    then show ?thesis by (rule node_inv_intro [OF _ grown_refl]) (use False p in \<open>simp_all add: r(2)\<close>)
  qed
  moreover have "history S' = history S" "calls_ok (history S) (cl S')"
    using assms(3) by (simp_all add: r(2) stores_inv_def calls_ok_def setNode_def forget_def)
  ultimately show ?thesis
    using assms(3) stores_inv_past [OF assms(3) sysExec_steps(1) [OF assms(1,2)]] unfolding stores_inv_def by simp
qed

lemma grown_history:
  assumes "stores_inv ps S" "msg \<in> set (delivered (cl S) i)" "CommandValid msg"
  shows "grown (history S) ((CommandIndex msg, amCommand msg) # history S)"
    and "consistent ((CommandIndex msg, amCommand msg) # history S)"
proof -
  have *: "w = amCommand msg" if "map_of (history S) (CommandIndex msg) = Some w" for w
    using past_agree [OF _ assms(2,3) refl, of ps w] map_of_SomeD [OF that] assms(1) unfolding stores_inv_def by blast
  then show "grown (history S) ((CommandIndex msg, amCommand msg) # history S)" by (rule grown_Cons)
  have "map_of (history S) j = Some v" if "(j, v) \<in> set (history S)" for j v
    using assms(1) that unfolding stores_inv_def consistent_def by blast
  with * show "consistent ((CommandIndex msg, amCommand msg) # history S)" by (auto simp: consistent_def)
qed

lemma stores_inv_take:
  assumes "sysExec (length ps) (Take i ks) S = Some S'" "peers_inv ps S" "stores_inv ps S" "waiters_ok (stores S i)"
  shows "stores_inv ps S'"
  using assms(1)
proof (rule sysExec_take)
  fix msg req st
  assume t: "i < length ps" "taken S i < length (delivered (cl S) i)" "msg = delivered (cl S) i ! taken S i"
    "applyLoop_msg ks msg (stores S i) = Some (req, st)"
    "S' = S\<lparr>stores := (stores S)(i := st), taken := (taken S)(i := taken S i + 1),
           compactions := (compactions S)(i := compactions S i @ (case req of None \<Rightarrow> [] | Some r \<Rightarrow> [r])),
           history := (if SnapshotValid msg then history S else (CommandIndex msg, amCommand msg) # history S),
           pos := (pos S)(i := indexOf msg)\<rparr>"
  define h' where "h' = (if SnapshotValid msg then history S else (CommandIndex msg, amCommand msg) # history S)"
  have mem: "msg \<in> set (delivered (cl S) i)" using t(2,3) by simp
  have valid: "\<not> SnapshotValid msg \<Longrightarrow> CommandValid msg"
    using stores_invD(1) [OF assms(3) t(1)] Cons_nth_drop_Suc [OF t(2), symmetric] t(3)
    by (auto simp: peer_ok_def lane_def split: option.splits)
  have g: "grown (history S) h'" "consistent h'"
    using grown_history [OF assms(3) mem] valid assms(3) by (auto simp: h'_def stores_inv_def)
  have "\<forall>(j, v) \<in> set h'. past ps (cl S) j v"
    using assms(3) mem valid peers_invD(1) [OF assms(2)] unfolding h'_def stores_inv_def past_def by auto
  moreover have "calls_ok h' (cl S)" using assms(3) calls_ok_grown [OF _ g(1)] by (simp add: stores_inv_def)
  moreover have "node_inv h' S' j" if "j < length ps" for j
  proof (cases "j = i")
    case True
    have "node_inv (history S) S i" using assms(3) t(1) by (simp add: stores_inv_def)
    then show ?thesis unfolding True
      by (rule node_inv_take [OF _ assms(4) t(2,3,4)]) (simp_all add: t(5) h'_def g(1) [unfolded h'_def])
  next
    case False
    have "node_inv (history S) S j" using assms(3) that by (simp add: stores_inv_def)
    then show ?thesis
      by (rule node_inv_intro [OF _ g(1)])
        (use False peer_ok_grown [OF stores_invD(1) [OF assms(3) that] g(1)] in \<open>simp_all add: t(5)\<close>)
  qed
  ultimately show ?thesis using g(2) by (simp add: stores_inv_def t(5) h'_def)
qed

text \<open>Runs in which every snapshot arrives in time.\<close>

inductive sysTimely :: "Peer list \<Rightarrow> system \<Rightarrow> bool" for ps where
  started: "sysTimely ps (start ps)"
| moved: "sysTimely ps S \<Longrightarrow> sysExec (length ps) a S = Some S' \<Longrightarrow> (\<And>b. a = Internal b \<Longrightarrow> timely b (cl S)) \<Longrightarrow> sysTimely ps S'"

lemma sysTimely_reachable: "sysTimely ps S \<Longrightarrow> sysReachable ps S"
  by (induction rule: sysTimely.induct) (auto intro: sysReachable.intros)

lemma stores_inv_leave:
  assumes "stores_inv ps S" "cl S' = cl S" "history S' = history S" "taken S' = taken S" "pos S' = pos S"
    and "compactions S' = compactions S" "\<And>i. storeView (stores S' i) = storeView (stores S i)"
  shows "stores_inv ps S'"
proof (rule stores_inv_same [OF assms(1)])
  show "peer_ok (history S) (cl S') i (taken S i) (pos S i)" if "i < length ps" for i
    using stores_invD(1) [OF assms(1) that] by (simp add: assms(2))
qed (use assms in \<open>simp_all add: stores_inv_def\<close>)

lemma start_stores_inv: "stores_inv ps (start ps)"
proof -
  have "node_inv [] (start ps) i" for i
    by (simp add: node_inv_def start_def peer_ok_def slot_ok_def lane_def boot_def covered_def replay_0 Make_def readPersist_def
        makeStore_def MakePersister_def ReadSnapshot_def ReadRaftState_def)
  moreover have "history (start ps) = []" "calls_ok [] (cl (start ps))" by (simp_all add: start_def calls_ok_def boot_def)
  ultimately show ?thesis by (simp add: stores_inv_def consistent_def)
qed

lemma timely_stores_inv: "sysTimely ps S \<Longrightarrow> stores_inv ps S"
proof (induction rule: sysTimely.induct)
  case started
  show ?case by (rule start_stores_inv)
next
  case (moved S a S')
  have inv: "peers_inv ps S" "\<And>i. waiters_ok (stores S i)"
    using sysReachable_inv [OF sysTimely_reachable [OF moved.hyps(1)]] by (auto simp: waits_inv_def node_waits_def)
  note hyps = moved.hyps(2,3) moved.IH
  show ?case
  proof (cases a)
    case (Internal b)
    with hyps stores_inv_internal [OF _ _ inv(1)] show ?thesis by simp
  next
    case (SubmitTo i cmd)
    with hyps stores_inv_submit [OF _ inv(1)] show ?thesis by simp
  next
    case (Take i ks)
    with hyps stores_inv_take [OF _ inv(1) _ inv(2)] show ?thesis by simp
  next
    case (Answer i k)
    with hyps(1) show ?thesis
      by (intro stores_inv_leave [OF moved.IH])
        (auto simp: bind_Some_conv chRecv_def storeView_def split: if_splits prod.splits list.splits)
  next
    case (Expire i k)
    with hyps(1) show ?thesis
      by (intro stores_inv_leave [OF moved.IH]) (auto simp: Submit_timeout_def storeView_def split: if_splits prod.splits)
  next
    case (Compaction i k)
    with hyps stores_inv_compaction [OF _ inv(1)] show ?thesis by simp
  next
    case (Reboot i now)
    with hyps stores_inv_reboot [OF _ inv(1)] show ?thesis by simp
  qed
qed


section \<open>Properties\<close>

text \<open>
  C4: All stores follow one history.  In a run in which no snapshot is installed that is older than
  what the peer has applied, or while its apply loop is between two commands, the jobs and runs of
  every store are those after the commands at the indices \<open>1\<close> to its position, of one sequence of
  commands for the whole cluster; this holds through restarts, compaction and installed snapshots.
  Two stores at the same position hold the same jobs and runs.
\<close>

theorem stores_follow_one_history:
  assumes "sysTimely ps S" and "i < length ps"
  shows "storeView (stores S i) = storeView (replay (history S) (pos S i))
    \<and> covered (history S) (pos S i) \<and> consistent (history S) \<and> pos S i \<le> lastApplied (nodes (cl S) i)
    \<and> (\<forall>j < length ps. pos S j = pos S i \<longrightarrow> storeView (stores S j) = storeView (stores S i))"
proof -
  note inv = timely_stores_inv [OF assms(1)]
  have "lane (history S) (cl S) i (taken S i) (pos S i)" using stores_invD(1) [OF inv assms(2)] by (simp add: peer_ok_def)
  then have "pos S i \<le> lastApplied (nodes (cl S) i)" using lane_end chain_le by fastforce
  moreover have "consistent (history S)" using inv by (simp add: stores_inv_def)
  ultimately show ?thesis using stores_invD(2,3) [OF inv] assms(2) by simp
qed

lemma sysRun_timely:
  assumes "list_all (\<lambda>a. \<forall>b. a = Internal b \<longrightarrow> \<not> snapshots b) as" "sysRun (length ps) as S = Some S'" "sysTimely ps S"
  shows "sysTimely ps S'"
  using assms
proof (induction as arbitrary: S)
  case (Cons a as)
  then obtain S1 where S1: "sysExec (length ps) a S = Some S1" "sysRun (length ps) as S1 = Some S'" by (auto simp: bind_Some_conv)
  have "timely b s" if "\<not> snapshots b" for b and s :: "(Cmd, storeState) cluster" using that by (cases b) auto
  then have "sysTimely ps S1" using Cons.prems(1,3) by (intro sysTimely.moved [OF _ S1(1)]) auto
  with Cons.IH [OF _ S1(2)] Cons.prems(1) show ?case by simp
qed simp

theorem stores_follow_one_history_witness:
  "\<exists>S. sysTimely threePeers S \<and> pos S 0 = 1 \<and> pos S 1 = 1 \<and> jobs (stores S 0) ''a'' \<noteq> None
     \<and> storeView (stores S 1) = storeView (stores S 0)"
proof -
  have "map_option (\<lambda>S. (pos S 0, pos S 1, jobs (stores S 0) ''a'' = None))
      (sysRun 3 (ackRun @ followRun @ [Take 1 []]) (start threePeers)) = Some (1, 1, False)"
    by code_simp
  then obtain S where S: "sysRun 3 (ackRun @ followRun @ [Take 1 []]) (start threePeers) = Some S" "pos S 0 = 1" "pos S 1 = 1"
    "jobs (stores S 0) ''a'' \<noteq> None" by auto
  have t: "sysTimely threePeers S"
    by (rule sysRun_timely [OF _ _ sysTimely.started, of "ackRun @ followRun @ [Take 1 []]"])
      (use S(1) in \<open>simp_all add: threePeers_def ackRun_def followRun_def\<close>)
  have p: "0 < length threePeers" "1 < length threePeers" by (simp_all add: threePeers_def)
  have "storeView (stores S 1) = storeView (stores S 0)"
    using stores_follow_one_history [OF t p(1)] p(2) S(2,3) by metis
  with t S(2,3,4) show ?thesis by blast
qed

end
