(* ===== verification/Raft_Progress.thy ===== *)
theory Raft_Progress
  imports Raft_Refine
begin

text \<open>
  What a leader can achieve.

  In a round of heartbeats the leader sends a peer what lies beyond the peer's \<open>nextIndex\<close>, or its
  snapshot, and adjusts \<open>nextIndex\<close> by the reply.  An exchange is such a request, its handling
  and the handling of the reply.  Every exchange succeeds, lowers \<open>nextIndex\<close>, installs a
  snapshot or moves \<open>nextIndex\<close> past what the peer has compacted, and the search cannot go round in
  circles, so a bounded number of exchanges brings the peer up to date; with a majority up to
  date an entry of the leader's term is committed and the apply loop reaches it.
\<close>

section \<open>Runs of some of the peers\<close>

text \<open>A run in which only the peers in \<open>Q\<close> change their state.\<close>

definition within :: "nat \<Rightarrow> nat set \<Rightarrow> ('c, 'b) cluster \<Rightarrow> ('c, 'b) cluster \<Rightarrow> bool" where
  "within n Q s s' \<longleftrightarrow> (step n)\<^sup>*\<^sup>* s s' \<and> (\<forall>p. p \<notin> Q \<longrightarrow> nodes s' p = nodes s p)"

lemma within_refl [simp]: "within n Q s s" by (simp add: within_def)

lemma within_trans: "within n Q s s' \<Longrightarrow> within n Q s' s'' \<Longrightarrow> within n Q s s''"
  unfolding within_def by (metis rtranclp_trans)

lemma within_mono: "within n P s s' \<Longrightarrow> P \<subseteq> Q \<Longrightarrow> within n Q s s'"
  by (auto simp: within_def)

lemma within_step: "step n s s' \<Longrightarrow> nodes s' = (nodes s)(p := rf) \<Longrightarrow> p \<in> Q \<Longrightarrow> within n Q s s'"
  by (auto simp: within_def)

lemma within_refines: "within n Q s s' \<Longrightarrow> refines n g s \<Longrightarrow> \<exists>g'. refines n g' s'"
  unfolding within_def using steps_refines by blast


section \<open>One exchange between the leader and a peer\<close>

definition ahead :: "nat \<Rightarrow> ('c, 'b) Raft \<Rightarrow> ('c, 'b) Raft \<Rightarrow> bool" where
  "ahead p rf rf' \<longleftrightarrow> (\<exists>mx nx c. rf' = rf\<lparr>matchIndex := mx, nextIndex := nx, commitIndex := c\<rparr> \<and> commitIndex rf \<le> c
     \<and> length mx = length (matchIndex rf) \<and> (\<forall>q. q \<noteq> p \<longrightarrow> mx ! q = matchIndex rf ! q))"

text \<open>
  One goroutine of \<open>sendHeartbeats\<close> whose call is answered: the new states of the leader and of
  the peer.
\<close>

definition exchange ::
    "int \<Rightarrow> nat \<Rightarrow> ('c, 'b) Raft \<Rightarrow> ('c, 'b) Raft \<Rightarrow> (('c, 'b) Raft \<times> ('c, 'b) Raft) option" where
  "exchange now p ldr rf =
     do { out \<leftarrow> sendHeartbeats_peer (sendHeartbeats_begin ldr) p ldr;
          case out of
            NoRequest \<Rightarrow> Some (ldr, rf)
          | AppendRequest args \<Rightarrow>
              do { (reply, rf) \<leftarrow> AppendEntries now args rf;
                   ldr \<leftarrow> onAppendReply p args reply ldr;
                   Some (ldr, rf) }
          | SnapshotRequest args \<Rightarrow>
              do { (reply, rf) \<leftarrow> InstallSnapshot now args rf;
                   ldr \<leftarrow> onSnapshotReply p args reply ldr;
                   Some (ldr, rf) } }"

primrec exchanges ::
    "int \<Rightarrow> nat \<Rightarrow> nat \<Rightarrow> ('c, 'b) Raft \<Rightarrow> ('c, 'b) Raft \<Rightarrow> (('c, 'b) Raft \<times> ('c, 'b) Raft) option" where
  "exchanges now p 0 ldr rf = Some (ldr, rf)"
| "exchanges now p (Suc k) ldr rf = do { (ldr, rf) \<leftarrow> exchange now p ldr rf; exchanges now p k ldr rf }"

lemma exchanges_add:
  "exchanges now p (k + l) ldr rf = do { (ldr, rf) \<leftarrow> exchanges now p k ldr rf; exchanges now p l ldr rf }"
  by (induction k arbitrary: ldr rf) (auto split: bind_splits)

text \<open>A run of the cluster that consists of \<open>k\<close> exchanges.\<close>

definition talk :: "int \<Rightarrow> nat \<Rightarrow> nat \<Rightarrow> nat \<Rightarrow> nat \<Rightarrow> ('c, 'b) cluster \<Rightarrow> ('c, 'b) cluster \<Rightarrow> bool" where
  "talk now n i p k s s' \<longleftrightarrow> within n {i, p} s s' \<and> exchanges now p k (nodes s i) (nodes s p) = Some (nodes s' i, nodes s' p)
     \<and> ahead p (nodes s i) (nodes s' i) \<and> currentTerm (nodes s' p) = currentTerm (nodes s i)"

definition replicated :: "nat \<Rightarrow> ('c, 'b) Raft \<Rightarrow> bool" where
  "replicated p rf \<longleftrightarrow> matchIndex rf ! p = lastLogIndex rf
     \<and> (\<forall>m. commitIndex rf < m \<longrightarrow> m \<le> lastLogIndex rf \<longrightarrow> \<not> committable rf m)"

lemma aheadD:
  assumes "ahead p rf rf'"
  shows "state rf' = state rf" "currentTerm rf' = currentTerm rf" "log rf' = log rf" "peers rf' = peers rf" "me rf' = me rf"
    "lastIncludedIndex rf' = lastIncludedIndex rf" "lastIncludedTerm rf' = lastIncludedTerm rf"
    "lastLogIndex rf' = lastLogIndex rf" "commitIndex rf \<le> commitIndex rf'" "q \<noteq> p \<Longrightarrow> matchIndex rf' ! q = matchIndex rf ! q"
    "lastApplied rf' = lastApplied rf"
  using assms by (auto simp: ahead_def lastLogIndex_def)

lemma ahead_trans: "ahead p rf rf' \<Longrightarrow> ahead p rf' rf'' \<Longrightarrow> ahead p rf rf''"
  unfolding ahead_def by clarsimp (metis (no_types) order_trans)

lemma talk_trans:
  assumes "talk now n i p k s s'" "talk now n i p l s' s''" shows "talk now n i p (k + l) s s''"
proof -
  have "exchanges now p (k + l) (nodes s i) (nodes s p) = Some (nodes s'' i, nodes s'' p)"
    using assms by (simp add: talk_def exchanges_add)
  moreover have "within n {i, p} s s''" using assms within_trans unfolding talk_def by blast
  moreover have "ahead p (nodes s i) (nodes s'' i)" using assms ahead_trans unfolding talk_def by blast
  moreover have "currentTerm (nodes s'' p) = currentTerm (nodes s i)" using assms aheadD(2) [of p "nodes s i"] by (simp add: talk_def)
  ultimately show ?thesis by (simp add: talk_def)
qed

lemma four_steps: "R a b \<Longrightarrow> R b c \<Longrightarrow> R c d \<Longrightarrow> R d e \<Longrightarrow> R\<^sup>*\<^sup>* a e"
  by (rule converse_rtranclp_into_rtranclp)+ auto

lemma exchange_append:
  assumes "i < n" "p < n" "p \<noteq> i"
    and "sendHeartbeats_peer (sendHeartbeats_begin (nodes s i)) p (nodes s i) = Some (AppendRequest args)"
    and "AppendEntries now args (nodes s p) = Some (reply, rfp)" and "onAppendReply p args reply (nodes s i) = Some rfi"
  shows "\<exists>s'. (step n)\<^sup>*\<^sup>* s s' \<and> nodes s' = (nodes s)(p := rfp, i := rfi)"
proof -
  define hb where "hb = sendHeartbeats_begin (nodes s i)"
  define s1 where "s1 = s\<lparr>hbRounds := insert (i, hb) (hbRounds s)\<rparr>"
  define s2 where "s2 = send i p (AppendRequest args) s1"
  define s3 where "s3 = setNode p rfp (s2\<lparr>appendReplies := insert (i, p, args, reply) (appendReplies s2)\<rparr>)"
  have n: "nodes s1 = nodes s" "nodes s2 = nodes s" by (simp_all add: s1_def s2_def send_def)
  have "step n s s1" unfolding s1_def hb_def by (rule step.heartbeat [OF assms(1)])
  moreover have "step n s1 s2" unfolding s2_def
    by (rule step.heartbeatPeer [of i hb]) (use assms in \<open>simp_all add: n hb_def [symmetric] s1_def\<close>)
  moreover have "step n s2 s3" unfolding s3_def
    by (rule step.append [where now = now]) (use assms in \<open>simp_all add: n\<close>, simp add: s2_def send_def)
  moreover have "step n s3 (setNode i rfi s3)"
    by (rule step.appendReply [of i p args reply])
      (use assms in \<open>simp_all add: s3_def setNode_def n\<close>)
  moreover have "nodes (setNode i rfi s3) = (nodes s)(p := rfp, i := rfi)" by (simp add: s3_def setNode_def n)
  ultimately show ?thesis using four_steps [of "step n"] by blast
qed

lemma exchange_install:
  assumes "i < n" "p < n" "p \<noteq> i"
    and "sendHeartbeats_peer (sendHeartbeats_begin (nodes s i)) p (nodes s i) = Some (SnapshotRequest args)"
    and "InstallSnapshot now args (nodes s p) = Some (reply, rfp)" and "onSnapshotReply p args reply (nodes s i) = Some rfi"
  shows "\<exists>s'. (step n)\<^sup>*\<^sup>* s s' \<and> nodes s' = (nodes s)(p := rfp, i := rfi)"
proof -
  define hb where "hb = sendHeartbeats_begin (nodes s i)"
  define s1 where "s1 = s\<lparr>hbRounds := insert (i, hb) (hbRounds s)\<rparr>"
  define s2 where "s2 = send i p (SnapshotRequest args) s1"
  define s3 where "s3 = setNode p rfp (s2\<lparr>installReplies := insert (i, p, args, reply) (installReplies s2)\<rparr>)"
  have n: "nodes s1 = nodes s" "nodes s2 = nodes s" by (simp_all add: s1_def s2_def send_def)
  have "step n s s1" unfolding s1_def hb_def by (rule step.heartbeat [OF assms(1)])
  moreover have "step n s1 s2" unfolding s2_def
    by (rule step.heartbeatPeer [of i hb]) (use assms in \<open>simp_all add: n hb_def [symmetric] s1_def\<close>)
  moreover have "step n s2 s3" unfolding s3_def
    by (rule step.install [where now = now]) (use assms in \<open>simp_all add: n\<close>, simp add: s2_def send_def)
  moreover have "step n s3 (setNode i rfi s3)"
    by (rule step.installReply [of i p args reply])
      (use assms in \<open>simp_all add: s3_def setNode_def n\<close>)
  moreover have "nodes (setNode i rfi s3) = (nodes s)(p := rfp, i := rfi)" by (simp add: s3_def setNode_def n)
  ultimately show ?thesis using four_steps [of "step n"] by blast
qed

lemma exchange_steps:
  assumes "i < n" "p < n" "p \<noteq> i" "state (nodes s i) = leader" "exchange now p (nodes s i) (nodes s p) = Some (rfi, rfp)"
  shows "\<exists>s'. (step n)\<^sup>*\<^sup>* s s' \<and> nodes s' = (nodes s)(p := rfp, i := rfi)"
proof -
  obtain out where out: "sendHeartbeats_peer (sendHeartbeats_begin (nodes s i)) p (nodes s i) = Some out"
    using assms(5) by (auto simp: exchange_def bind_Some_conv)
  show ?thesis
  proof (cases out)
    case NoRequest
    then have "nodes s = (nodes s)(p := rfp, i := rfi)" using assms(5) out by (auto simp: exchange_def)
    then show ?thesis by (intro exI [of _ s]) simp
  next
    case (AppendRequest args)
    then show ?thesis using assms(5) out exchange_append [OF assms(1-3)] by (fastforce simp: exchange_def bind_Some_conv)
  next
    case (SnapshotRequest args)
    then show ?thesis using assms(5) out exchange_install [OF assms(1-3)] by (fastforce simp: exchange_def bind_Some_conv)
  qed
qed

lemma talkI:
  assumes "i < n" "p < n" "p \<noteq> i" "state (nodes s i) = leader" "exchange now p (nodes s i) (nodes s p) = Some (rfi, rfp)"
    "ahead p (nodes s i) rfi" "currentTerm rfp = currentTerm (nodes s i)"
  obtains s' where "talk now n i p 1 s s'" "nodes s' = (nodes s)(p := rfp, i := rfi)"
proof -
  obtain s' where s': "(step n)\<^sup>*\<^sup>* s s'" "nodes s' = (nodes s)(p := rfp, i := rfi)" using exchange_steps [OF assms(1-5)] by blast
  have "talk now n i p 1 s s'" using s' assms(3,5-7) by (simp add: talk_def within_def)
  then show ?thesis using s'(2) that by blast
qed

lemma backUp_eq:
  assumes "p < length (nextIndex rf)" "findTerm rf (aerConflictTerm reply) (lastLogIndex rf) = Some r"
  shows "backUp p reply rf = Some (rf\<lparr>nextIndex := (nextIndex rf)
    [p := max 1 (if aerConflictTerm reply = - 1 \<or> r = - 1 then aerConflictIndex reply else r)]\<rparr>)"
  using assms by (auto simp: backUp_def go_update_def max_def)


section \<open>What an exchange achieves\<close>

definition leads :: "nat \<Rightarrow> nat \<Rightarrow> nat \<Rightarrow> ('c, 'b) cluster \<Rightarrow> bool" where
  "leads n i p s \<longleftrightarrow> i < n \<and> p < n \<and> p \<noteq> i \<and> state (nodes s i) = leader
     \<and> currentTerm (nodes s p) \<le> currentTerm (nodes s i)"

lemma leads_talk: "leads n i p s \<Longrightarrow> talk now n i p k s s' \<Longrightarrow> leads n i p s'"
  using aheadD(1,2) by (fastforce simp: leads_def talk_def)

lemma leads_slots:
  assumes "refines n g s" "leads n i p s"
  shows "wf_raft (nodes s i)" "leaderArrays (nodes s i)" "p < length (peers (nodes s i))"
    "1 \<le> nextIndex (nodes s i) ! p" "nextIndex (nodes s i) ! p \<le> lastLogIndex (nodes s i) + 1"
    "0 \<le> matchIndex (nodes s i) ! p" "matchIndex (nodes s i) ! p \<le> lastLogIndex (nodes s i)"
    "length (nextIndex (nodes s i)) = n" "length (matchIndex (nodes s i)) = n" "length (peers (nodes s i)) = n"
proof -
  have i: "i < n" "p < n" "state (nodes s i) = leader" using assms(2) by (simp_all add: leads_def)
  note ok = refinesD(3) [OF assms(1) i(1)]
  show wf: "wf_raft (nodes s i)" and len: "length (peers (nodes s i)) = n" using node_okD(1,2) [OF ok] by simp_all
  then have sl: "leaderSlots (nodes s i)" using i(3) by (simp add: wf_raft_def)
  then show "leaderArrays (nodes s i)" "length (nextIndex (nodes s i)) = n" "length (matchIndex (nodes s i)) = n"
    using len by (simp_all add: leaderSlots_def leaderArrays_def)
  show p: "p < length (peers (nodes s i))" using len i(2) by simp
  show "1 \<le> nextIndex (nodes s i) ! p" "nextIndex (nodes s i) ! p \<le> lastLogIndex (nodes s i) + 1"
    "0 \<le> matchIndex (nodes s i) ! p" "matchIndex (nodes s i) ! p \<le> lastLogIndex (nodes s i)"
    using leaderSlots_nth [OF sl p] by simp_all
qed

lemma leader_request:
  assumes "refines n g s" "leads n i p s" "lastIncludedIndex (nodes s i) < nextIndex (nodes s i) ! p"
  obtains args where
    "sendHeartbeats_peer (sendHeartbeats_begin (nodes s i)) p (nodes s i) = Some (AppendRequest args)"
    "aeTerm args = currentTerm (nodes s i)" "aePrevLogIndex args = nextIndex (nodes s i) ! p - 1"
    "logTerm (nodes s i) (nextIndex (nodes s i) ! p - 1) = Some (aePrevLogTerm args)"
    "aePrevLogIndex args + int (length (aeEntries args)) = lastLogIndex (nodes s i)"
proof -
  have "state (nodes s i) = leader" using assms(2) by (simp add: leads_def)
  from sendHeartbeats_peer_spec [OF leads_slots(1) [OF assms(1,2)] this leads_slots(3) [OF assms(1,2)],
    of "sendHeartbeats_begin (nodes s i)"] assms(3) that show ?thesis by (auto simp: sendHeartbeats_begin_def)
qed

lemma exchange_accepted:
  assumes ref: "refines n g s" and ld: "leads n i p s" and ni: "ni = nextIndex (nodes s i) ! p" "lastIncludedIndex (nodes s i) < ni"
    and at: "lastIncludedIndex (nodes s p) \<le> ni - 1" "ni - 1 \<le> lastLogIndex (nodes s p)"
      "logTerm (nodes s p) (ni - 1) = logTerm (nodes s i) (ni - 1)"
  shows "\<exists>s'. talk now n i p 1 s s' \<and> replicated p (nodes s' i)"
proof -
  let ?rf = "nodes s i" and ?last = "lastLogIndex (nodes s i)"
  note sl = leads_slots [OF ref ld]
  have i: "i < n" "p < n" "p \<noteq> i" "state ?rf = leader" "currentTerm (nodes s p) \<le> currentTerm ?rf"
    using ld by (simp_all add: leads_def)
  obtain args where a: "sendHeartbeats_peer (sendHeartbeats_begin ?rf) p ?rf = Some (AppendRequest args)"
    "aeTerm args = currentTerm ?rf" "aePrevLogIndex args = ni - 1" "logTerm ?rf (ni - 1) = Some (aePrevLogTerm args)"
    "aePrevLogIndex args + int (length (aeEntries args)) = ?last"
    using leader_request [OF ref ld] ni by metis
  obtain rfp where app: "AppendEntries now args (nodes s p) = Some (aeReply (currentTerm ?rf) True (- 1) 0, rfp)"
    "currentTerm rfp = currentTerm ?rf"
    using AppendEntries_match_merge [of "nodes s p" args now] at i(5) a by simp
  define rf1 where "rf1 = ?rf\<lparr>matchIndex := (matchIndex ?rf)[p := ?last], nextIndex := (nextIndex ?rf)[p := ?last + 1]\<rparr>"
  have top: "max (matchIndex ?rf ! p) (aePrevLogIndex args + int (length (aeEntries args))) = ?last"
    using a(5) sl(7) by simp
  have on: "onAppendReply p args (aeReply (currentTerm ?rf) True (- 1) 0) ?rf = maybeAdvanceCommitIndex rf1"
    using onAppendReply_success [OF sl(1) i(4), of args "aeReply (currentTerm ?rf) True (- 1) 0" p] a(2) sl(3)
    unfolding top by (simp add: rf1_def)
  have "leaderArrays rf1" "lastIncludedIndex rf1 \<le> commitIndex rf1"
    using sl(1,2) by (simp_all add: rf1_def leaderArrays_def wf_raft_def)
  from maybeAdvanceCommitIndex_spec [OF this] obtain c where
    c: "maybeAdvanceCommitIndex rf1 = Some (rf1\<lparr>commitIndex := c\<rparr>)" "c = commitIndex rf1 \<or> commitIndex rf1 < c"
    "\<And>m. c < m \<Longrightarrow> m \<le> lastLogIndex rf1 \<Longrightarrow> \<not> committable rf1 m"
    by auto
  have ex: "exchange now p ?rf (nodes s p) = Some (rf1\<lparr>commitIndex := c\<rparr>, rfp)"
    by (simp add: exchange_def a(1) app(1) on c(1))
  have "ahead p ?rf (rf1\<lparr>commitIndex := c\<rparr>)"
    unfolding ahead_def rf1_def using c(2)
    by (intro exI [of _ "(matchIndex ?rf)[p := ?last]"] exI [of _ "(nextIndex ?rf)[p := ?last + 1]"] exI [of _ c])
      (auto simp: rf1_def)
  then obtain s' where s': "talk now n i p 1 s s'" "nodes s' = (nodes s)(p := rfp, i := rf1\<lparr>commitIndex := c\<rparr>)"
    by (rule talkI [OF i(1-4) ex _ app(2)])
  moreover have "replicated p (nodes s' i)"
    using c(3) sl i(2) by (simp add: replicated_def s'(2)) (simp add: rf1_def lastLogIndex_def)
  ultimately show ?thesis by blast
qed

lemma exchange_rejected:
  assumes ref: "refines n g s" and ld: "leads n i p s" and ni: "ni = nextIndex (nodes s i) ! p" "lastIncludedIndex (nodes s i) < ni"
    and rej: "\<And>args. aeTerm args = currentTerm (nodes s i) \<Longrightarrow> aePrevLogIndex args = ni - 1 \<Longrightarrow>
      logTerm (nodes s i) (ni - 1) = Some (aePrevLogTerm args) \<Longrightarrow>
      AppendEntries now args (nodes s p) = Some (aeReply (aeTerm args) False ct ci, aeAccepted now args (nodes s p))"
    and r: "findTerm (nodes s i) ct (lastLogIndex (nodes s i)) = Some r"
  shows "\<exists>s'. talk now n i p 1 s s' \<and> nextIndex (nodes s' i) ! p = max 1 (if ct = - 1 \<or> r = - 1 then ci else r)
    \<and> lastIncludedIndex (nodes s' p) = lastIncludedIndex (nodes s p) \<and> matchIndex (nodes s' i) = matchIndex (nodes s i)"
proof -
  let ?rf = "nodes s i" and ?x = "max 1 (if ct = - 1 \<or> r = - 1 then ci else r)"
  note sl = leads_slots [OF ref ld]
  have i: "i < n" "p < n" "p \<noteq> i" "state ?rf = leader" using ld by (simp_all add: leads_def)
  obtain args where a: "sendHeartbeats_peer (sendHeartbeats_begin ?rf) p ?rf = Some (AppendRequest args)"
    "aeTerm args = currentTerm ?rf" "aePrevLogIndex args = ni - 1" "logTerm ?rf (ni - 1) = Some (aePrevLogTerm args)"
    using leader_request [OF ref ld] ni by metis
  have on: "onAppendReply p args (aeReply (aeTerm args) False ct ci) ?rf = Some (?rf\<lparr>nextIndex := (nextIndex ?rf)[p := ?x]\<rparr>)"
    using backUp_eq [of p ?rf "aeReply (aeTerm args) False ct ci" r] r sl i(2,4) a(2)
    by (simp add: onAppendReply_def)
  have ex: "exchange now p ?rf (nodes s p) = Some (?rf\<lparr>nextIndex := (nextIndex ?rf)[p := ?x]\<rparr>, aeAccepted now args (nodes s p))"
    by (simp add: exchange_def a(1) rej [OF a(2-4)] on)
  have "ahead p ?rf (?rf\<lparr>nextIndex := (nextIndex ?rf)[p := ?x]\<rparr>)"
    unfolding ahead_def
    by (intro exI [of _ "matchIndex ?rf"] exI [of _ "(nextIndex ?rf)[p := ?x]"] exI [of _ "commitIndex ?rf"]) simp
  then obtain s' where s': "talk now n i p 1 s s'"
    "nodes s' = (nodes s)(p := aeAccepted now args (nodes s p), i := ?rf\<lparr>nextIndex := (nextIndex ?rf)[p := ?x]\<rparr>)"
    by (rule talkI [OF i(1-4) ex]) (simp_all add: a(2))
  with i(2,3) sl(8) show ?thesis by (intro exI [of _ s']) simp
qed

lemma exchange_snapshot:
  assumes ref: "refines n g s" and ld: "leads n i p s" and ni: "nextIndex (nodes s i) ! p \<le> lastIncludedIndex (nodes s i)"
  shows "\<exists>s'. talk now n i p 1 s s' \<and> lastIncludedIndex (nodes s i) < nextIndex (nodes s' i) ! p
    \<and> lastIncludedIndex (nodes s i) \<le> lastIncludedIndex (nodes s' p)"
proof -
  let ?rf = "nodes s i" and ?args = "snapshotArgs (nodes s i)" and ?z = "lastIncludedIndex (nodes s i)"
  note sl = leads_slots [OF ref ld]
  have i: "i < n" "p < n" "p \<noteq> i" "state ?rf = leader" "currentTerm (nodes s p) \<le> currentTerm ?rf"
    using ld by (simp_all add: leads_def)
  have req: "sendHeartbeats_peer (sendHeartbeats_begin ?rf) p ?rf = Some (SnapshotRequest ?args)"
    using sendHeartbeats_peer_spec [OF sl(1) i(4) sl(3), of "sendHeartbeats_begin ?rf"] ni by simp
  have f: "isTerm ?args = currentTerm ?rf" "isLastIncludedIndex ?args = ?z" by (simp_all add: snapshotArgs_def)
  obtain rfp where ins: "InstallSnapshot now ?args (nodes s p) = Some (\<lparr>isrTerm = currentTerm (nodes s p)\<rparr>, rfp)"
    "currentTerm rfp = currentTerm ?rf" "?z \<le> lastIncludedIndex rfp"
  proof (cases "?z \<le> lastIncludedIndex (nodes s p)")
    case True
    with InstallSnapshot_outdated [of "nodes s p" ?args now] i(5) f that show ?thesis by (simp add: isAccepted_def)
  next
    case False
    with InstallSnapshot_installed [of "nodes s p" ?args now] i(5) f that show ?thesis
      by (simp add: isInstalled_def isAccepted_def)
  qed
  define m where "m = max (matchIndex ?rf ! p) ?z"
  define rfi where "rfi = ?rf\<lparr>matchIndex := (matchIndex ?rf)[p := m], nextIndex := (nextIndex ?rf)[p := m + 1]\<rparr>"
  have on: "onSnapshotReply p ?args \<lparr>isrTerm = currentTerm (nodes s p)\<rparr> ?rf = Some rfi"
    using i sl f by (simp add: onSnapshotReply_def go_nth_def go_update_def m_def rfi_def max_def Let_def)
  have ex: "exchange now p ?rf (nodes s p) = Some (rfi, rfp)" by (simp add: exchange_def req ins(1) on)
  have "ahead p ?rf rfi" unfolding ahead_def rfi_def
    by (intro exI [of _ "(matchIndex ?rf)[p := m]"] exI [of _ "(nextIndex ?rf)[p := m + 1]"] exI [of _ "commitIndex ?rf"]) simp
  then obtain s' where s': "talk now n i p 1 s s'" "nodes s' = (nodes s)(p := rfp, i := rfi)"
    by (rule talkI [OF i(1-4) ex _ ins(2)])
  with i(2,3) sl(8) ins(3) show ?thesis by (intro exI [of _ s']) (simp add: rfi_def m_def)
qed


section \<open>Catching up\<close>

lemma leads_logs:
  assumes "refines n g s" "leads n i p s"
  shows "matched g (flog g i)" "genuine g (flog g p)" "lead g (currentTerm (nodes s i)) \<noteq> None"
    "flog g i = leadLog g (currentTerm (nodes s i))"
proof -
  have i: "i < n" "state (nodes s i) = leader" using assms(2) by (simp_all add: leads_def)
  show ld: "lead g (currentTerm (nodes s i)) \<noteq> None" "flog g i = leadLog g (currentTerm (nodes s i))"
    using node_okD(8) [OF refinesD(3) [OF assms(1) i(1)] i(2)] by (simp_all add: leadsTerm_def)
  show "matched g (flog g i)" using lead_log(1) [OF refinesD(1) [OF assms(1)] ld(1)] ld(2) by simp
  show "genuine g (flog g p)" using pinvD(6) [OF refinesD(1) [OF assms(1)], of p] by (simp add: log_ok_def)
qed

text \<open>What the peer has committed is in the leader's log.\<close>

lemma committed_shared:
  assumes ref: "refines n g s" and ld: "leads n i p s"
    and k: "lastIncludedIndex (nodes s p) \<le> k" "k \<le> commitIndex (nodes s p)" "lastIncludedIndex (nodes s i) \<le> k"
  shows "logTerm (nodes s p) k = logTerm (nodes s i) k" "k \<le> lastLogIndex (nodes s i)"
proof -
  have i: "i < n" "p < n" "currentTerm (nodes s p) \<le> currentTerm (nodes s i)" using ld by (simp_all add: leads_def)
  note ok = refinesD(3) [OF ref i(1)] and okp = refinesD(3) [OF ref i(2)]
  let ?c = "nat (commitIndex (nodes s p))"
  have le: "dterm g p \<le> currentTerm (nodes s i)" using node_okD(5) [OF okp] i(3) by simp
  have pre: "prefix (take ?c (flog g p)) (flog g i)"
    using settled_leader [OF refinesD(1) [OF ref] node_okD(6) [OF okp] le leads_logs(3) [OF ref ld]] leads_logs(4) [OF ref ld] by simp
  have kc: "nat k \<le> ?c" "?c \<le> length (flog g p)" "0 \<le> k"
    using k(1,2) node_okD(10,11) [OF okp] node_okD(4) [OF okp] by (auto simp: node_rel_def)
  then have len: "nat k \<le> length (take ?c (flog g p))" by simp
  then have ki: "nat k \<le> length (flog g i)" using pre prefix_length_le le_trans by blast
  then show "k \<le> lastLogIndex (nodes s i)" using node_last [OF node_okD(4) [OF ok]] kc(3) by simp
  have "termAt (flog g i) (nat k) = termAt (flog g p) (nat k)"
    using termAt_prefix [OF pre len] termAt_take [OF kc(1)] by simp
  with node_logTerm [OF node_okD(4) [OF ok] k(3)] node_logTerm [OF node_okD(4) [OF okp] k(1)] kc ki
  show "logTerm (nodes s p) k = logTerm (nodes s i) k" by simp
qed

lemma conflictStart_cong:
  assumes "lastIncludedIndex rf' = lastIncludedIndex rf" "logTerm rf' = logTerm rf"
  shows "conflictStart rf' t c = conflictStart rf t c"
  using assms
proof (induction rf t c rule: conflictStart.induct)
  case (1 rf t c)
  show ?case
  proof (cases "lastIncludedIndex rf + 1 < c \<and> logTerm rf (c - 1) = Some t")
    case True
    with "1.IH" [of t] "1.prems" show ?thesis
      by (simp add: conflictStart.simps [of rf' t c] conflictStart.simps [of rf t c])
  next
    case False
    with "1.prems" show ?thesis
      by (cases "logTerm rf (c - 1)") (auto simp: conflictStart.simps [of rf' t c] conflictStart.simps [of rf t c])
  qed
qed

lemma later_term_absent:
  assumes "matched g K" "genuine g L" "0 < q" "q \<le> length L" "q \<le> length K" "0 < j" "j \<le> length K"
    "termAt K j = termAt L q" "termAt K q \<noteq> termAt L q"
  shows "j < q"
proof (rule ccontr)
  assume "\<not> j < q"
  let ?T = "leadLog g (termAt L q)"
  have "eTerm (K ! (j - 1)) = termAt L q" "j - 1 < length K" using assms(6-8) by (simp_all add: termAt_def)
  then have "take (Suc (j - 1)) ?T = take (Suc (j - 1)) K" using assms(1) unfolding matched_def by metis
  then have "take j ?T = take j K" using assms(6) by simp
  then have "?T ! (q - 1) = K ! (q - 1)" using \<open>\<not> j < q\<close> assms(3)
    by (metis diff_less less_le_trans not_less nth_take zero_less_one)
  moreover have "?T ! (q - 1) = L ! (q - 1)" using assms(2-4) by (auto simp: genuine_def termAt_def)
  ultimately show False using assms(3,9) by (simp add: termAt_def)
qed

lemma exchange_short:
  assumes ref: "refines n g s" and ld: "leads n i p s" and ni: "ni = nextIndex (nodes s i) ! p" "lastIncludedIndex (nodes s i) < ni"
    and at: "lastIncludedIndex (nodes s p) \<le> ni - 1" "lastLogIndex (nodes s p) < ni - 1"
  shows "\<exists>s'. talk now n i p 1 s s' \<and> nextIndex (nodes s' i) ! p = lastLogIndex (nodes s p) + 1
    \<and> lastIncludedIndex (nodes s' p) = lastIncludedIndex (nodes s p)"
proof -
  have le: "currentTerm (nodes s p) \<le> currentTerm (nodes s i)" "p < n" using ld by (simp_all add: leads_def)
  obtain r where r: "findTerm (nodes s i) (- 1) (lastLogIndex (nodes s i)) = Some r"
    using findTerm_spec [of "lastLogIndex (nodes s i)" "nodes s i" "- 1"] by blast
  have "1 \<le> lastLogIndex (nodes s p) + 1"
    using node_okD(4) [OF refinesD(3) [OF ref le(2)]] node_last by fastforce
  moreover have "AppendEntries now args (nodes s p)
      = Some (aeReply (aeTerm args) False (- 1) (lastLogIndex (nodes s p) + 1), aeAccepted now args (nodes s p))"
    if "aeTerm args = currentTerm (nodes s i)" "aePrevLogIndex args = ni - 1" for args
    using AppendEntries_short [of "nodes s p" args now] that at le by simp
  ultimately show ?thesis using exchange_rejected [OF ref ld ni _ r, where ci = "lastLogIndex (nodes s p) + 1" and now = now] by fastforce
qed

lemma exchange_behind:
  assumes ref: "refines n g s" and ld: "leads n i p s" and ni: "ni = nextIndex (nodes s i) ! p" "lastIncludedIndex (nodes s i) < ni"
    and at: "ni - 1 < lastIncludedIndex (nodes s p)"
  shows "\<exists>s'. talk now n i p 1 s s' \<and> nextIndex (nodes s' i) ! p = lastIncludedIndex (nodes s p) + 1
    \<and> lastIncludedIndex (nodes s' p) = lastIncludedIndex (nodes s p)"
proof -
  have le: "currentTerm (nodes s p) \<le> currentTerm (nodes s i)" "p < n" using ld by (simp_all add: leads_def)
  obtain r where r: "findTerm (nodes s i) (- 1) (lastLogIndex (nodes s i)) = Some r"
    using findTerm_spec [of "lastLogIndex (nodes s i)" "nodes s i" "- 1"] by blast
  have "1 \<le> lastIncludedIndex (nodes s p) + 1"
    using node_okD(4) [OF refinesD(3) [OF ref le(2)]] by (simp add: node_rel_def)
  moreover have "AppendEntries now args (nodes s p)
      = Some (aeReply (aeTerm args) False (- 1) (lastIncludedIndex (nodes s p) + 1), aeAccepted now args (nodes s p))"
    if "aeTerm args = currentTerm (nodes s i)" "aePrevLogIndex args = ni - 1" for args
    using AppendEntries_behind [of "nodes s p" args now] that at le by simp
  ultimately show ?thesis using exchange_rejected [OF ref ld ni _ r, where ci = "lastIncludedIndex (nodes s p) + 1" and now = now] by fastforce
qed

lemma exchange_mismatch:
  assumes ref: "refines n g s" and ld: "leads n i p s" and ni: "ni = nextIndex (nodes s i) ! p" "lastIncludedIndex (nodes s i) < ni"
    and at: "lastIncludedIndex (nodes s p) < ni - 1" "ni - 1 \<le> lastLogIndex (nodes s p)"
      "logTerm (nodes s p) (ni - 1) \<noteq> logTerm (nodes s i) (ni - 1)"
  shows "\<exists>s'. talk now n i p 1 s s' \<and> nextIndex (nodes s' i) ! p < ni
    \<and> min (lastIncludedIndex (nodes s p)) (lastIncludedIndex (nodes s i)) < nextIndex (nodes s' i) ! p
    \<and> lastIncludedIndex (nodes s' p) = lastIncludedIndex (nodes s p)"
proof -
  let ?i = "nodes s i" and ?p = "nodes s p"
  have le: "currentTerm ?p \<le> currentTerm ?i" "p < n" "i < n" using ld by (simp_all add: leads_def)
  note rel = node_okD(4) [OF refinesD(3) [OF ref le(3)]] and relp = node_okD(4) [OF refinesD(3) [OF ref le(2)]]
  note len = node_last [OF rel] node_last [OF relp]
  define q where "q = nat (ni - 1)"
  have q: "int q = ni - 1" "0 < q" "q \<le> length (flog g p)" "q \<le> length (flog g i)"
    using at(1,2) relp len leads_slots(5) [OF ref ld] ni by (auto simp: q_def node_rel_def)
  have tp: "logTerm ?p (ni - 1) = Some (termAt (flog g p) q)" using node_logTerm [OF relp, of "ni - 1"] at len by (simp add: q_def)
  have ti: "logTerm ?i (ni - 1) = Some (termAt (flog g i) q)" using node_logTerm [OF rel, of "ni - 1"] ni(2) q(1,4) by (simp add: q_def)
  define t where "t = termAt (flog g p) q"
  have cs: "conflictStart (aeAccepted now args ?p) t (ni - 1) = conflictStart ?p t (ni - 1)" for args
    by (rule conflictStart_cong) (simp_all add: logTerm_def logIndex_def fun_eq_iff)
  obtain c where c: "conflictStart ?p t (ni - 1) = Some c" "c \<le> ni - 1" "min (ni - 1) (lastIncludedIndex ?p + 1) \<le> c"
    using conflictStart_spec [of ?p "ni - 1" t] at by auto
  obtain r where r: "findTerm ?i t (lastLogIndex ?i) = Some r"
    "r = - 1 \<or> lastIncludedIndex ?i + 1 < r \<and> r \<le> lastLogIndex ?i + 1 \<and> logTerm ?i (r - 1) = Some t"
    using findTerm_spec [of "lastLogIndex ?i" ?i t] by blast
  have rle: "r \<le> ni - 1" if "r \<noteq> - 1"
  proof -
    have rr: "lastIncludedIndex ?i < r - 1" "r - 1 \<le> int (length (flog g i))" "0 < r - 1" using r(2) that len rel by (auto simp: node_rel_def)
    then have "termAt (flog g i) (nat (r - 1)) = termAt (flog g p) q"
      using node_logTerm [OF rel, of "r - 1"] r(2) that by (simp add: t_def)
    moreover have "termAt (flog g i) q \<noteq> termAt (flog g p) q" using at(3) tp ti by simp
    ultimately have "nat (r - 1) < q" using later_term_absent [OF leads_logs(1,2) [OF ref ld] q(2-4), of "nat (r - 1)"] rr by simp
    then show ?thesis using q(1) rr(3) by simp
  qed
  have "AppendEntries now args ?p = Some (aeReply (aeTerm args) False t c, aeAccepted now args ?p)"
    if "aeTerm args = currentTerm ?i" "aePrevLogIndex args = ni - 1" "logTerm ?i (ni - 1) = Some (aePrevLogTerm args)" for args
    using AppendEntries_mismatch [of ?p args t now] that at le(1) tp ti cs c(1) by (simp add: t_def)
  from exchange_rejected [OF ref ld ni this r(1)] obtain s' where s': "talk now n i p 1 s s'"
    "nextIndex (nodes s' i) ! p = max 1 (if t = - 1 \<or> r = - 1 then c else r)"
    "lastIncludedIndex (nodes s' p) = lastIncludedIndex ?p"
    by blast
  have "0 \<le> lastIncludedIndex ?p" "0 \<le> lastIncludedIndex ?i" using rel relp by (simp_all add: node_rel_def)
  with s' c(2,3) rle r(2) at(1) show ?thesis by (intro exI [of _ s']) (auto simp: max_def min_def split: if_splits)
qed


lemma talk_refines: "refines n g s \<Longrightarrow> talk now n i p k s s' \<Longrightarrow> \<exists>g'. refines n g' s'"
  unfolding talk_def using within_refines by blast

lemma exchange_round:
  assumes ref: "refines n g s" and ld: "leads n i p s" and ni: "ni = nextIndex (nodes s i) ! p" "lastIncludedIndex (nodes s i) < ni"
    and at: "lastIncludedIndex (nodes s p) \<le> ni - 1"
  shows "\<exists>s'. talk now n i p 1 s s' \<and> (replicated p (nodes s' i) \<or> nextIndex (nodes s' i) ! p < ni
    \<and> min (lastIncludedIndex (nodes s p)) (lastIncludedIndex (nodes s i)) < nextIndex (nodes s' i) ! p
    \<and> lastIncludedIndex (nodes s' p) = lastIncludedIndex (nodes s p))"
proof -
  have p: "p < n" using ld by (simp add: leads_def)
  note wf = node_okD [OF refinesD(3) [OF ref p]]
  consider "lastLogIndex (nodes s p) < ni - 1"
    | "ni - 1 \<le> lastLogIndex (nodes s p)" "logTerm (nodes s p) (ni - 1) = logTerm (nodes s i) (ni - 1)"
    | "ni - 1 \<le> lastLogIndex (nodes s p)" "logTerm (nodes s p) (ni - 1) \<noteq> logTerm (nodes s i) (ni - 1)"
    by linarith
  then show ?thesis
  proof cases
    case 1
    have "lastIncludedIndex (nodes s p) \<le> lastLogIndex (nodes s p)"
      using wf(1) by (simp add: wf_raft_def)
    with exchange_short [OF ref ld ni at 1] 1 show ?thesis by force
  next
    case 2
    from exchange_accepted [OF ref ld ni at 2] show ?thesis by blast
  next
    case 3
    have "lastIncludedIndex (nodes s p) \<noteq> ni - 1"
      using committed_shared(1) [OF ref ld order_refl wf(12)] 3(2) ni(2) by auto
    with at have "lastIncludedIndex (nodes s p) < ni - 1" by simp
    from exchange_mismatch [OF ref ld ni this 3] show ?thesis by blast
  qed
qed

text \<open>A peer that has compacted as much as the leader.\<close>

lemma catch_up_compacted:
  assumes "refines n g s" "leads n i p s" "lastIncludedIndex (nodes s i) < nextIndex (nodes s i) ! p"
    "lastIncludedIndex (nodes s i) \<le> lastIncludedIndex (nodes s p)"
  shows "\<exists>s' k. k \<le> nat (nextIndex (nodes s i) ! p) + 2 \<and> talk now n i p k s s' \<and> replicated p (nodes s' i)"
  using assms
proof (induction "nat (nextIndex (nodes s i) ! p)" arbitrary: s g rule: less_induct)
  case less
  note ref = less.prems(1) and ld = less.prems(2)
  define ni where "ni = nextIndex (nodes s i) ! p"
  show ?case
  proof (cases "ni - 1 < lastIncludedIndex (nodes s p)")
    case True
    from exchange_behind [OF ref ld ni_def] True less.prems(3) obtain s1 where s1: "talk now n i p 1 s s1"
      "nextIndex (nodes s1 i) ! p = lastIncludedIndex (nodes s p) + 1" "lastIncludedIndex (nodes s1 p) = lastIncludedIndex (nodes s p)"
      by (auto simp: ni_def)
    obtain g1 where r1: "refines n g1 s1" using talk_refines [OF ref s1(1)] by blast
    note ld1 = leads_talk [OF ld s1(1)]
    have z: "lastIncludedIndex (nodes s1 i) = lastIncludedIndex (nodes s i)" using s1(1) aheadD(6) by (auto simp: talk_def)
    have "p < n" using ld by (simp add: leads_def)
    note wf = node_okD [OF refinesD(3) [OF r1 this]]
    have "lastIncludedIndex (nodes s1 p) \<le> lastLogIndex (nodes s1 p)" using wf(1) by (simp add: wf_raft_def)
    moreover have "logTerm (nodes s1 p) (lastIncludedIndex (nodes s1 p)) = logTerm (nodes s1 i) (lastIncludedIndex (nodes s1 p))"
      using committed_shared(1) [OF r1 ld1 order_refl wf(12)] s1(3) z less.prems(4) by simp
    ultimately obtain s' where s': "talk now n i p 1 s1 s'" "replicated p (nodes s' i)"
      using exchange_accepted [OF r1 ld1 s1(2) [symmetric]] s1(3) z less.prems(4) by auto
    have "1 + 1 \<le> nat (nextIndex (nodes s i) ! p) + 2" by simp
    with talk_trans [OF s1(1) s'(1)] s'(2) show ?thesis by blast
  next
    case False
    from exchange_round [OF ref ld ni_def] False less.prems(3) obtain s1 where s1: "talk now n i p 1 s s1"
      "replicated p (nodes s1 i) \<or> nextIndex (nodes s1 i) ! p < ni
         \<and> min (lastIncludedIndex (nodes s p)) (lastIncludedIndex (nodes s i)) < nextIndex (nodes s1 i) ! p
         \<and> lastIncludedIndex (nodes s1 p) = lastIncludedIndex (nodes s p)"
      by (auto simp: ni_def)
    obtain g1 where r1: "refines n g1 s1" using talk_refines [OF ref s1(1)] by blast
    note ld1 = leads_talk [OF ld s1(1)]
    have z: "lastIncludedIndex (nodes s1 i) = lastIncludedIndex (nodes s i)" using s1(1) aheadD(6) by (auto simp: talk_def)
    show ?thesis
    proof (cases "replicated p (nodes s1 i)")
      case True
      moreover have "1 \<le> nat (nextIndex (nodes s i) ! p) + 2" by simp
      ultimately show ?thesis using s1(1) by blast
    next
      case False
      with s1(2) have d: "nextIndex (nodes s1 i) ! p < ni" "lastIncludedIndex (nodes s i) < nextIndex (nodes s1 i) ! p"
        "lastIncludedIndex (nodes s1 p) = lastIncludedIndex (nodes s p)"
        using less.prems(4) by auto
      have "1 \<le> nextIndex (nodes s1 i) ! p" using leads_slots(4) [OF r1 ld1] .
      then have "nat (nextIndex (nodes s1 i) ! p) < nat (nextIndex (nodes s i) ! p)" using d(1) by (simp add: ni_def)
      from less.hyps [OF this r1 ld1] d z less.prems(4) obtain s' k where s': "k \<le> nat (nextIndex (nodes s1 i) ! p) + 2"
        "talk now n i p k s1 s'" "replicated p (nodes s' i)" by auto
      have "1 + k \<le> nat (nextIndex (nodes s i) ! p) + 2" using s'(1) d(1) leads_slots(4) [OF r1 ld1] by (simp add: ni_def)
      with talk_trans [OF s1(1) s'(2)] s'(3) show ?thesis by blast
    qed
  qed
qed

lemma catch_up_snapshot:
  assumes ref: "refines n g s" and ld: "leads n i p s" and ni: "nextIndex (nodes s i) ! p \<le> lastIncludedIndex (nodes s i)"
  shows "\<exists>s' k. k \<le> nat (lastLogIndex (nodes s i)) + 4 \<and> talk now n i p k s s' \<and> replicated p (nodes s' i)"
proof -
  obtain s1 where s1: "talk now n i p 1 s s1" "lastIncludedIndex (nodes s i) < nextIndex (nodes s1 i) ! p"
    "lastIncludedIndex (nodes s i) \<le> lastIncludedIndex (nodes s1 p)"
    using exchange_snapshot [OF assms] by blast
  obtain g1 where r1: "refines n g1 s1" using talk_refines [OF ref s1(1)] by blast
  note ld1 = leads_talk [OF ld s1(1)]
  have same: "lastIncludedIndex (nodes s1 i) = lastIncludedIndex (nodes s i)" "lastLogIndex (nodes s1 i) = lastLogIndex (nodes s i)"
    using s1(1) aheadD(6,8) by (auto simp: talk_def)
  with catch_up_compacted [OF r1 ld1, of now] s1 obtain s' k where s': "k \<le> nat (nextIndex (nodes s1 i) ! p) + 2"
    "talk now n i p k s1 s'" "replicated p (nodes s' i)" by auto
  have "1 + k \<le> nat (lastLogIndex (nodes s i)) + 4" using s'(1) leads_slots(4,5) [OF r1 ld1] same(2) by simp
  with talk_trans [OF s1(1) s'(2)] s'(3) show ?thesis by blast
qed

lemma catch_up:
  assumes "refines n g s" "leads n i p s"
  shows "\<exists>s' k. k \<le> nat (nextIndex (nodes s i) ! p) + nat (lastLogIndex (nodes s i)) + 4 \<and> talk now n i p k s s'
    \<and> replicated p (nodes s' i)"
  using assms
proof (induction "nat (nextIndex (nodes s i) ! p)" arbitrary: s g rule: less_induct)
  case less
  note ref = less.prems(1) and ld = less.prems(2)
  define ni where "ni = nextIndex (nodes s i) ! p"
  consider "ni \<le> lastIncludedIndex (nodes s i)"
    | "lastIncludedIndex (nodes s i) < ni" "lastIncludedIndex (nodes s i) \<le> lastIncludedIndex (nodes s p)"
    | "lastIncludedIndex (nodes s i) < ni" "lastIncludedIndex (nodes s p) \<le> ni - 1"
    by linarith
  then show ?case
  proof cases
    case 1
    then obtain s' k where s': "k \<le> nat (lastLogIndex (nodes s i)) + 4" "talk now n i p k s s'" "replicated p (nodes s' i)"
      using catch_up_snapshot [OF ref ld, of now] by (auto simp: ni_def)
    then have "k \<le> nat (nextIndex (nodes s i) ! p) + nat (lastLogIndex (nodes s i)) + 4" by simp
    with s'(2,3) show ?thesis by blast
  next
    case 2
    then obtain s' k where s': "k \<le> nat (nextIndex (nodes s i) ! p) + 2" "talk now n i p k s s'" "replicated p (nodes s' i)"
      using catch_up_compacted [OF ref ld, of now] by (auto simp: ni_def)
    then have "k \<le> nat (nextIndex (nodes s i) ! p) + nat (lastLogIndex (nodes s i)) + 4" by simp
    with s'(2,3) show ?thesis by blast
  next
    case 3
    from exchange_round [OF ref ld ni_def 3] obtain s1 where s1: "talk now n i p 1 s s1"
      "replicated p (nodes s1 i) \<or> nextIndex (nodes s1 i) ! p < ni" by blast
    obtain g1 where r1: "refines n g1 s1" using talk_refines [OF ref s1(1)] by blast
    note ld1 = leads_talk [OF ld s1(1)]
    have pos: "1 \<le> nextIndex (nodes s1 i) ! p" by (rule leads_slots(4) [OF r1 ld1])
    from s1(2) show ?thesis
    proof
      assume "nextIndex (nodes s1 i) ! p < ni"
      then have "nat (nextIndex (nodes s1 i) ! p) < nat (nextIndex (nodes s i) ! p)" using pos by (simp add: ni_def)
      note lt = this
      from less.hyps [OF lt r1 ld1] obtain s' k where
        s': "k \<le> nat (nextIndex (nodes s1 i) ! p) + nat (lastLogIndex (nodes s1 i)) + 4" "talk now n i p k s1 s'" "replicated p (nodes s' i)"
        by blast
      have "lastLogIndex (nodes s1 i) = lastLogIndex (nodes s i)" using s1(1) aheadD(8) by (auto simp: talk_def)
      then have "1 + k \<le> nat (nextIndex (nodes s i) ! p) + nat (lastLogIndex (nodes s i)) + 4" using s'(1) lt by linarith
      with talk_trans [OF s1(1) s'(2)] s'(3) show ?thesis by blast
    next
      assume "replicated p (nodes s1 i)"
      moreover have "1 \<le> nat (nextIndex (nodes s i) ! p) + nat (lastLogIndex (nodes s i)) + 4" by simp
      ultimately show ?thesis using s1(1) by blast
    qed
  qed
qed

text \<open>Several peers, one after the other.\<close>

lemma catch_up_all:
  assumes "refines n g s" "i < n" "state (nodes s i) = leader"
    "\<forall>p\<in>set ps. p < n \<and> p \<noteq> i \<and> currentTerm (nodes s p) \<le> currentTerm (nodes s i)" "distinct ps"
  shows "\<exists>s' mx nx c. within n (insert i (set ps)) s s'
    \<and> nodes s' i = (nodes s i)\<lparr>matchIndex := mx, nextIndex := nx, commitIndex := c\<rparr>
    \<and> (\<forall>p\<in>set ps. mx ! p = lastLogIndex (nodes s i))
    \<and> (ps \<noteq> [] \<longrightarrow> replicated (last ps) (nodes s' i))"
  using assms
proof (induction ps rule: rev_induct)
  case Nil
  show ?case
    by (rule exI [of _ s], rule exI [of _ "matchIndex (nodes s i)"], rule exI [of _ "nextIndex (nodes s i)"],
        rule exI [of _ "commitIndex (nodes s i)"]) simp
next
  case (snoc p ps)
  have pre: "\<forall>q\<in>set ps. q < n \<and> q \<noteq> i \<and> currentTerm (nodes s q) \<le> currentTerm (nodes s i)" "distinct ps"
    using snoc.prems(4,5) by simp_all
  obtain s1 mx nx c where s1: "within n (insert i (set ps)) s s1"
    "nodes s1 i = (nodes s i)\<lparr>matchIndex := mx, nextIndex := nx, commitIndex := c\<rparr>"
    "\<forall>q\<in>set ps. mx ! q = lastLogIndex (nodes s i)"
    using snoc.IH [OF snoc.prems(1-3) pre] by (elim exE conjE) (rule that; assumption)
  obtain g1 where r1: "refines n g1 s1" using within_refines [OF s1(1) snoc.prems(1)] by blast
  have p: "p < n" "p \<noteq> i" "p \<notin> set ps" "currentTerm (nodes s p) \<le> currentTerm (nodes s i)" using snoc.prems by auto
  then have "leads n i p s1" using snoc.prems(2,3) s1(1,2) by (simp add: leads_def within_def)
  from catch_up [OF r1 this, of 0] obtain s' k where s': "talk 0 n i p k s1 s'" "replicated p (nodes s' i)" by blast
  then obtain mx' nx' c' where ah: "nodes s' i = (nodes s1 i)\<lparr>matchIndex := mx', nextIndex := nx', commitIndex := c'\<rparr>"
    "\<forall>q. q \<noteq> p \<longrightarrow> mx' ! q = mx ! q" "within n {i, p} s1 s'"
    using s1(2) by (auto simp: talk_def ahead_def within_def)
  have top: "mx' ! p = lastLogIndex (nodes s i)" using s'(2) by (simp add: replicated_def ah(1) s1(2) lastLogIndex_def)
  have at: "nodes s' i = (nodes s i)\<lparr>matchIndex := mx', nextIndex := nx', commitIndex := c'\<rparr>" by (simp add: ah(1) s1(2))
  have all: "\<forall>q\<in>set (ps @ [p]). mx' ! q = lastLogIndex (nodes s i)" using ah(2) s1(3) p(3) top by auto
  have "within n (insert i (set (ps @ [p]))) s s'"
    by (rule within_trans [OF within_mono [OF s1(1)] within_mono [OF ah(3)]]) auto
  with at all s'(2) show ?case
    by (intro exI [of _ s'] exI [of _ mx'] exI [of _ nx'] exI [of _ c']) simp
qed

lemma applies_command:
  assumes ok: "node_ok n g i (nodes s i)" and i: "i < n" "lastApplied (nodes s i) < commitIndex (nodes s i)"
    and free: "inGap s i \<or> pendingSnapshot (nodes s i) = None"
  obtains s' e where "step n s s'" "within n {i} s s'"
    "nodes s' i = (nodes s i)\<lparr>lastApplied := lastApplied (nodes s i) + 1\<rparr>"
    "entryAt (nodes s i) (lastApplied (nodes s i) + 1) = Some e"
    "commandMsg (eCommand e) (lastApplied (nodes s i) + 1) \<in> set (delivered s' i)"
proof -
  let ?rf = "nodes s i"
  let ?rf' = "?rf\<lparr>lastApplied := lastApplied ?rf + 1\<rparr>" and ?e = "log ?rf ! nat (lastApplied ?rf + 1 - lastIncludedIndex ?rf)"
  define s' where "s' = handOver i (Some (commandMsg (eCommand ?e) (lastApplied ?rf + 1))) (setNode i ?rf' s)"
  have gap: "applyGap ?rf = Some (Some (commandMsg (eCommand ?e) (lastApplied ?rf + 1)), ?rf')"
    using applyGap_spec [OF node_okD(1) [OF ok]] i(2) by simp
  have "step n s s'"
  proof (cases "inGap s i")
    case True
    then show ?thesis unfolding s'_def by (rule step.applyInner [OF i(1) _ gap])
  next
    case False
    with free have "applyTop ?rf = applyGap ?rf" by (simp add: applyTop_def)
    with False gap show ?thesis unfolding s'_def by (intro step.applyOuter [OF i(1)]) simp_all
  qed
  moreover from this have "within n {i} s s'" by (auto simp: within_def s'_def handOver_def setNode_def)
  moreover have "entryAt ?rf (lastApplied ?rf + 1) = Some ?e"
    using node_okD(1) [OF ok] i(2) by (intro entryAt_in_range) (auto simp: wf_raft_def)
  ultimately show thesis by (intro that [of s' ?e]) (simp_all add: s'_def handOver_def setNode_def)
qed

lemma applies_snapshot:
  assumes "i < n" "\<not> inGap s i" "pendingSnapshot (nodes s i) = Some m"
  obtains s' where "step n s s'" "within n {i} s s'" "nodes s' i = (nodes s i)\<lparr>pendingSnapshot := None\<rparr>"
proof -
  define s' where "s' = handOver i (Some m) (setNode i ((nodes s i)\<lparr>pendingSnapshot := None\<rparr>) s)"
  have "step n s s'" unfolding s'_def by (rule step.applyOuter [OF assms(1,2)]) (simp add: applyTop_def assms(3))
  moreover from this have "within n {i} s s'" by (auto simp: within_def s'_def handOver_def setNode_def)
  ultimately show thesis by (rule that) (simp add: s'_def handOver_def setNode_def)
qed

text \<open>The apply loop reaches every committed entry.\<close>

lemma can_deliver:
  assumes "refines n g s" "i < n" "lastApplied (nodes s i) < k" "k \<le> commitIndex (nodes s i)" "entryAt (nodes s i) k = Some e"
  shows "\<exists>s' msg. within n {i} s s' \<and> msg \<in> set (delivered s' i) \<and> CommandValid msg \<and> CommandIndex msg = k
    \<and> amCommand msg = eCommand e \<and> state (nodes s' i) = state (nodes s i) \<and> commitIndex (nodes s' i) = commitIndex (nodes s i)"
  using assms
proof (induction "2 * nat (k - lastApplied (nodes s i)) + (if pendingSnapshot (nodes s i) = None then 0 else 1)"
    arbitrary: s g rule: less_induct)
  case less
  let ?rf = "nodes s i"
  have on: ?case if s1: "step n s s1" "within n {i} s s1" "nodes s1 i = ?rf\<lparr>lastApplied := a, pendingSnapshot := ps\<rparr>" "a < k"
    "2 * nat (k - a) + (if ps = None then 0 else 1)
      < 2 * nat (k - lastApplied ?rf) + (if pendingSnapshot ?rf = None then 0 else 1)" for s1 a ps
  proof -
    obtain g1 where r1: "refines n g1 s1" using step_refines [OF s1(1) less.prems(1)] by blast
    have "k \<le> commitIndex (nodes s1 i)" "entryAt (nodes s1 i) k = Some e" "lastApplied (nodes s1 i) < k"
      "state (nodes s1 i) = state ?rf" "commitIndex (nodes s1 i) = commitIndex ?rf"
      using s1(3,4) less.prems(4,5) entryAt_cong [of "nodes s1 i" ?rf k] by simp_all
    then show ?thesis using less.hyps [OF _ r1 less.prems(2)] s1(3,5) within_trans [OF s1(2)] by simp metis
  qed
  show ?case
  proof (cases "inGap s i \<or> pendingSnapshot ?rf = None")
    case True
    have lt: "lastApplied ?rf < commitIndex ?rf" using less.prems(3,4) by simp
    obtain s1 x where s1: "step n s s1" "within n {i} s s1" "nodes s1 i = ?rf\<lparr>lastApplied := lastApplied ?rf + 1\<rparr>"
      "entryAt ?rf (lastApplied ?rf + 1) = Some x" "commandMsg (eCommand x) (lastApplied ?rf + 1) \<in> set (delivered s1 i)"
      by (rule applies_command [OF refinesD(3) [OF less.prems(1,2)] less.prems(2) lt True])
    show ?thesis
    proof (cases "k = lastApplied ?rf + 1")
      case True
      with s1 less.prems(5) show ?thesis
        by (intro exI [of _ s1] exI [of _ "commandMsg (eCommand e) k"]) (simp add: commandMsg_def)
    next
      case False
      then show ?thesis using less.prems(3) s1(3)
        by (intro on [OF s1(1,2), where a = "lastApplied ?rf + 1" and ps = "pendingSnapshot ?rf"]) auto
    qed
  next
    case False
    then obtain m where m: "\<not> inGap s i" "pendingSnapshot ?rf = Some m" by blast
    obtain s1 where s1: "step n s s1" "within n {i} s s1" "nodes s1 i = ?rf\<lparr>pendingSnapshot := None\<rparr>"
      by (rule applies_snapshot [OF less.prems(2) m])
    show ?thesis by (rule on [OF s1(1,2), where a = "lastApplied ?rf" and ps = None]) (use s1(3) m less.prems(3) in simp_all)
  qed
qed


lemma majority_mono: "majority n Q \<Longrightarrow> Q \<subseteq> Q' \<Longrightarrow> Q' \<subseteq> {..<n} \<Longrightarrow> majority n Q'"
  by (meson majority_def card_mono finite_lessThan finite_subset order_trans)

lemma majority_others: "majority n Q \<Longrightarrow> 1 < n \<Longrightarrow> \<exists>p\<in>Q. p \<noteq> i"
proof (rule ccontr)
  assume "majority n Q" "1 < n" "\<not> (\<exists>p\<in>Q. p \<noteq> i)"
  then have "Q \<subseteq> {i}" "2 \<le> card Q" by (auto simp: majority_def)
  with card_mono [of "{i}" Q] show False by simp
qed

lemma can_commit:
  assumes ref: "refines n g s" and i: "i < n" "state (nodes s i) = leader" "1 < n"
    and Q: "majority n Q" "\<forall>p\<in>Q. currentTerm (nodes s p) \<le> currentTerm (nodes s i)"
    and top: "logTerm (nodes s i) (lastLogIndex (nodes s i)) = Some (currentTerm (nodes s i))"
  shows "\<exists>s' mx nx. within n (insert i Q) s s'
    \<and> nodes s' i = (nodes s i)\<lparr>matchIndex := mx, nextIndex := nx, commitIndex := lastLogIndex (nodes s i)\<rparr>"
proof -
  have fin: "finite (Q - {i})" "Q \<subseteq> {..<n}" using Q(1) finite_subset [of Q "{..<n}"] by (auto simp: majority_def)
  obtain ps where ps: "set ps = Q - {i}" "distinct ps" using finite_distinct_list [OF fin(1)] by blast
  obtain q where "q \<in> Q - {i}" using majority_others [OF Q(1) i(3), of i] by blast
  then have ne: "ps \<noteq> []" unfolding ps(1) [symmetric] by (cases ps) simp_all
  have "\<forall>p\<in>set ps. p < n \<and> p \<noteq> i \<and> currentTerm (nodes s p) \<le> currentTerm (nodes s i)" using Q(2) fin(2) ps(1) by auto
  from catch_up_all [OF ref i(1,2) this ps(2)] obtain s' mx nx c where s': "within n (insert i (set ps)) s s'"
    "nodes s' i = (nodes s i)\<lparr>matchIndex := mx, nextIndex := nx, commitIndex := c\<rparr>"
    "\<forall>p\<in>set ps. mx ! p = lastLogIndex (nodes s i)" "ps \<noteq> [] \<longrightarrow> replicated (last ps) (nodes s' i)"
    by (elim exE conjE) (rule that; assumption)
  obtain g' where "refines n g' s'" using within_refines [OF s'(1) ref] by blast
  note ok = node_okD [OF refinesD(3) [OF this i(1)]]
  let ?rf = "nodes s' i"
  have last: "lastLogIndex ?rf = lastLogIndex (nodes s i)" by (simp add: s'(2) lastLogIndex_def)
  have "logTerm ?rf (lastLogIndex ?rf) = Some (currentTerm ?rf)"
    using top logTerm_cong [of ?rf "nodes s i"] unfolding last by (simp add: s'(2))
  moreover have "Q \<subseteq> replicas ?rf (lastLogIndex ?rf)"
    using ps(1) s'(2,3) fin(2) ok(2,3) last by (auto simp: replicas_def)
  then have "majority n (replicas ?rf (lastLogIndex ?rf))"
    by (rule majority_mono [OF Q(1)]) (auto simp: replicas_def ok(2))
  ultimately have "committable ?rf (lastLogIndex ?rf)" by (simp add: committable_def ok(2))
  with s'(4) ne have "lastLogIndex ?rf \<le> commitIndex ?rf" by (meson replicated_def linorder_not_less order_refl)
  moreover have "commitIndex ?rf \<le> lastLogIndex ?rf" using ok(1) by (simp add: wf_raft_def)
  ultimately have "c = lastLogIndex (nodes s i)" using last by (simp add: s'(2))
  moreover have "within n (insert i Q) s s'" by (rule within_mono [OF s'(1)]) (use ps(1) in auto)
  ultimately show ?thesis using s'(2) by blast
qed

lemma can_apply:
  fixes s :: "('c, 'b) cluster"
  assumes r: "refines n g s" and i: "i < n" "state (nodes s i) = leader"
    and Q: "majority n Q" "\<forall>p\<in>Q. currentTerm (nodes s p) \<le> currentTerm (nodes s i)"
  shows "\<exists>(s' :: ('c, 'b) cluster) msg. within n (insert i Q) s s' \<and> state (nodes s' i) = leader
    \<and> msg \<in> set (delivered s' i) \<and> CommandValid msg \<and> amCommand msg = Some c
    \<and> CommandIndex msg = fst (fst (Start c (nodes s i))) \<and> CommandIndex msg \<le> commitIndex (nodes s' i)"
proof -
  define rf where "rf = nodes s i"
  define e :: "'c LogEntry" where "e = \<lparr>eTerm = currentTerm rf, eCommand = Some c\<rparr>"
  define rf0 where "rf0 = persist (rf\<lparr>log := log rf @ [e]\<rparr>)"
  define s0 where "s0 = setNode i rf0 s"
  define k where "k = lastLogIndex rf0"
  have start: "Start c rf = ((k, currentTerm rf, True), rf0)"
    using i(2) by (simp add: Start_def Let_def rf_def rf0_def e_def k_def)
  then have st: "step n s s0" unfolding s0_def using i(1) by (intro step.command) (simp_all add: rf_def)
  obtain g0 where r0: "refines n g0 s0" using step_refines [OF st r] by blast
  have at: "nodes s0 i = rf0" "state rf0 = leader" "currentTerm rf0 = currentTerm rf"
    using i(2) by (simp_all add: s0_def setNode_def rf0_def rf_def)
  have wf: "wf_raft rf" using node_okD(1) [OF refinesD(3) [OF r i(1)]] by (simp add: rf_def)
  have k: "k = lastLogIndex rf + 1" by (simp add: k_def rf0_def lastLogIndex_def)
  have ent: "entryAt rf0 k = Some e" and lt: "lastApplied rf0 < k"
    using wf by (auto simp: entryAt_nth k rf0_def lastLogIndex_def wf_raft_def nth_append)
  have "lastIncludedIndex rf0 < k" using wf k by (simp add: rf0_def wf_raft_def)
  with ent have top: "logTerm (nodes s0 i) (lastLogIndex (nodes s0 i)) = Some (currentTerm (nodes s0 i))"
    unfolding at k_def [symmetric] by (simp add: logTerm_entryAt e_def at)
  have "n \<noteq> 1" using lone_peer_follows [of s] refinesD(2) [OF r] i by auto
  then have n: "1 < n" using i(1) by simp
  have Q0: "\<forall>p\<in>Q. currentTerm (nodes s0 p) \<le> currentTerm (nodes s0 i)"
    using Q(2) at(3) by (simp add: s0_def setNode_def rf_def)
  obtain s1 mx nx where s1: "within n (insert i Q) s0 s1"
    "nodes s1 i = rf0\<lparr>matchIndex := mx, nextIndex := nx, commitIndex := k\<rparr>"
    using can_commit [OF r0 i(1) _ n Q(1) Q0 top] at by (auto simp: k_def)
  obtain g1 where r1: "refines n g1 s1" using within_refines [OF s1(1) r0] by blast
  have "entryAt (nodes s1 i) k = Some e" using ent entryAt_cong [of "nodes s1 i" rf0 k] by (simp add: s1(2))
  with can_deliver [OF r1 i(1), of k e] lt obtain s' msg where s': "within n {i} s1 s'" "msg \<in> set (delivered s' i)"
    "CommandValid msg" "CommandIndex msg = k" "amCommand msg = eCommand e" "state (nodes s' i) = leader" "commitIndex (nodes s' i) = k"
    using at(2) by (auto simp: s1(2))
  have "within n (insert i Q) s s0" by (rule within_step [OF st, of i rf0]) (simp_all add: s0_def setNode_def)
  then have "within n (insert i Q) s s'" using within_trans s1(1) within_mono [OF s'(1), of "insert i Q"] by blast
  with s'(2-7) show ?thesis using start by (intro exI [of _ s'] exI [of _ msg]) (simp add: e_def rf_def)
qed



text \<open>
  A leader can always get a command done: whatever happened before, if a majority of the peers
  is not in a later term, the cluster has a run in which the command the leader accepts with
  \<open>Start\<close> is committed at the index \<open>Start\<close> returned and handed to the leader's service.
\<close>

theorem command_can_be_applied:
  fixes s :: "('c, 'b) cluster"
  assumes "reachable ps s" and "i < length ps" and "state (nodes s i) = leader"
    and "majority (length ps) Q" and "\<forall>p\<in>Q. currentTerm (nodes s p) \<le> currentTerm (nodes s i)"
  shows "\<exists>(s' :: ('c, 'b) cluster) msg. (step (length ps))\<^sup>*\<^sup>* s s' \<and> state (nodes s' i) = leader
    \<and> msg \<in> set (delivered s' i) \<and> CommandValid msg \<and> amCommand msg = Some c
    \<and> CommandIndex msg = fst (fst (Start c (nodes s i))) \<and> CommandIndex msg \<le> commitIndex (nodes s' i)"
  using reachable_refines [OF assms(1)] can_apply [OF _ assms(2-5)] unfolding within_def by metis

theorem command_can_be_applied_witness:
  "\<exists>(s :: (nat, nat) cluster) s' msg. reachable threePeers s \<and> (step 3)\<^sup>*\<^sup>* s s' \<and> state (nodes s' 0) = leader
     \<and> msg \<in> set (delivered s' 0) \<and> amCommand msg = Some 7 \<and> CommandIndex msg = 1"
proof -
  have "map_option (\<lambda>s. (state (nodes s 0), currentTerm (nodes s 0), currentTerm (nodes s 1), fst (fst (Start 7 (nodes s 0)))))
      (run 3 electionRun (boot threePeers)) = Some (leader, 1, 1, 1)"
    by code_simp
  from sample_run [OF this] obtain s :: "(nat, nat) cluster" where s: "reachable threePeers s" "state (nodes s 0) = leader"
    "currentTerm (nodes s 0) = 1" "currentTerm (nodes s 1) = 1" "fst (fst (Start 7 (nodes s 0))) = 1" by auto
  have n: "length threePeers = 3" by (simp add: threePeers_def)
  have "majority (length threePeers) {0, 1}" by (auto simp: n majority_def)
  from command_can_be_applied [OF s(1) _ s(2) this, of 7] s n show ?thesis by auto
qed

end
