(* ===== verification/Raft_Availability.thy ===== *)
theory Raft_Availability
  imports Raft_Progress
begin

text \<open>
  No reachable state is stuck.

  Among the peers of a majority the one with the best log can win an election: it reaches a term
  that none of the others is beyond, by timing out or because a leader of an older term is
  unseated by another candidate, and then collects their votes.  Together with \<open>Raft_Progress\<close>
  this shows that a majority alone can elect a leader and get a new command applied.
\<close>

section \<open>Electing a leader\<close>

text \<open>The end of a peer's log, as vote requests compare it.\<close>

definition logEnd :: "('c, 'b) Raft \<Rightarrow> int \<times> int" where
  "logEnd rf = (the (logTerm rf (lastLogIndex rf)), lastLogIndex rf)"

definition notAhead :: "int \<times> int \<Rightarrow> int \<times> int \<Rightarrow> bool" where
  "notAhead a b \<longleftrightarrow> fst a < fst b \<or> fst a = fst b \<and> snd a \<le> snd b"

lemma logEnd_cong:
  "log rf' = log rf \<Longrightarrow> lastIncludedIndex rf' = lastIncludedIndex rf \<Longrightarrow> lastIncludedTerm rf' = lastIncludedTerm rf \<Longrightarrow>
     logEnd rf' = logEnd rf"
  by (simp add: logEnd_def logTerm_def logIndex_def lastLogIndex_def)

lemma campaign:
  assumes ref: "refines n g s" and i: "i < n" "state (nodes s i) \<noteq> leader" and n: "1 < n"
  defines "T \<equiv> currentTerm (nodes s i) + 1"
  obtains s' rf where "step n s s'" "nodes s' = (nodes s)(i := rf)" "state rf = candidate" "currentTerm rf = T"
    "logEnd rf = logEnd (nodes s i)" "voteCount s' i T = 1" "length (peers rf) = n"
    "\<And>p. p < n \<Longrightarrow> p \<noteq> i \<Longrightarrow> voteCalls s' i T p = Calling \<lparr>rvTerm = T, rvCandidateId = int i,
       rvLastLogIndex = snd (logEnd (nodes s i)), rvLastLogTerm = fst (logEnd (nodes s i))\<rparr>"
proof -
  let ?rf = "nodes s i"
  note ok = node_okD [OF refinesD(3) [OF ref i(1)]]
  define rf where "rf = persist (?rf\<lparr>state := candidate, currentTerm := T, votedFor := me ?rf\<rparr>)"
  define others where "others = filter (\<lambda>j. int j \<noteq> me rf) [0..<length (peers rf)]"
  obtain t where t: "logTerm ?rf (lastLogIndex ?rf) = Some t" using node_lastTerm [OF ok(4)] by blast
  have le: "logEnd rf = logEnd ?rf" by (rule logEnd_cong) (simp_all add: rf_def)
  have last: "lastLogIndex rf = lastLogIndex ?rf" by (simp add: rf_def lastLogIndex_def)
  have t': "logTerm rf (lastLogIndex rf) = Some t" using t logTerm_cong [of rf ?rf] unfolding last by (simp add: rf_def)
  have f: "me rf = int i" "length (peers rf) = n" "currentTerm rf = T" "state rf = candidate" using ok(2,3) by (simp_all add: rf_def)
  have in_others: "p \<in> set others" if "p < n" "p \<noteq> i" for p using that by (simp add: others_def f)
  have "\<exists>p < n. p \<noteq> i" using n by (cases "i = 0") (auto intro: exI [of _ "0::nat"] exI [of _ "1::nat"])
  then have ne: "others \<noteq> []" using in_others by fastforce
  define args where "args = \<lparr>rvTerm = T, rvCandidateId = int i, rvLastLogIndex = snd (logEnd ?rf), rvLastLogTerm = fst (logEnd ?rf)\<rparr>"
  define reqs where "reqs = map (\<lambda>j. (j, args)) others"
  have "startElection ?rf = Some (rf, reqs)"
    unfolding startElection_def T_def [symmetric] rf_def [symmetric] Let_def others_def [symmetric] reqs_def args_def
    using ne t t' last f by (simp add: logEnd_def)
  then have el: "electionTimeout (lastHeartbeat ?rf + 300) 300 ?rf = Some (rf, reqs)"
    using i(2) by (simp add: electionTimeout_def)
  define s' where "s' = setNode i rf (s\<lparr>voteCalls := openCalls i (currentTerm rf) reqs (voteCalls s),
      voteCount := (voteCount s)(i := (voteCount s i)(currentTerm rf := if reqs = [] then voteCount s i (currentTerm rf) else 1))\<rparr>)"
  have st: "step n s s'" unfolding s'_def by (rule step.timeout [OF i(1) el])
  have "map_of reqs p = Some args" if "p \<in> set others" for p using that by (simp add: reqs_def map_of_map_restrict)
  then have calls: "voteCalls s' i T p = Calling args" if "p < n" "p \<noteq> i" for p
    using in_others [OF that] by (simp add: s'_def setNode_def openCalls_def f)
  show ?thesis
    by (rule that [OF st, of rf]) (use le f calls ne in \<open>simp_all add: s'_def setNode_def args_def reqs_def\<close>)
qed

lemma vote_granted:
  assumes "node_ok n g p rf" "currentTerm rf < rvTerm args"
  obtains reply rf' where "RequestVote now args rf = Some (reply, rf')" "currentTerm rf' = rvTerm args" "state rf' = follower"
    "logEnd rf' = logEnd rf" "rvrTerm reply \<le> rvTerm args"
    "notAhead (logEnd rf) (rvLastLogTerm args, rvLastLogIndex args) \<Longrightarrow> rvrVoteGranted reply"
proof -
  obtain t where t: "logTerm rf (lastLogIndex rf) = Some t" using node_lastTerm [OF node_okD(4) [OF assms(1)]] by blast
  have same: "lastLogIndex (stepDown x rf) = lastLogIndex rf" "logTerm (stepDown x rf) k = logTerm rf k" for x k
    by (simp_all add: lastLogIndex_def logTerm_def logIndex_def)
  have le: "logEnd rf' = logEnd rf" if "log rf' = log rf" "lastIncludedIndex rf' = lastIncludedIndex rf"
    "lastIncludedTerm rf' = lastIncludedTerm rf" for rf' :: "('a, 'b) Raft"
    using that by (rule logEnd_cong)
  show ?thesis
    by (cases "t < rvLastLogTerm args \<or> rvLastLogTerm args = t \<and> lastLogIndex rf \<le> rvLastLogIndex args"; rule that)
      (use assms(2) t in \<open>auto simp: RequestVote_def Let_def same le notAhead_def logEnd_def [of rf]\<close>)
qed


lemma wins_vote:
  assumes ref: "refines n g s" and i: "i < n" "state (nodes s i) = candidate" "currentTerm (nodes s i) = T" "rvTerm args = T"
    and p: "p < n" "p \<noteq> i" "currentTerm (nodes s p) < T" "voteCalls s i T p = Calling args"
      "notAhead (logEnd (nodes s p)) (rvLastLogTerm args, rvLastLogIndex args)"
  obtains s' rf where "(step n)\<^sup>*\<^sup>* s s'" "currentTerm rf = T" "voteCount s' i T = voteCount s i T + 1"
    "nodes s' = (nodes s)(p := rf, i := if int n div 2 \<le> voteCount s i T then becomeLeader (nodes s i) else nodes s i)"
    "\<And>q. q \<noteq> p \<Longrightarrow> voteCalls s' i T q = voteCalls s i T q"
proof -
  have lt: "currentTerm (nodes s p) < rvTerm args" using p(3) i(4) by simp
  obtain reply rfp where rv: "RequestVote 0 args (nodes s p) = Some (reply, rfp)" "currentTerm rfp = T" "rvrTerm reply \<le> T"
    "rvrVoteGranted reply"
    using vote_granted [OF refinesD(3) [OF ref p(1)] lt, where now = 0] p(5) i(4) by metis
  let ?v = "voteCount s i T" and ?rf = "nodes s i"
  define s1 where "s1 = setNode p rfp (s\<lparr>voteCalls := setCall i T p (Replied args reply) (voteCalls s)\<rparr>)"
  define rf where "rf = (if int n div 2 \<le> ?v then becomeLeader ?rf else ?rf)"
  define s2 where "s2 = setNode i rf (s1\<lparr>voteCalls := setCall i T p (Handled args reply) (voteCalls s1),
      voteCount := (voteCount s1)(i := (voteCount s1 i)(T := ?v + 1))\<rparr>)"
  have st1: "step n s s1" unfolding s1_def by (rule step.vote [OF p(4,1) rv(1)])
  have "length (peers ?rf) = n" by (rule node_okD(2) [OF refinesD(3) [OF ref i(1)]])
  then have on: "onVoteReply T reply (voteCount s1 i T) (nodes s1 i) = (rf, ?v + 1)"
    using i(2,3) rv(3,4) p(2) by (simp add: onVoteReply_def s1_def setNode_def rf_def)
  have st2: "step n s1 s2" unfolding s2_def
    by (rule step.voteReply [OF _ i(1) on, where args = args and p = p]) (simp add: s1_def setNode_def setCall_def)
  show thesis
    by (rule that [of s2 rfp]) (use st1 st2 rv(2) p(2) in \<open>auto simp: s2_def s1_def setNode_def setCall_def rf_def\<close>)
qed

lemma gather_votes:
  assumes "refines n g s" "i < n" "state (nodes s i) = candidate" "currentTerm (nodes s i) = T" "rvTerm args = T"
    "voteCount s i T < int n div 2 + 1" "int n div 2 + 1 \<le> voteCount s i T + int (length ps)" "distinct (i # ps)"
    "\<forall>p\<in>set ps. p < n \<and> currentTerm (nodes s p) < T \<and> voteCalls s i T p = Calling args
       \<and> notAhead (logEnd (nodes s p)) (rvLastLogTerm args, rvLastLogIndex args)"
  shows "\<exists>s'. within n (insert i (set ps)) s s' \<and> state (nodes s' i) = leader \<and> currentTerm (nodes s' i) = T
    \<and> (\<forall>p\<in>set ps. currentTerm (nodes s' p) \<le> T)"
  using assms
proof (induction ps arbitrary: s g)
  case (Cons p ps)
  have p: "p < n" "p \<noteq> i" "currentTerm (nodes s p) < T" "voteCalls s i T p = Calling args"
    "notAhead (logEnd (nodes s p)) (rvLastLogTerm args, rvLastLogIndex args)" "p \<notin> set ps"
    using Cons.prems(8,9) by auto
  obtain s2 rfp where s2: "(step n)\<^sup>*\<^sup>* s s2" "currentTerm rfp = T" "voteCount s2 i T = voteCount s i T + 1"
    "nodes s2 = (nodes s)(p := rfp, i := if int n div 2 \<le> voteCount s i T then becomeLeader (nodes s i) else nodes s i)"
    "\<And>q. q \<noteq> p \<Longrightarrow> voteCalls s2 i T q = voteCalls s i T q"
    by (rule wins_vote [OF Cons.prems(1-5) p(1-5)]) blast
  have run: "within n (insert i (set (p # ps))) s s2" using s2(1,4) by (auto simp: within_def)
  show ?case
  proof (cases "int n div 2 \<le> voteCount s i T")
    case True
    then have "state (nodes s2 i) = leader" "currentTerm (nodes s2 i) = T" using s2(4) Cons.prems(4) by simp_all
    moreover have "\<forall>q\<in>set (p # ps). currentTerm (nodes s2 q) \<le> T"
      using Cons.prems(8,9) s2(2,4) by (auto intro: less_imp_le)
    ultimately show ?thesis using run by blast
  next
    case False
    then have n2: "nodes s2 = (nodes s)(p := rfp)" using s2(4) p(2) by auto
    obtain g2 where r2: "refines n g2 s2" using steps_refines [OF s2(1) Cons.prems(1)] by blast
    have rest: "\<forall>q\<in>set ps. q < n \<and> currentTerm (nodes s2 q) < T \<and> voteCalls s2 i T q = Calling args
       \<and> notAhead (logEnd (nodes s2 q)) (rvLastLogTerm args, rvLastLogIndex args)"
      using Cons.prems(9) p(6) s2(5) by (auto simp: n2)
    have pre: "state (nodes s2 i) = candidate" "currentTerm (nodes s2 i) = T" "voteCount s2 i T < int n div 2 + 1"
      "int n div 2 + 1 \<le> voteCount s2 i T + int (length ps)" "distinct (i # ps)"
      using n2 p(2) Cons.prems(3,4,7,8) False s2(3) by simp_all
    obtain s' where s': "within n (insert i (set ps)) s2 s'" "state (nodes s' i) = leader" "currentTerm (nodes s' i) = T"
      "\<forall>q\<in>set ps. currentTerm (nodes s' q) \<le> T"
      using Cons.IH [OF r2 Cons.prems(2) pre(1,2) Cons.prems(5) pre(3-5) rest] by blast
    have "nodes s' p = nodes s2 p" using s'(1) p(2,6) by (simp add: within_def)
    then have "currentTerm (nodes s' p) \<le> T" using n2 s2(2) by simp
    moreover have "within n (insert i (set (p # ps))) s s'"
      by (rule within_trans [OF run within_mono [OF s'(1)]]) auto
    ultimately show ?thesis using s'(2-4) by auto
  qed
qed simp

lemma can_elect:
  assumes ref: "refines n g s" and i: "i < n" "i \<in> Q" "state (nodes s i) \<noteq> leader" "1 < n" and Q: "majority n Q"
    and best: "\<forall>p\<in>Q. currentTerm (nodes s p) \<le> currentTerm (nodes s i) \<and> notAhead (logEnd (nodes s p)) (logEnd (nodes s i))"
  shows "\<exists>s'. within n Q s s' \<and> state (nodes s' i) = leader \<and> currentTerm (nodes s' i) = currentTerm (nodes s i) + 1
    \<and> (\<forall>p\<in>Q. currentTerm (nodes s' p) \<le> currentTerm (nodes s' i))"
proof -
  define T where "T = currentTerm (nodes s i) + 1"
  obtain s1 rf where s1: "step n s s1" "nodes s1 = (nodes s)(i := rf)" "state rf = candidate" "currentTerm rf = T"
    "voteCount s1 i T = 1" "\<And>p. p < n \<Longrightarrow> p \<noteq> i \<Longrightarrow> voteCalls s1 i T p = Calling \<lparr>rvTerm = T, rvCandidateId = int i,
       rvLastLogIndex = snd (logEnd (nodes s i)), rvLastLogTerm = fst (logEnd (nodes s i))\<rparr>"
    by (rule campaign [OF ref i(1,3,4)]) (simp add: T_def)
  obtain g1 where r1: "refines n g1 s1" using step_refines [OF s1(1) ref] by blast
  have fin: "finite Q" "Q \<subseteq> {..<n}" using Q finite_subset [of Q "{..<n}"] by (auto simp: majority_def)
  obtain ps where ps: "set ps = Q - {i}" "distinct ps" using finite_distinct_list [of "Q - {i}"] fin(1) by auto
  have card: "length ps + 1 = card Q" using ps distinct_card [of ps] card_Suc_Diff1 [OF fin(1) i(2)] by simp
  have many: "int n div 2 + 1 \<le> voteCount s1 i T + int (length ps)" "voteCount s1 i T < int n div 2 + 1"
    using Q card i(4) s1(5) by (simp_all add: majority_def) linarith+
  have "\<forall>p\<in>set ps. p < n \<and> currentTerm (nodes s1 p) < T \<and> voteCalls s1 i T p = Calling \<lparr>rvTerm = T, rvCandidateId = int i,
       rvLastLogIndex = snd (logEnd (nodes s i)), rvLastLogTerm = fst (logEnd (nodes s i))\<rparr>
     \<and> notAhead (logEnd (nodes s1 p)) (logEnd (nodes s i))"
    using best s1(2,6) fin(2) unfolding ps(1) T_def by auto
  with gather_votes [OF r1 i(1) _ _ _ many(2,1), of "\<lparr>rvTerm = T, rvCandidateId = int i,
       rvLastLogIndex = snd (logEnd (nodes s i)), rvLastLogTerm = fst (logEnd (nodes s i))\<rparr>"] s1(2-4) ps
  obtain s' where s': "within n (insert i (set ps)) s1 s'" "state (nodes s' i) = leader" "currentTerm (nodes s' i) = T"
    "\<forall>p\<in>set ps. currentTerm (nodes s' p) \<le> T" by auto
  have "insert i (set ps) = Q" using ps(1) i(2) by auto
  with s'(1) within_step [OF s1(1,2) i(2)] have "within n Q s s'" using within_trans by metis
  moreover have "\<forall>p\<in>Q. currentTerm (nodes s' p) \<le> currentTerm (nodes s' i)" using s'(3,4) ps(1) by (metis DiffI order_refl singletonD)
  ultimately show ?thesis using s'(2,3) unfolding T_def by blast
qed


text \<open>A peer that is not leader can reach any later term by timing out again and again.\<close>

lemma raise_term:
  assumes "refines n g s" "i < n" "state (nodes s i) \<noteq> leader" "1 < n"
  shows "\<exists>s'. within n {i} s s' \<and> state (nodes s' i) \<noteq> leader \<and> currentTerm (nodes s' i) = currentTerm (nodes s i) + int k
    \<and> logEnd (nodes s' i) = logEnd (nodes s i)"
  using assms
proof (induction k arbitrary: s g)
  case 0
  then show ?case by (intro exI [of _ s]) simp
next
  case (Suc k)
  obtain s1 rf where s1: "step n s s1" "nodes s1 = (nodes s)(i := rf)" "state rf = candidate"
    "currentTerm rf = currentTerm (nodes s i) + 1" "logEnd rf = logEnd (nodes s i)"
    by (rule campaign [OF Suc.prems])
  obtain g1 where r1: "refines n g1 s1" using step_refines [OF s1(1) Suc.prems(1)] by blast
  have "state (nodes s1 i) \<noteq> leader" by (simp add: s1(2,3))
  from Suc.IH [OF r1 Suc.prems(2) this Suc.prems(4)] obtain s' where s': "within n {i} s1 s'" "state (nodes s' i) \<noteq> leader"
    "currentTerm (nodes s' i) = currentTerm (nodes s1 i) + int k" "logEnd (nodes s' i) = logEnd (nodes s1 i)" by blast
  have "within n {i} s s'" by (rule within_trans [OF within_step [OF s1(1,2)] s'(1)]) simp
  with s'(2-4) show ?case by (intro exI [of _ s']) (simp add: s1(2,4,5))
qed

text \<open>A leader of an older term steps down when a peer in a later term starts an election.\<close>

lemma unseat:
  assumes ref: "refines n g s" and m: "m < n" "state (nodes s m) \<noteq> leader" "1 < n" and b: "b < n" "b \<noteq> m"
    and lt: "currentTerm (nodes s b) \<le> currentTerm (nodes s m)"
  shows "\<exists>s'. within n {b, m} s s' \<and> state (nodes s' b) \<noteq> leader \<and> currentTerm (nodes s' b) = currentTerm (nodes s m) + 1
    \<and> currentTerm (nodes s' m) = currentTerm (nodes s m) + 1
    \<and> logEnd (nodes s' b) = logEnd (nodes s b) \<and> logEnd (nodes s' m) = logEnd (nodes s m)"
proof -
  define T where "T = currentTerm (nodes s m) + 1"
  obtain s1 rf args where s1: "step n s s1" "nodes s1 = (nodes s)(m := rf)" "currentTerm rf = T" "logEnd rf = logEnd (nodes s m)"
    "voteCalls s1 m T b = Calling args" "rvTerm args = T"
    by (rule campaign [OF ref m]) (use b in \<open>simp add: T_def\<close>)
  obtain g1 where r1: "refines n g1 s1" using step_refines [OF s1(1) ref] by blast
  have "currentTerm (nodes s1 b) < rvTerm args" using lt b(2) by (simp add: s1(2,6) T_def)
  from vote_granted [OF refinesD(3) [OF r1 b(1)] this, where now = 0] obtain reply rfb where
    rv: "RequestVote 0 args (nodes s1 b) = Some (reply, rfb)" "currentTerm rfb = T" "state rfb = follower" "logEnd rfb = logEnd (nodes s1 b)"
    using s1(6) by metis
  define s2 where "s2 = setNode b rfb (s1\<lparr>voteCalls := setCall m T b (Replied args reply) (voteCalls s1)\<rparr>)"
  have st2: "step n s1 s2" unfolding s2_def by (rule step.vote [OF s1(5) b(1) rv(1)])
  have n2: "nodes s2 = (nodes s1)(b := rfb)" by (simp add: s2_def setNode_def)
  have "within n {b, m} s s2" by (rule within_trans [OF within_step [OF s1(1,2)] within_step [OF st2 n2]]) simp_all
  with n2 s1(2-4) rv(2-4) b(2) show ?thesis by (intro exI [of _ s2]) (simp add: T_def)
qed

lemma best_of:
  assumes "finite Q" "Q \<noteq> {}" "\<And>a b. R a b \<or> R b a" "\<And>a b c. R a b \<Longrightarrow> R b c \<Longrightarrow> R a c"
  shows "\<exists>m\<in>Q. \<forall>a\<in>Q. R a m"
  using assms(1,2)
proof (induction rule: finite_ne_induct)
  case (singleton x)
  then show ?case using assms(3) by blast
next
  case (insert x F)
  then obtain m where m: "m \<in> F" "\<forall>a\<in>F. R a m" by blast
  show ?case
  proof (cases "R m x")
    case True
    with m assms(3,4) show ?thesis by blast
  next
    case False
    with assms(3) [of m x] m show ?thesis by blast
  qed
qed

lemma can_prepare:
  assumes ref: "refines n g s" and Q: "Q \<subseteq> {..<n}" "1 < n" and m: "m \<in> Q" "state (nodes s m) \<noteq> leader" and b: "b \<in> Q"
    and max: "\<forall>p\<in>Q. currentTerm (nodes s p) \<le> currentTerm (nodes s m)"
  shows "\<exists>s'. within n Q s s' \<and> state (nodes s' b) \<noteq> leader \<and> currentTerm (nodes s m) \<le> currentTerm (nodes s' b)
    \<and> (\<forall>p\<in>Q. currentTerm (nodes s' p) \<le> currentTerm (nodes s' b) \<and> logEnd (nodes s' p) = logEnd (nodes s p))"
proof -
  have lt: "m < n" "b < n" "currentTerm (nodes s b) \<le> currentTerm (nodes s m)" using Q m(1) b max by auto
  show ?thesis
  proof (cases "state (nodes s b) = leader")
    case True
    then have "b \<noteq> m" using m(2) by auto
    from unseat [OF ref lt(1) m(2) Q(2) lt(2) this lt(3)] obtain s' where s': "within n {b, m} s s'" "state (nodes s' b) \<noteq> leader"
      "currentTerm (nodes s' b) = currentTerm (nodes s m) + 1" "currentTerm (nodes s' m) = currentTerm (nodes s m) + 1"
      "logEnd (nodes s' b) = logEnd (nodes s b)" "logEnd (nodes s' m) = logEnd (nodes s m)" by blast
    have "currentTerm (nodes s' p) \<le> currentTerm (nodes s' b) \<and> logEnd (nodes s' p) = logEnd (nodes s p)" if "p \<in> Q" for p
    proof (cases "p \<in> {b, m}")
      case False
      then have "nodes s' p = nodes s p" using s'(1) by (simp add: within_def)
      with max that s'(3) show ?thesis by fastforce
    qed (use s' in auto)
    moreover have "within n Q s s'" using within_mono [OF s'(1)] b m(1) by simp
    ultimately show ?thesis using s'(2,3) by (intro exI [of _ s']) simp
  next
    case False
    from raise_term [OF ref lt(2) this Q(2), of "nat (currentTerm (nodes s m) - currentTerm (nodes s b))"] lt(3)
    obtain s' where s': "within n {b} s s'" "state (nodes s' b) \<noteq> leader" "currentTerm (nodes s' b) = currentTerm (nodes s m)"
      "logEnd (nodes s' b) = logEnd (nodes s b)" by auto
    have "currentTerm (nodes s' p) \<le> currentTerm (nodes s' b) \<and> logEnd (nodes s' p) = logEnd (nodes s p)" if "p \<in> Q" for p
    proof (cases "p = b")
      case False
      then have "nodes s' p = nodes s p" using s'(1) by (simp add: within_def)
      with max that s'(3) show ?thesis by simp
    qed (use s' in auto)
    moreover have "within n Q s s'" using within_mono [OF s'(1)] b by simp
    ultimately show ?thesis using s'(2,3) by (intro exI [of _ s']) simp
  qed
qed

lemma can_lead:
  assumes ref: "refines n g s" and Q: "majority n Q" "1 < n"
  shows "\<exists>s' i. within n Q s s' \<and> i \<in> Q \<and> state (nodes s' i) = leader
    \<and> (\<forall>p\<in>Q. currentTerm (nodes s' p) \<le> currentTerm (nodes s' i) \<and> currentTerm (nodes s p) \<le> currentTerm (nodes s' i))"
proof -
  have fin: "finite Q" "Q \<noteq> {}" "Q \<subseteq> {..<n}" using Q finite_subset [of Q "{..<n}"] by (auto simp: majority_def)
  obtain m where m: "m \<in> Q" "\<forall>p\<in>Q. currentTerm (nodes s p) \<le> currentTerm (nodes s m)"
    using best_of [OF fin(1,2), of "\<lambda>a b. currentTerm (nodes s a) \<le> currentTerm (nodes s b)"] by fastforce
  show ?thesis
  proof (cases "state (nodes s m) = leader")
    case True
    with m show ?thesis by (intro exI [of _ s] exI [of _ m]) simp
  next
    case False
    obtain b where b: "b \<in> Q" "\<forall>p\<in>Q. notAhead (logEnd (nodes s p)) (logEnd (nodes s b))"
      using best_of [OF fin(1,2), of "\<lambda>a b. notAhead (logEnd (nodes s a)) (logEnd (nodes s b))"] by (fastforce simp: notAhead_def)
    obtain s1 where s1: "within n Q s s1" "state (nodes s1 b) \<noteq> leader" "currentTerm (nodes s m) \<le> currentTerm (nodes s1 b)"
      "\<forall>p\<in>Q. currentTerm (nodes s1 p) \<le> currentTerm (nodes s1 b) \<and> logEnd (nodes s1 p) = logEnd (nodes s p)"
      using can_prepare [OF ref fin(3) Q(2) m(1) False b(1) m(2)] by blast
    obtain g1 where r1: "refines n g1 s1" using within_refines [OF s1(1) ref] by blast
    have "\<forall>p\<in>Q. currentTerm (nodes s1 p) \<le> currentTerm (nodes s1 b) \<and> notAhead (logEnd (nodes s1 p)) (logEnd (nodes s1 b))"
      using s1(4) b by simp
    moreover have "b < n" using b(1) fin(3) by auto
    ultimately obtain s' where s': "within n Q s1 s'" "state (nodes s' b) = leader"
      "\<forall>p\<in>Q. currentTerm (nodes s' p) \<le> currentTerm (nodes s' b)" "currentTerm (nodes s' b) = currentTerm (nodes s1 b) + 1"
      using can_elect [OF r1 _ b(1) s1(2) Q(2,1)] by blast
    then have "currentTerm (nodes s m) \<le> currentTerm (nodes s' b)" using s1(3) by simp
    then have "\<forall>p\<in>Q. currentTerm (nodes s p) \<le> currentTerm (nodes s' b)" using m(2) by (meson order_trans)
    with s' b(1) within_trans [OF s1(1) s'(1)] show ?thesis by blast
  qed
qed


text \<open>A later leader's log covers what was committed before.\<close>

lemma committed_below_leader:
  assumes r: "refines n g s" "grows g g'" "refines n g' s'" and i: "i < n" "state (nodes s' i) = leader" and p: "p < n"
    and le: "currentTerm (nodes s p) \<le> currentTerm (nodes s' i)"
  shows "commitIndex (nodes s p) \<le> lastLogIndex (nodes s' i)"
proof -
  note okp = node_okD [OF refinesD(3) [OF r(1) p]] and ok = node_okD [OF refinesD(3) [OF r(3) i(1)]]
  have "dterm g p \<le> currentTerm (nodes s' i)" using okp(5) le by simp
  moreover have "lead g' (currentTerm (nodes s' i)) \<noteq> None" "flog g' i = leadLog g' (currentTerm (nodes s' i))"
    using ok(8) [OF i(2)] by (simp_all add: leadsTerm_def)
  ultimately have "prefix (take (nat (commitIndex (nodes s p))) (flog g p)) (flog g' i)"
    using settled_leader [OF refinesD(1) [OF r(3)] settled_grows [OF r(2) okp(6) order_refl]] by simp
  from prefix_length_le [OF this] show ?thesis using okp(10,11) node_last [OF ok(4)] by simp
qed



end
