(* ===== verification/Spec2Isabelle.thy ===== *)
theory Spec2Isabelle
  imports Crond System_Stores Raft_Election Raft_Availability Raft_Rpc
begin

text \<open>
  A verification of \<open>raft-scheduler\<close>, a replicated cron service: nodes agree on a log of commands
  with Raft, a store applies the commands to a set of jobs, a scheduler on the leader fires the jobs
  that are due, and a REST API creates, reads, deletes and triggers jobs.

  \<^bold>\<open>The model of the code\<close>
  \<^item> \<open>Prelude\<close>: Go's bounds-checked slices (a panic is \<open>None\<close>), 64-bit wrap-around, and
    the locale \<open>quorum_system\<close>, interpreted on majorities \<open>len(peers)/2 + 1\<close>.
  \<^item> \<open>Go_Time\<close>, \<open>Go_Strings\<close>: what the program uses of the packages \<open>time\<close> (instants
    as nanoseconds since the zero time, in UTC, with the proleptic Gregorian calendar),
    \<open>strings\<close>, \<open>strconv\<close> and \<open>encoding/hex\<close>.
  \<^item> \<open>Cron\<close>: \<open>src/pkg/cron/parser.go\<close>.  Parsing into bit masks, and \<open>Next\<close>,
    shown equal to a search minute by minute.
  \<^item> \<open>Raft_Types\<close>, \<open>Raft_Node\<close>, \<open>Raft_Loops\<close>: \<open>src/internal/raft/raft.go\<close> and
    \<open>persister.go\<close>.  The record \<open>Raft\<close> has the fields of the struct, and each critical section (what a
    goroutine does between taking and releasing \<open>rf.mu\<close>) is one function; the loops of the goroutines
    are functions from one place of a loop to the next.
  \<^item> \<open>Raft_Rpc\<close>: \<open>rpc.go\<close>.  Calls and the adapter, over the locale \<open>transport\<close>, which states what the
    callers rely on of \<open>net/rpc\<close> and is interpreted on a network that loses messages.
  \<^item> \<open>Store\<close>: \<open>src/internal/store/store.go\<close> and \<open>snapshot.go\<close>.  The state
    machine with its contract \<open>spec\<close>, the waiters of \<open>Submit\<close>, and the locale
    \<open>replicated_machine\<close>.
  \<^item> \<open>Executor\<close>, \<open>Scheduler\<close>: \<open>src/internal/scheduler\<close>.  The executors over an outside
    world, and the scheduler over the locale \<open>scheduler_backend\<close>, interpreted on a node whose
    submits go through the store and its Raft peer.
  \<^item> \<open>Api\<close>: \<open>src/internal/api\<close>.  The handlers over the locale \<open>job_store\<close>, interpreted
    on the same node, the routes and the logging middleware.
  \<^item> \<open>Crond\<close>: \<open>src/cmd/crond/main.go\<close>.  Configuration, start-up, its servers, and shutdown.

  \<^bold>\<open>The proofs about Raft\<close>
  \<^item> \<open>Raft_Local\<close>, \<open>Raft_Log\<close>, \<open>Raft_Apply\<close>: one peer: terms, votes and stable storage; the log, the
    commit index and the invariant \<open>wf_raft\<close>; replication, compaction, delivery and restarts.
  \<^item> \<open>Raft_Cluster\<close>: a step relation of a whole cluster with messages that are lost, delayed or
    late and peers that restart from their persisters, and an executable form of it.
  \<^item> \<open>Raft_Election\<close>: at most one leader in a term.
  \<^item> \<open>Raft_Protocol\<close>, \<open>Raft_Safety\<close>: the protocol without messages, snapshots and indices, and its
    invariant \<open>pinv\<close>.  \<open>Raft_Refine\<close>: every step of the cluster is a step of the protocol or none, so
    the invariant holds of the code.  \<open>Raft_Guarantees\<close>: what follows for the cluster.
  \<^item> \<open>Raft_Progress\<close>, \<open>Raft_Availability\<close>: from every reachable state a majority can elect a leader,
    bring its logs up to date, commit a command and hand it to the service.
  \<^item> \<open>Raft_Origin\<close>: where commands come from and how the apply loop moves.

  \<^bold>\<open>Whole nodes\<close>
  \<^item> \<open>Replication\<close>: what the services of a cluster are given, as states of the store.
  \<^item> \<open>System\<close>: a system of nodes with a peer and a store each: submits, waiting callers, the
    store's apply loop, compaction by the store, restarts.  \<open>System_Writes\<close>: what callers are told.
    \<open>System_Stores\<close>: what the stores hold.
  \<^item> This theory: the apply loop of one peer with its store.

  \<^bold>\<open>What is shown\<close>
  \<^item> Agreement: two commands ever handed over at the same index are the same, leaders have all
    committed entries, at most one peer leads in a term, and no critical section of a running cluster
    panics (\<open>event_ok\<close>, which \<open>Raft_Log\<close> assumes of the other parties, holds in a cluster).
  \<^item> Writes: a \<open>Submit\<close> that returns without an error has its command at its index for good, on every
    node; stores are given only what was submitted; neither side of a node blocks the other.
  \<^item> Stores: as long as snapshots arrive in time, every store holds the state after a prefix of one
    sequence of commands, through restarts, compaction and installed snapshots.
  \<^item> Progress: stated as possibility, since the code relies on timing that is not modelled; the
    exchange of logs between a leader and a follower ends within a bound, and so do the loops of a
    killed peer.
  \<^item> The store implements its contract, never blocks on a waiter and tells each waiter the truth about
    its request.
  \<^item> Cron: \<open>Next\<close> is the first allowed minute; parsing terminates and yields masks in range.
  \<^item> Scheduler and API: a job runs at most once per firing and only after its next time was committed;
    a follower executes nothing and refuses writes; reads follow writes.
  \<^item> Deviations: the last properties and some other theorems pin down where the code does not do what
    its comments or documents say: day fields with a star, snapshots that are overtaken by newer
    commands or set the service back, entries that survive a snapshot they conflict with, a lone node
    that never leads, persisters that do not survive the process, waiters dropped by another caller's
    time-out, jobs that run twice or reappear after a deletion.

  \<^bold>\<open>Loops and bounds\<close>: all loops are total functions with termination proofs, but for the loop of
  \<open>fillRangeStep\<close>, which is a partial function shown to return on every call the parser makes.
  There is no fuel.  Terms, indices and counters are unbounded integers, except in
  \<open>fillRangeStep\<close>, where the wrap-around matters.

  \<^bold>\<open>Not modelled\<close>: sockets and signals, JSON and gob encodings (a stream is the list of the values
  encoded into it, so the sizes in bytes that the persister reports are left out), log output and
  real time; sleeping loops appear as steps that may happen at any moment.
\<close>


section \<open>Raft and the store together\<close>

text \<open>The commands of the committed entries that the service has not had yet.\<close>

definition undelivered :: "storeRaft \<Rightarrow> Cmd list" where
  "undelivered rf =
     concat (map (\<lambda>i. case Option.bind (entryAt rf i) eCommand of None \<Rightarrow> [] | Some c \<Rightarrow> [c])
       [lastApplied rf + 1..commitIndex rf])"

lemma drain_feeds_store:
  assumes "wf_raft rf" "waiters_ok s"
  shows "\<exists>msgs rf' s'. drain rf = Some (msgs, rf') \<and> lastApplied rf' = commitIndex rf \<and> feed msgs s = Some s'
    \<and> waiters_ok s' \<and> storeView s' = storeView (fold applySwitch (undelivered rf) s)"
proof -
  let ?msgs = "map (deliver rf) [lastApplied rf + 1..commitIndex rf]"
  have "\<forall>msg \<in> set ?msgs. \<not> SnapshotValid msg" by (auto simp: deliver_def commandMsg_def)
  moreover have "concat (map commandOf ?msgs) = undelivered rf"
    by (simp add: undelivered_def commandOf_def deliver_def commandMsg_def comp_def)
  ultimately show ?thesis
    using drain_spec [OF assms(1)] feed_commands [OF assms(2), of ?msgs] by auto
qed

lemma undelivered_cong:
  assumes "lastApplied rf = lastApplied rf'" "commitIndex rf = commitIndex rf'"
    "\<And>i. lastApplied rf < i \<Longrightarrow> i \<le> commitIndex rf \<Longrightarrow> entryAt rf i = entryAt rf' i"
  shows "undelivered rf = undelivered rf'"
  using assms by (auto simp: undelivered_def intro!: arg_cong [where f = concat])

text \<open>
  Replicas agree: two nodes whose stores hold the same jobs and runs, and whose logs agree on the
  committed entries not yet applied, hold the same jobs and runs after their apply loops have run,
  whatever waiters they have and wherever their logs are compacted; neither node panics or blocks.
\<close>

theorem replicas_agree:
  assumes "wf_raft rf" and "wf_raft rf'" and "waiters_ok s" and "waiters_ok s'"
    and "storeView s = storeView s'" and "lastApplied rf = lastApplied rf'" and "commitIndex rf = commitIndex rf'"
    and "\<forall>i. lastApplied rf < i \<and> i \<le> commitIndex rf \<longrightarrow> entryAt rf i = entryAt rf' i"
  shows "\<exists>msgs msgs' r r' t t'. drain rf = Some (msgs, r) \<and> drain rf' = Some (msgs', r')
    \<and> feed msgs s = Some t \<and> feed msgs' s' = Some t' \<and> storeView t = storeView t'"
proof -
  have "undelivered rf = undelivered rf'" using assms by (intro undelivered_cong) auto
  with store_machine.replay_view [OF assms(5), of "undelivered rf"]
    drain_feeds_store [OF assms(1,3)] drain_feeds_store [OF assms(2,4)] show ?thesis by metis
qed

definition replicaPeer :: "int \<Rightarrow> storeRaft" where
  "replicaPeer m = (Make [NewPeer ''a'', NewPeer ''b''] m MakePersister 0)\<lparr>commitIndex := 1,
     log := [\<lparr>eTerm = 0, eCommand = None\<rparr>, \<lparr>eTerm = 1, eCommand = Some (upsertCmd ''r'' ''j'')\<rparr>]\<rparr>"

theorem replicas_agree_witness:
  "\<exists>msgs msgs' r r' t t'. drain (replicaPeer 0) = Some (msgs, r) \<and> drain (replicaPeer 1) = Some (msgs', r')
    \<and> feed msgs (makeStore True None) = Some t \<and> feed msgs' (makeStore True None) = Some t'
    \<and> storeView t = storeView t'"
proof -
  have f: "lastApplied (replicaPeer m) = 0" "commitIndex (replicaPeer m) = 1"
    "entryAt (replicaPeer m) i = entryAt (replicaPeer 0) i" for m i
    by (simp_all add: replicaPeer_def Make_def readPersist_def entryAt_def logIndex_def)
  have w: "wf_raft (replicaPeer m)" if "0 \<le> m" "m < 2" for m
    using that by (simp add: wf_raft_def replicaPeer_def Make_def readPersist_def lastLogIndex_def)
  show ?thesis
    by (rule replicas_agree [OF w w waiters_ok_make waiters_ok_make]) (simp_all add: f(1,2), simp add: f(3) [of 1])
qed

text \<open>
  Recovery of a node: a store restored from the snapshot of a peer's persister, and fed what the
  peer delivers, equals the original store fed the same, if that snapshot was taken of it.
\<close>

theorem recovery_catches_up:
  assumes "wf_raft rf" and "waiters_ok s" and "ReadSnapshot (persister rf) = encodeSnapshot s"
  shows "\<exists>msgs rf' t t'. drain rf = Some (msgs, rf') \<and> feed msgs s = Some t
    \<and> feed msgs (makeStore True (Some (persister rf))) = Some t' \<and> storeView t' = storeView t"
proof -
  have "makeStore True (Some (persister rf)) = installSnapshot (encodeSnapshot s) (makeStore True None)"
    using assms(3) by (simp add: makeStore_def encodeSnapshot_def)
  then have view: "storeView (makeStore True (Some (persister rf))) = storeView s"
    by (simp add: store_machine.restore_view)
  from store_machine.replay_view [OF this, of "undelivered rf"] drain_feeds_store [OF assms(1,2)]
    drain_feeds_store [OF assms(1) waiters_ok_make [of True "Some (persister rf)"]]
  show ?thesis by (metis option.inject prod.inject)
qed

theorem recovery_catches_up_witness:
  "\<exists>rf msgs rf' t t'. drain rf = Some (msgs, rf') \<and> msgs \<noteq> [] \<and> feed msgs (makeStore True None) = Some t
    \<and> feed msgs (makeStore True (Some (persister rf))) = Some t' \<and> storeView t' = storeView t"
proof -
  define rf where "rf = persistWithSnapshot (encodeSnapshot (makeStore True None)) (replicaPeer 0)"
  have w: "wf_raft rf"
    by (simp add: wf_raft_def rf_def replicaPeer_def Make_def readPersist_def lastLogIndex_def)
  have "ReadSnapshot (persister rf) = encodeSnapshot (makeStore True None)"
    by (simp add: rf_def persistWithSnapshot_def)
  from recovery_catches_up [OF w waiters_ok_make this] obtain msgs rf' t t' where
    d: "drain rf = Some (msgs, rf')" "feed msgs (makeStore True None) = Some t"
    "feed msgs (makeStore True (Some (persister rf))) = Some t'" "storeView t' = storeView t" by blast
  have "lastApplied rf = 0" "commitIndex rf = 1"
    by (simp_all add: rf_def replicaPeer_def Make_def readPersist_def)
  then have "msgs \<noteq> []" using drain_spec [OF w] d(1) by auto
  with d show ?thesis by blast
qed

end
